(* ===== verification/Dpi_Prelude.thy ===== *)
theory Dpi_Prelude
  imports Main "HOL-Library.Word" "HOL-Library.Sublist"
begin

text \<open>
  Shared vocabulary of the development: machine integers and their byte order, byte buffers with
  checked reads, the result type of code that can run into undefined behaviour or throw, a small
  weakest-precondition calculus for that type, and hash sets as duplicate-free lists.
\<close>

section \<open>Machine integers and bytes\<close>

type_synonym u8 = "8 word"
type_synonym u16 = "16 word"
type_synonym u32 = "32 word"
type_synonym u64 = "64 word"
type_synonym bytes = "u8 list"

unbundle bit_operations_syntax

named_theorems wp_simps \<open>weakest-precondition rules of the result type\<close>
named_theorems byte_order \<open>numeric reading of the byte-order operations\<close>

text \<open>
  Big-endian composition of bytes as the shifts and ors of the source compute it
  (\<open>SNIExtractor::readUint16BE\<close>, \<open>readUint24BE\<close>, the inline expressions of the extractors).
\<close>

definition be16 :: "u8 \<Rightarrow> u8 \<Rightarrow> u16" where
  "be16 a b = push_bit 8 (ucast a) OR ucast b"

definition be24 :: "u8 \<Rightarrow> u8 \<Rightarrow> u8 \<Rightarrow> u32" where
  "be24 a b c = push_bit 16 (ucast a) OR push_bit 8 (ucast b) OR ucast c"

definition be32 :: "u8 \<Rightarrow> u8 \<Rightarrow> u8 \<Rightarrow> u8 \<Rightarrow> u32" where
  "be32 a b c d = push_bit 24 (ucast a) OR push_bit 16 (ucast b) OR push_bit 8 (ucast c) OR ucast d"

lemma mult_power_or_eq_add:
  assumes "a < 2 ^ n"
  shows "(b * 2 ^ n OR a :: nat) = b * 2 ^ n + a"
proof -
  have "b * 2 ^ n AND a = 0"
  proof (rule bit_eqI)
    fix k
    have "bit a k \<Longrightarrow> k < n" using assms by (metis bit_take_bit_iff take_bit_nat_eq_self)
    then show "bit (b * 2 ^ n AND a) k \<longleftrightarrow> bit (0::nat) k"
      by (auto simp: bit_simps push_bit_nat_def [symmetric])
  qed
  then show ?thesis by (simp add: disjunctive_add_eq_or)
qed

lemma unat_u8_less [simp]: "unat (b :: u8) < 256"
  using unsigned_less [of b] by simp

lemma unat_u16_less [simp]: "unat (b :: u16) < 65536"
  using unsigned_less [of b] by simp

lemma unat_u32_less [simp]: "unat (b :: u32) < 4294967296"
  using unsigned_less [of b] by simp

lemmas unsigned_bit_eqs = unsigned_or_eq unsigned_and_eq unsigned_xor_eq unsigned_push_bit_eq
  unsigned_drop_bit_eq unsigned_ucast_eq

lemmas or_shift8 = mult_power_or_eq_add [where n = 8, simplified]
lemmas or_shift16 = mult_power_or_eq_add [where n = 16, simplified]
lemmas or_shift24 = mult_power_or_eq_add [where n = 24, simplified]

lemma unat_be16 [byte_order]: "unat (be16 a b) = unat a * 256 + unat b"
  using unat_u8_less [of a] unat_u8_less [of b]
  by (simp add: be16_def unsigned_bit_eqs take_bit_nat_eq_self or_shift8 push_bit_nat_def
      del: unat_u8_less)

lemma unat_be24 [byte_order]: "unat (be24 a b c) = unat a * 65536 + unat b * 256 + unat c"
  using unat_u8_less [of a] unat_u8_less [of b] unat_u8_less [of c]
  by (simp add: be24_def unsigned_bit_eqs take_bit_nat_eq_self or_shift8 or_shift16
      push_bit_nat_def del: unat_u8_less)

lemma unat_be32 [byte_order]:
  "unat (be32 a b c d) = unat a * 16777216 + unat b * 65536 + unat c * 256 + unat d"
  using unat_u8_less [of a] unat_u8_less [of b] unat_u8_less [of c] unat_u8_less [of d]
  by (simp add: be32_def unsigned_bit_eqs take_bit_nat_eq_self or_shift8 or_shift16 or_shift24
      push_bit_nat_def del: unat_u8_less)

text \<open>The bytes a 16-, 24- or 32-bit number is written as in network order.\<close>

definition put16 :: "nat \<Rightarrow> bytes" where
  "put16 n = [of_nat (n div 256), of_nat n]"

definition put24 :: "nat \<Rightarrow> bytes" where
  "put24 n = [of_nat (n div 65536), of_nat (n div 256), of_nat n]"

lemma length_put [simp]: "length (put16 n) = 2" "length (put24 n) = 3"
  by (simp_all add: put16_def put24_def)

lemma unat_of_nat_u8 [simp]: "unat (of_nat n :: u8) = n mod 256"
  by (simp add: unsigned_of_nat take_bit_eq_mod)

lemma be16_put16: "n < 65536 \<Longrightarrow> unat (be16 (put16 n ! 0) (put16 n ! Suc 0)) = n"
  by (simp add: put16_def byte_order)

lemma be24_put24:
  assumes "n < 16777216"
  shows "unat (be24 (put24 n ! 0) (put24 n ! Suc 0) (put24 n ! Suc (Suc 0))) = n"
proof -
  have "n div 65536 = n div 256 div 256"
    by (simp add: div_mult2_eq [symmetric])
  then have "n div 65536 * 65536 + n div 256 mod 256 * 256 + n mod 256 = n"
    using div_mult_mod_eq [of "n div 256" 256] div_mult_mod_eq [of n 256] by linarith
  with assms show ?thesis by (simp add: put24_def byte_order)
qed

section \<open>Results of code that can fail\<close>

text \<open>
  What C++ leaves undefined or throws is a value of the left summand: a read outside the object,
  \<open>std::get\<close> of the wrong alternative, a use of a pointer to a dead object, a shift by the width or
  more, signed overflow, division by zero, the exception of a \<open>std::vector\<close> that would be too large, the
  two exceptions of \<open>std::stoi\<close>, and the use of a variable that was never set.
\<close>

datatype cxx_fault =
    OutOfBounds
  | BadVariantAccess
  | DanglingPointer
  | ShiftTooWide
  | SignedOverflow
  | DivisionByZero
  | LengthError
  | InvalidArgument
  | OutOfRange
  | IndeterminateValue

type_synonym 'a res = "cxx_fault + 'a"

fun rbind :: "'e + 'a \<Rightarrow> ('a \<Rightarrow> 'e + 'b) \<Rightarrow> 'e + 'b" where
  "rbind (Inl e) f = Inl e"
| "rbind (Inr x) f = f x"

lemma rbind_cong [fundef_cong]:
  "m = m' \<Longrightarrow> (\<And>x. m' = Inr x \<Longrightarrow> f x = g x) \<Longrightarrow> rbind m f = rbind m' g"
  by (cases m) auto

lemma rbind_Inr_iff: "rbind m f = Inr y \<longleftrightarrow> (\<exists>x. m = Inr x \<and> f x = Inr y)"
  by (cases m) auto

lemma rbind_Inl_iff: "rbind m f = Inl e \<longleftrightarrow> m = Inl e \<or> (\<exists>x. m = Inr x \<and> f x = Inl e)"
  by (cases m) auto

text \<open>\<open>wp m Q\<close>: the computation does not fail and its result satisfies \<open>Q\<close>.\<close>

definition wp :: "'e + 'a \<Rightarrow> ('a \<Rightarrow> bool) \<Rightarrow> bool" where
  "wp m Q = (case m of Inl _ \<Rightarrow> False | Inr x \<Rightarrow> Q x)"

lemma wp_Inr [wp_simps]: "wp (Inr x) Q = Q x"
  by (simp add: wp_def)

lemma wp_Inl [wp_simps]: "wp (Inl e) Q = False"
  by (simp add: wp_def)

lemma wp_rbind [wp_simps]: "wp (rbind m f) Q = wp m (\<lambda>x. wp (f x) Q)"
  by (cases m) (simp_all add: wp_def)

lemma wp_if [wp_simps]: "wp (if c then m else m') Q = (if c then wp m Q else wp m' Q)"
  by simp

lemma wp_iff: "wp m Q \<longleftrightarrow> (\<exists>x. m = Inr x \<and> Q x)"
  by (cases m) (simp_all add: wp_def)

lemma wp_mono: "wp m P \<Longrightarrow> (\<And>x. P x \<Longrightarrow> Q x) \<Longrightarrow> wp m Q"
  by (auto simp: wp_iff)

lemma wp_conj: "wp m P \<Longrightarrow> wp m Q \<Longrightarrow> wp m (\<lambda>x. P x \<and> Q x)"
  by (auto simp: wp_iff)

text \<open>A loop that appends the result of one computation per element.\<close>

primrec rmap :: "('a \<Rightarrow> 'e + 'b) \<Rightarrow> 'a list \<Rightarrow> 'e + 'b list" where
  "rmap f [] = Inr []"
| "rmap f (x # xs) = rbind (f x) (\<lambda>y. rbind (rmap f xs) (\<lambda>ys. Inr (y # ys)))"

lemma rmap_Inr: "(\<And>x. x \<in> set xs \<Longrightarrow> f x = Inr (g x)) \<Longrightarrow> rmap f xs = Inr (map g xs)"
  by (induction xs) auto

section \<open>Checked reads\<close>

text \<open>
  A pointer into a buffer is the list of the bytes that can be read from it; a read past the end is
  the fault \<open>OutOfBounds\<close>. The lengths the code compares against are separate arguments, as in the
  source.
\<close>

definition rd :: "bytes \<Rightarrow> nat \<Rightarrow> u8 res" where
  "rd p i = (if i < length p then Inr (p ! i) else Inl OutOfBounds)"

definition rd_bytes :: "bytes \<Rightarrow> nat \<Rightarrow> nat \<Rightarrow> bytes res" where
  "rd_bytes p i n = (if i + n \<le> length p then Inr (take n (drop i p)) else Inl OutOfBounds)"

definition rd16 :: "bytes \<Rightarrow> nat \<Rightarrow> u16 res" where
  "rd16 p i = rbind (rd p i) (\<lambda>a. rbind (rd p (i + 1)) (\<lambda>b. Inr (be16 a b)))"

definition rd24 :: "bytes \<Rightarrow> nat \<Rightarrow> u32 res" where
  "rd24 p i = rbind (rd p i) (\<lambda>a. rbind (rd p (i + 1)) (\<lambda>b. rbind (rd p (i + 2)) (\<lambda>c.
     Inr (be24 a b c))))"

lemma rd_in [simp]: "i < length p \<Longrightarrow> rd p i = Inr (p ! i)"
  by (simp add: rd_def)

lemma rd_out [simp]: "length p \<le> i \<Longrightarrow> rd p i = Inl OutOfBounds"
  by (simp add: rd_def)

lemma rd_bytes_in [simp]: "i + n \<le> length p \<Longrightarrow> rd_bytes p i n = Inr (take n (drop i p))"
  by (simp add: rd_bytes_def)

lemma rd16_in [simp]: "Suc i < length p \<Longrightarrow> rd16 p i = Inr (be16 (p ! i) (p ! Suc i))"
  by (simp add: rd16_def)

lemma rd24_in [simp]:
  "Suc (Suc i) < length p \<Longrightarrow> rd24 p i = Inr (be24 (p ! i) (p ! Suc i) (p ! Suc (Suc i)))"
  by (simp add: rd24_def)

lemma wp_rd [wp_simps]: "wp (rd p i) Q \<longleftrightarrow> i < length p \<and> Q (p ! i)"
  by (simp add: rd_def wp_def)

lemma wp_rd_bytes [wp_simps]:
  "wp (rd_bytes p i n) Q \<longleftrightarrow> i + n \<le> length p \<and> Q (take n (drop i p))"
  by (simp add: rd_bytes_def wp_def)

lemma wp_rd16 [wp_simps]:
  "wp (rd16 p i) Q \<longleftrightarrow> Suc i < length p \<and> Q (be16 (p ! i) (p ! Suc i))"
  by (auto simp: rd16_def wp_simps)

lemma wp_rd24 [wp_simps]:
  "wp (rd24 p i) Q \<longleftrightarrow>
     Suc (Suc i) < length p \<and> Q (be24 (p ! i) (p ! Suc i) (p ! Suc (Suc i)))"
  by (auto simp: rd24_def wp_simps)

lemma take_drop_sublist: "sublist (take n (drop i p)) p"
  by (metis sublist_drop sublist_order.order.trans sublist_take)

section \<open>Hash sets\<close>

text \<open>
  A \<open>std::unordered_set\<close> is the list of its elements in its iteration order, which the standard
  leaves open; \<open>distinct\<close> is its invariant. No theorem of the development depends on the order.
\<close>

definition uset_insert :: "'a \<Rightarrow> 'a list \<Rightarrow> 'a list" where
  "uset_insert x xs = (if x \<in> set xs then xs else xs @ [x])"

definition uset_erase :: "'a \<Rightarrow> 'a list \<Rightarrow> 'a list" where
  "uset_erase x xs = filter (\<lambda>y. y \<noteq> x) xs"

lemma set_uset_insert [simp]: "set (uset_insert x xs) = insert x (set xs)"
  by (auto simp: uset_insert_def)

lemma set_uset_erase [simp]: "set (uset_erase x xs) = set xs - {x}"
  by (auto simp: uset_erase_def)

lemma distinct_uset_insert [simp]: "distinct xs \<Longrightarrow> distinct (uset_insert x xs)"
  by (simp add: uset_insert_def)

lemma distinct_uset_erase [simp]: "distinct xs \<Longrightarrow> distinct (uset_erase x xs)"
  by (simp add: uset_erase_def)

end
