(* ===== verification/Dpi_Text.thy ===== *)
theory Dpi_Text
  imports Dpi_Prelude
begin

text \<open>
  The parts of \<open>std::string\<close> and of the C library the program uses on text: characters as bytes,
  \<open>std::tolower\<close>, decimal output (\<open>std::to_string\<close>, \<open>operator<<\<close>), \<open>std::stoi\<close> and the
  line-by-line reading of a file with \<open>std::getline\<close>.
\<close>

section \<open>Characters\<close>

definition byte_char :: "u8 \<Rightarrow> char" where
  "byte_char b = char_of (unat b)"

definition char_byte :: "char \<Rightarrow> u8" where
  "char_byte c = of_nat (of_char c)"

definition newline :: char where
  "newline = CHR 0x0A"

lemma of_char_less [simp]: "(of_char c :: nat) < 256"
proof -
  have "(of_char c :: nat) \<in> {0..<256}"
    by (metis UNIV_I nat_of_char_less_256 atLeastLessThan_iff le0)
  then show ?thesis by simp
qed

lemma byte_char_inverse [simp]: "char_byte (byte_char b) = b"
  by (simp add: byte_char_def char_byte_def of_char_of)

lemma char_byte_inverse [simp]: "byte_char (char_byte c) = c"
  by (simp add: byte_char_def char_byte_def)

lemma byte_char_eq_iff: "byte_char b = c \<longleftrightarrow> b = char_byte c"
  by (metis byte_char_inverse char_byte_inverse)

text \<open>\<open>std::tolower\<close> in the C locale: only the letters A to Z change.\<close>

definition to_lower :: "char \<Rightarrow> char" where
  "to_lower c = (if 65 \<le> (of_char c :: nat) \<and> (of_char c :: nat) \<le> 90
                 then char_of (of_char c + 32 :: nat) else c)"

lemma to_lower_idem [simp]: "to_lower (to_lower c) = to_lower c"
  by (auto simp: to_lower_def of_char_of)

lemma of_char_to_lower:
  "(of_char (to_lower c) :: nat) =
     (if 65 \<le> (of_char c :: nat) \<and> (of_char c :: nat) \<le> 90 then of_char c + 32 else of_char c)"
  by (simp add: to_lower_def of_char_of)

lemma to_lower_eq_iff:
  assumes "\<not> (97 \<le> (of_char d :: nat) \<and> (of_char d :: nat) \<le> 122)"
  shows "to_lower c = d \<longleftrightarrow> c = d \<and> \<not> (65 \<le> (of_char d :: nat) \<and> (of_char d :: nat) \<le> 90)"
proof
  assume eq: "to_lower c = d"
  have "c = d"
  proof (cases "65 \<le> (of_char c :: nat) \<and> (of_char c :: nat) \<le> 90")
    case True
    then have "(of_char d :: nat) = of_char c + 32" using eq of_char_to_lower [of c] by simp
    with True assms show ?thesis by linarith
  qed (use eq in \<open>auto simp: to_lower_def\<close>)
  moreover have "\<not> (65 \<le> (of_char d :: nat) \<and> (of_char d :: nat) \<le> 90)"
  proof
    assume "65 \<le> (of_char d :: nat) \<and> (of_char d :: nat) \<le> 90"
    with \<open>c = d\<close> eq of_char_to_lower [of c] show False by simp
  qed
  ultimately show "c = d \<and> \<not> (65 \<le> (of_char d :: nat) \<and> (of_char d :: nat) \<le> 90)" ..
qed (auto simp: to_lower_def)

section \<open>Decimal numbers\<close>

definition digit_char :: "nat \<Rightarrow> char" where
  "digit_char d = char_of (48 + d)"

definition is_digit :: "char \<Rightarrow> bool" where
  "is_digit c \<longleftrightarrow> 48 \<le> (of_char c :: nat) \<and> (of_char c :: nat) \<le> 57"

definition digit_value :: "char \<Rightarrow> nat" where
  "digit_value c = of_char c - 48"

fun to_string :: "nat \<Rightarrow> string" where
  "to_string n = (if n < 10 then [digit_char n] else to_string (n div 10) @ [digit_char (n mod 10)])"

declare to_string.simps [simp del]

definition dec_value :: "nat \<Rightarrow> string \<Rightarrow> nat" where
  "dec_value acc s = foldl (\<lambda>a c. a * 10 + digit_value c) acc s"

lemma is_digit_digit_char [simp]: "d < 10 \<Longrightarrow> is_digit (digit_char d)"
  by (simp add: is_digit_def digit_char_def of_char_of)

lemma digit_value_digit_char [simp]: "d < 10 \<Longrightarrow> digit_value (digit_char d) = d"
  by (simp add: digit_value_def digit_char_def of_char_of)

lemma to_string_digits: "c \<in> set (to_string n) \<Longrightarrow> is_digit c"
  by (induction n rule: to_string.induct) (subst (asm) to_string.simps, auto split: if_splits)

lemma to_string_nonempty [simp]: "to_string n \<noteq> []"
  by (subst to_string.simps) simp

lemma dec_value_append: "dec_value acc (s @ t) = dec_value (dec_value acc s) t"
  by (simp add: dec_value_def)

lemma dec_value_to_string [simp]: "dec_value 0 (to_string n) = n"
proof (induction n rule: to_string.induct)
  case (1 n)
  show ?case
  proof (cases "n < 10")
    case True
    then show ?thesis by (subst to_string.simps) (simp add: dec_value_def)
  next
    case False
    then have "dec_value 0 (to_string (n div 10)) = n div 10" using "1.IH" by simp
    with False show ?thesis
      by (subst to_string.simps) (simp add: dec_value_append, simp add: dec_value_def)
  qed
qed

lemma to_string_inject [simp]: "to_string m = to_string n \<longleftrightarrow> m = n"
  by (metis dec_value_to_string)

text \<open>
  \<open>std::stoi\<close>: leading white space, an optional sign and at least one digit; the value has to fit
  an \<open>int\<close>. What follows the digits is ignored.
\<close>

definition is_space :: "char \<Rightarrow> bool" where
  "is_space c \<longleftrightarrow> (of_char c :: nat) = 32 \<or> 9 \<le> (of_char c :: nat) \<and> (of_char c :: nat) \<le> 13"

definition stoi :: "string \<Rightarrow> int res" where
  "stoi s =
     (let t = dropWhile is_space s;
          neg = (t \<noteq> [] \<and> hd t = CHR ''-'');
          u = (if t \<noteq> [] \<and> (hd t = CHR ''-'' \<or> hd t = CHR ''+'') then tl t else t);
          ds = takeWhile is_digit u;
          v = (if neg then - int (dec_value 0 ds) else int (dec_value 0 ds))
      in if ds = [] then Inl InvalidArgument
         else if v < - (2 ^ 31) \<or> 2 ^ 31 \<le> v then Inl OutOfRange
         else Inr v)"

lemma is_digit_not_space: "is_digit c \<Longrightarrow> \<not> is_space c"
  by (auto simp: is_digit_def is_space_def)

lemma is_digit_not_sign: "is_digit c \<Longrightarrow> c \<noteq> CHR ''-'' \<and> c \<noteq> CHR ''+''"
  by (auto simp: is_digit_def)

lemma stoi_to_string:
  assumes "n < 2 ^ 31"
  shows "stoi (to_string n) = Inr (int n)"
proof -
  obtain c cs where cs: "to_string n = c # cs"
    by (cases "to_string n") auto
  then have c: "is_digit c" using to_string_digits [of c n] by simp
  have all: "takeWhile is_digit cs = cs"
    using to_string_digits [of _ n] by (simp add: takeWhile_eq_all_conv cs)
  have "dec_value 0 (c # cs) = n"
    using dec_value_to_string [of n] by (simp add: cs)
  then show ?thesis
    using assms c is_digit_not_sign [OF c]
    by (simp add: stoi_def cs is_digit_not_space all Let_def)
qed

section \<open>Lines of a file\<close>

text \<open>
  The lines \<open>while (std::getline(file, line))\<close> delivers: the newline is not part of the line, and a
  file that ends in a newline has no empty last line.
\<close>

function getlines :: "string \<Rightarrow> string list" where
  "getlines [] = []"
| "getlines (c # s) =
     takeWhile (\<lambda>x. x \<noteq> newline) (c # s) # getlines (tl (dropWhile (\<lambda>x. x \<noteq> newline) (c # s)))"
  by pat_completeness auto
termination
proof (relation "measure length")
  fix c s
  have "length (tl (dropWhile (\<lambda>x. x \<noteq> newline) (c # s))) \<le> length s"
    using length_dropWhile_le [of "\<lambda>x. x \<noteq> newline" "c # s"] by (simp del: dropWhile.simps)
  then show "(tl (dropWhile (\<lambda>x. x \<noteq> newline) (c # s)), c # s) \<in> measure length"
    by (simp del: dropWhile.simps)
qed simp

lemma break_at_newline:
  assumes "newline \<notin> set l"
  shows "takeWhile (\<lambda>x. x \<noteq> newline) (l @ newline # rest) = l"
    and "dropWhile (\<lambda>x. x \<noteq> newline) (l @ newline # rest) = newline # rest"
  using assms by (induction l) auto

lemma getlines_line:
  assumes "newline \<notin> set l"
  shows "getlines (l @ newline # rest) = l # getlines rest"
proof -
  obtain c s where cs: "l @ newline # rest = c # s"
    by (cases "l @ newline # rest") auto
  show ?thesis
    unfolding cs getlines.simps(2) by (simp only: cs [symmetric] break_at_newline [OF assms]) simp
qed

definition put_line :: "string \<Rightarrow> string" where
  "put_line l = l @ [newline]"

lemma getlines_put_lines:
  assumes "\<And>l. l \<in> set ls \<Longrightarrow> newline \<notin> set l"
  shows "getlines (concat (map put_line ls) @ rest) = ls @ getlines rest"
  using assms by (induction ls) (simp_all add: put_line_def getlines_line)

end
