(* ===== verification/App_Types.thy ===== *)
theory App_Types
  imports Dpi_Text
begin

text \<open>
  Applications and the domain matching behind them: \<open>AppType\<close> of \<open>include/types.h\<close> and
  \<open>appTypeToString\<close>, \<open>normalizeDomain\<close>, \<open>isDomainOrSubdomain\<close>, \<open>sniToAppType\<close> of
  \<open>src/types.cpp\<close>.
\<close>

datatype AppType =
    UNKNOWN | HTTP | HTTPS | DNS | TLS | QUIC
  | GOOGLE | FACEBOOK | YOUTUBE | TWITTER | INSTAGRAM | NETFLIX | AMAZON | MICROSOFT | APPLE
  | WHATSAPP | TELEGRAM | TIKTOK | SPOTIFY | ZOOM | DISCORD | GITHUB | CLOUDFLARE
  | APP_COUNT

text \<open>The values \<open>static_cast<AppType>(i)\<close> for \<open>i\<close> from 0 below \<open>APP_COUNT\<close>, in order.\<close>

definition all_apps :: "AppType list" where
  "all_apps =
     [UNKNOWN, HTTP, HTTPS, DNS, TLS, QUIC,
      GOOGLE, FACEBOOK, YOUTUBE, TWITTER, INSTAGRAM, NETFLIX, AMAZON, MICROSOFT, APPLE,
      WHATSAPP, TELEGRAM, TIKTOK, SPOTIFY, ZOOM, DISCORD, GITHUB, CLOUDFLARE]"

fun appTypeToString :: "AppType \<Rightarrow> string" where
  "appTypeToString UNKNOWN = ''Unknown''"
| "appTypeToString HTTP = ''HTTP''"
| "appTypeToString HTTPS = ''HTTPS''"
| "appTypeToString DNS = ''DNS''"
| "appTypeToString TLS = ''TLS''"
| "appTypeToString QUIC = ''QUIC''"
| "appTypeToString GOOGLE = ''Google''"
| "appTypeToString FACEBOOK = ''Facebook''"
| "appTypeToString YOUTUBE = ''YouTube''"
| "appTypeToString TWITTER = ''Twitter/X''"
| "appTypeToString INSTAGRAM = ''Instagram''"
| "appTypeToString NETFLIX = ''Netflix''"
| "appTypeToString AMAZON = ''Amazon''"
| "appTypeToString MICROSOFT = ''Microsoft''"
| "appTypeToString APPLE = ''Apple''"
| "appTypeToString WHATSAPP = ''WhatsApp''"
| "appTypeToString TELEGRAM = ''Telegram''"
| "appTypeToString TIKTOK = ''TikTok''"
| "appTypeToString SPOTIFY = ''Spotify''"
| "appTypeToString ZOOM = ''Zoom''"
| "appTypeToString DISCORD = ''Discord''"
| "appTypeToString GITHUB = ''GitHub''"
| "appTypeToString CLOUDFLARE = ''Cloudflare''"
| "appTypeToString APP_COUNT = ''Unknown''"

text \<open>The search by name over the enumerators, as \<open>loadRules\<close> and \<open>DPIEngine::blockApp\<close> write it.\<close>

definition app_by_name :: "string \<Rightarrow> AppType option" where
  "app_by_name name = find (\<lambda>a. appTypeToString a = name) all_apps"

lemma set_all_apps: "set all_apps = UNIV - {APP_COUNT}"
  unfolding all_apps_def
proof (intro equalityI subsetI)
  fix a assume "a \<in> UNIV - {APP_COUNT}"
  then show "a \<in> set [UNKNOWN, HTTP, HTTPS, DNS, TLS, QUIC,
      GOOGLE, FACEBOOK, YOUTUBE, TWITTER, INSTAGRAM, NETFLIX, AMAZON, MICROSOFT, APPLE,
      WHATSAPP, TELEGRAM, TIKTOK, SPOTIFY, ZOOM, DISCORD, GITHUB, CLOUDFLARE]"
    by (cases a) simp_all
qed auto

lemma app_by_name_appTypeToString:
  "a \<noteq> APP_COUNT \<Longrightarrow> app_by_name (appTypeToString a) = Some a"
  by (cases a) (simp_all add: app_by_name_def all_apps_def)

lemma appTypeToString_plain:
  "newline \<notin> set (appTypeToString a) \<and> appTypeToString a \<noteq> [] \<and> hd (appTypeToString a) \<noteq> CHR ''[''"
  by (cases a) (simp_all add: newline_def)

section \<open>Domain names\<close>

definition normalizeDomain :: "string \<Rightarrow> string" where
  "normalizeDomain s =
     (if s = [] then []
      else let out = map to_lower s
           in if out \<noteq> [] \<and> last out = CHR ''.'' then butlast out else out)"

definition isDomainOrSubdomain :: "string \<Rightarrow> string \<Rightarrow> bool" where
  "isDomainOrSubdomain host apex =
     (if host = [] \<or> apex = [] then False
      else if host = apex then True
      else if length host \<le> length apex then False
      else let dot_pos = length host - length apex - 1
           in host ! dot_pos = CHR ''.'' \<and>
              take (length apex) (drop (dot_pos + 1) host) = apex)"

lemma suffix_at_dot_iff:
  assumes "length apex < length host"
  shows "host ! (length host - length apex - 1) = c \<and>
           take (length apex) (drop (length host - length apex - 1 + 1) host) = apex \<longleftrightarrow>
         (\<exists>p. host = p @ c # apex)"
proof -
  let ?d = "length host - length apex - 1"
  have d: "?d < length host" "Suc ?d + length apex = length host" using assms by auto
  have "host = take ?d host @ host ! ?d # drop (Suc ?d) host"
    using d by (simp add: id_take_nth_drop)
  moreover have "take (length apex) (drop (Suc ?d) host) = drop (Suc ?d) host"
    using d by simp
  moreover have "\<exists>p. host = p @ c # apex \<Longrightarrow> host ! ?d = c \<and> drop (Suc ?d) host = apex"
    by auto
  ultimately show ?thesis by (metis Suc_eq_plus1)
qed

lemma isDomainOrSubdomain_iff:
  "isDomainOrSubdomain host apex \<longleftrightarrow>
     apex \<noteq> [] \<and> (host = apex \<or> (\<exists>p. host = p @ CHR ''.'' # apex))"
proof (cases "length apex < length host")
  case True
  then show ?thesis
    using suffix_at_dot_iff [OF True, of "CHR ''.''"]
    by (auto simp: isDomainOrSubdomain_def Let_def)
qed (auto simp: isDomainOrSubdomain_def)

text \<open>Two domains above the same host are comparable.\<close>

lemma dot_split: "h = p @ c # a \<Longrightarrow> \<exists>q. h = q @ a \<and> (q = [] \<or> last q = c)"
  by (rule exI [of _ "p @ [c]"]) simp

lemma apexes_comparable:
  assumes "isDomainOrSubdomain h a" "isDomainOrSubdomain h b" "length a \<le> length b"
  shows "isDomainOrSubdomain b a"
proof -
  have ne: "a \<noteq> []" "b \<noteq> []" using assms(1,2) by (auto simp: isDomainOrSubdomain_iff)
  obtain p where p: "h = p @ a" "p = [] \<or> last p = CHR ''.''"
    using assms(1) by (auto simp: isDomainOrSubdomain_iff dest: dot_split)
  obtain q where q: "h = q @ b"
    using assms(2) by (auto simp: isDomainOrSubdomain_iff dest: dot_split)
  obtain r where r: "b = r @ a" "p = q @ r"
    using p(1) q assms(3) by (auto simp: append_eq_append_conv2)
  show ?thesis
  proof (cases "r = []")
    case True
    then show ?thesis using r ne by (simp add: isDomainOrSubdomain_iff)
  next
    case False
    then have "last r = CHR ''.''" using p(2) r(2) by auto
    then have "r = butlast r @ [CHR ''.'']" using False by (metis append_butlast_last_id)
    then have "b = butlast r @ CHR ''.'' # a" using r(1) by (metis append.assoc append_Cons append_Nil)
    then show ?thesis using ne by (auto simp: isDomainOrSubdomain_iff)
  qed
qed

section \<open>Classification by domain\<close>

definition sniToAppType :: "string \<Rightarrow> AppType" where
  "sniToAppType sni =
    (if sni = [] then UNKNOWN else
     let h = normalizeDomain sni in
     if h = [] then UNKNOWN else
     if isDomainOrSubdomain h ''youtube.com'' \<or>
        isDomainOrSubdomain h ''ytimg.com'' \<or>
        isDomainOrSubdomain h ''youtu.be'' \<or>
        isDomainOrSubdomain h ''yt3.ggpht.com'' then YOUTUBE else
     if isDomainOrSubdomain h ''instagram.com'' \<or>
        isDomainOrSubdomain h ''cdninstagram.com'' then INSTAGRAM else
     if isDomainOrSubdomain h ''whatsapp.com'' \<or>
        isDomainOrSubdomain h ''whatsapp.net'' \<or>
        isDomainOrSubdomain h ''wa.me'' then WHATSAPP else
     if isDomainOrSubdomain h ''facebook.com'' \<or>
        isDomainOrSubdomain h ''fbcdn.net'' \<or>
        isDomainOrSubdomain h ''fb.com'' \<or>
        isDomainOrSubdomain h ''fbsbx.com'' \<or>
        isDomainOrSubdomain h ''meta.com'' then FACEBOOK else
     if isDomainOrSubdomain h ''google.com'' \<or>
        isDomainOrSubdomain h ''googleapis.com'' \<or>
        isDomainOrSubdomain h ''gstatic.com'' \<or>
        isDomainOrSubdomain h ''ggpht.com'' \<or>
        isDomainOrSubdomain h ''gvt1.com'' \<or>
        isDomainOrSubdomain h ''googleusercontent.com'' then GOOGLE else
     if isDomainOrSubdomain h ''twitter.com'' \<or>
        isDomainOrSubdomain h ''twimg.com'' \<or>
        isDomainOrSubdomain h ''x.com'' \<or>
        isDomainOrSubdomain h ''t.co'' then TWITTER else
     if isDomainOrSubdomain h ''netflix.com'' \<or>
        isDomainOrSubdomain h ''nflxvideo.net'' \<or>
        isDomainOrSubdomain h ''nflximg.net'' then NETFLIX else
     if isDomainOrSubdomain h ''amazon.com'' \<or>
        isDomainOrSubdomain h ''amazon.co.uk'' \<or>
        isDomainOrSubdomain h ''amazon.de'' \<or>
        isDomainOrSubdomain h ''amazonaws.com'' \<or>
        isDomainOrSubdomain h ''cloudfront.net'' \<or>
        isDomainOrSubdomain h ''aws.amazon.com'' then AMAZON else
     if isDomainOrSubdomain h ''microsoft.com'' \<or>
        isDomainOrSubdomain h ''msn.com'' \<or>
        isDomainOrSubdomain h ''live.com'' \<or>
        isDomainOrSubdomain h ''outlook.com'' \<or>
        isDomainOrSubdomain h ''office.com'' \<or>
        isDomainOrSubdomain h ''office365.com'' \<or>
        isDomainOrSubdomain h ''azure.com'' \<or>
        isDomainOrSubdomain h ''bing.com'' \<or>
        isDomainOrSubdomain h ''windows.com'' \<or>
        isDomainOrSubdomain h ''microsoftonline.com'' then MICROSOFT else
     if isDomainOrSubdomain h ''apple.com'' \<or>
        isDomainOrSubdomain h ''icloud.com'' \<or>
        isDomainOrSubdomain h ''mzstatic.com'' \<or>
        isDomainOrSubdomain h ''itunes.apple.com'' then APPLE else
     if isDomainOrSubdomain h ''telegram.org'' \<or>
        isDomainOrSubdomain h ''telegram.me'' \<or>
        isDomainOrSubdomain h ''t.me'' then TELEGRAM else
     if isDomainOrSubdomain h ''tiktok.com'' \<or>
        isDomainOrSubdomain h ''tiktokcdn.com'' \<or>
        isDomainOrSubdomain h ''musical.ly'' \<or>
        isDomainOrSubdomain h ''bytedance.com'' then TIKTOK else
     if isDomainOrSubdomain h ''spotify.com'' \<or>
        isDomainOrSubdomain h ''scdn.co'' then SPOTIFY else
     if isDomainOrSubdomain h ''zoom.us'' \<or>
        isDomainOrSubdomain h ''zoom.com'' \<or>
        isDomainOrSubdomain h ''zoomgov.com'' then ZOOM else
     if isDomainOrSubdomain h ''discord.com'' \<or>
        isDomainOrSubdomain h ''discord.gg'' \<or>
        isDomainOrSubdomain h ''discordapp.com'' then DISCORD else
     if isDomainOrSubdomain h ''github.com'' \<or>
        isDomainOrSubdomain h ''githubusercontent.com'' \<or>
        isDomainOrSubdomain h ''github.io'' then GITHUB else
     if isDomainOrSubdomain h ''cloudflare.com'' \<or>
        isDomainOrSubdomain h ''cloudflare.net'' \<or>
        isDomainOrSubdomain h ''1.1.1.1'' \<or>
        isDomainOrSubdomain h ''workers.dev'' \<or>
        isDomainOrSubdomain h ''pages.dev'' then CLOUDFLARE else
     HTTPS)"

text \<open>The same rules as one list of apex domains in the order of the tests.\<close>

definition app_rules :: "(AppType \<times> string) list" where
  "app_rules =
     [(YOUTUBE, ''youtube.com''), (YOUTUBE, ''ytimg.com''), (YOUTUBE, ''youtu.be''),
      (YOUTUBE, ''yt3.ggpht.com''), (INSTAGRAM, ''instagram.com''),
      (INSTAGRAM, ''cdninstagram.com''), (WHATSAPP, ''whatsapp.com''),
      (WHATSAPP, ''whatsapp.net''), (WHATSAPP, ''wa.me''), (FACEBOOK, ''facebook.com''),
      (FACEBOOK, ''fbcdn.net''), (FACEBOOK, ''fb.com''), (FACEBOOK, ''fbsbx.com''),
      (FACEBOOK, ''meta.com''), (GOOGLE, ''google.com''), (GOOGLE, ''googleapis.com''),
      (GOOGLE, ''gstatic.com''), (GOOGLE, ''ggpht.com''), (GOOGLE, ''gvt1.com''),
      (GOOGLE, ''googleusercontent.com''), (TWITTER, ''twitter.com''),
      (TWITTER, ''twimg.com''), (TWITTER, ''x.com''), (TWITTER, ''t.co''),
      (NETFLIX, ''netflix.com''), (NETFLIX, ''nflxvideo.net''), (NETFLIX, ''nflximg.net''),
      (AMAZON, ''amazon.com''), (AMAZON, ''amazon.co.uk''), (AMAZON, ''amazon.de''),
      (AMAZON, ''amazonaws.com''), (AMAZON, ''cloudfront.net''),
      (AMAZON, ''aws.amazon.com''), (MICROSOFT, ''microsoft.com''), (MICROSOFT, ''msn.com''),
      (MICROSOFT, ''live.com''), (MICROSOFT, ''outlook.com''), (MICROSOFT, ''office.com''),
      (MICROSOFT, ''office365.com''), (MICROSOFT, ''azure.com''), (MICROSOFT, ''bing.com''),
      (MICROSOFT, ''windows.com''), (MICROSOFT, ''microsoftonline.com''),
      (APPLE, ''apple.com''), (APPLE, ''icloud.com''), (APPLE, ''mzstatic.com''),
      (APPLE, ''itunes.apple.com''), (TELEGRAM, ''telegram.org''),
      (TELEGRAM, ''telegram.me''), (TELEGRAM, ''t.me''), (TIKTOK, ''tiktok.com''),
      (TIKTOK, ''tiktokcdn.com''), (TIKTOK, ''musical.ly''), (TIKTOK, ''bytedance.com''),
      (SPOTIFY, ''spotify.com''), (SPOTIFY, ''scdn.co''), (ZOOM, ''zoom.us''),
      (ZOOM, ''zoom.com''), (ZOOM, ''zoomgov.com''), (DISCORD, ''discord.com''),
      (DISCORD, ''discord.gg''), (DISCORD, ''discordapp.com''), (GITHUB, ''github.com''),
      (GITHUB, ''githubusercontent.com''), (GITHUB, ''github.io''),
      (CLOUDFLARE, ''cloudflare.com''), (CLOUDFLARE, ''cloudflare.net''),
      (CLOUDFLARE, ''1.1.1.1''), (CLOUDFLARE, ''workers.dev''), (CLOUDFLARE, ''pages.dev'')]"

fun first_app :: "string \<Rightarrow> (AppType \<times> string) list \<Rightarrow> AppType" where
  "first_app h [] = HTTPS"
| "first_app h ((app, a) # rs) = (if isDomainOrSubdomain h a then app else first_app h rs)"

lemma if_disj: "(if a \<or> b then x else y) = (if a then x else if b then x else y)"
  by simp

lemma sniToAppType_first_app:
  assumes "normalizeDomain s \<noteq> []"
  shows "sniToAppType s = first_app (normalizeDomain s) app_rules"
proof -
  have "s \<noteq> []" using assms by (auto simp: normalizeDomain_def)
  show ?thesis
    unfolding sniToAppType_def Let_def app_rules_def first_app.simps if_disj
      if_not_P [OF \<open>s \<noteq> []\<close>] if_not_P [OF assms] by (rule refl)
qed

definition rules_compatible :: "(AppType \<times> string) list \<Rightarrow> bool" where
  "rules_compatible = sorted_wrt (\<lambda>(x, a) (y, b). x = y \<or>
     (\<not> isDomainOrSubdomain b a \<and> (isDomainOrSubdomain a b \<longrightarrow> b = ''ggpht.com'')))"

lemma rules_compatible_app_rules: "rules_compatible app_rules"
  by code_simp

lemma first_app_rule:
  assumes "rules_compatible rs" "(app, a) \<in> set rs" "isDomainOrSubdomain h a" "a \<noteq> ''ggpht.com''"
  shows "first_app h rs = app"
  using assms(1,2)
proof (induction rs)
  case (Cons r rs)
  obtain x b where r: "r = (x, b)" by (cases r)
  show ?case
  proof (cases "isDomainOrSubdomain h b \<and> (app, a) \<in> set rs")
    case True
    with Cons.prems(1) r have "x = app \<or> \<not> isDomainOrSubdomain a b \<and> \<not> isDomainOrSubdomain b a"
      using assms(4) by (fastforce simp: rules_compatible_def)
    moreover have "isDomainOrSubdomain a b \<or> isDomainOrSubdomain b a"
      using apexes_comparable assms(3) True nat_le_linear by blast
    ultimately show ?thesis using True r by auto
  next
    case False
    then show ?thesis using Cons r assms(3) by (auto simp: rules_compatible_def)
  qed
qed simp

lemma first_app_cases:
  "first_app h rs = HTTPS \<or>
     (\<exists>a. (first_app h rs, a) \<in> set rs \<and> isDomainOrSubdomain h a)"
proof (induction rs)
  case (Cons r rs)
  obtain x b where r: "r = (x, b)" by (cases r)
  show ?case
  proof (cases "isDomainOrSubdomain h b")
    case True
    then show ?thesis by (auto simp: r)
  next
    case False
    then show ?thesis using Cons.IH by (auto simp: r)
  qed
qed simp

end
