(* ===== verification/Net_Utils.thy ===== *)
theory Net_Utils
  imports Dpi_Text
begin

text \<open>
  Addresses and byte order: \<open>include/platform.h\<close> (byte swaps and \<open>netToHost\<close>),
  \<open>include/net_utils.h\<close> (IPv4 text) and \<open>include/ipv6_utils.h\<close> (IPv6 text). The byte order of the
  machine, which \<open>isLittleEndian\<close> detects at run time, is the parameter \<open>le\<close>.
\<close>

section \<open>Byte order\<close>

definition swapBytes16 :: "u16 \<Rightarrow> u16" where
  "swapBytes16 value = drop_bit 8 (value AND 0xFF00) OR push_bit 8 (value AND 0x00FF)"

definition swapBytes32 :: "u32 \<Rightarrow> u32" where
  "swapBytes32 value =
     drop_bit 24 (value AND 0xFF000000) OR
     drop_bit 8 (value AND 0x00FF0000) OR
     push_bit 8 (value AND 0x0000FF00) OR
     push_bit 24 (value AND 0x000000FF)"

definition netToHost16 :: "bool \<Rightarrow> u16 \<Rightarrow> u16" where
  "netToHost16 le netValue = (if le then swapBytes16 netValue else netValue)"

definition netToHost32 :: "bool \<Rightarrow> u32 \<Rightarrow> u32" where
  "netToHost32 le netValue = (if le then swapBytes32 netValue else netValue)"

definition hostToNet16 :: "bool \<Rightarrow> u16 \<Rightarrow> u16" where
  "hostToNet16 le hostValue = netToHost16 le hostValue"

definition hostToNet32 :: "bool \<Rightarrow> u32 \<Rightarrow> u32" where
  "hostToNet32 le hostValue = netToHost32 le hostValue"

text \<open>\<open>std::memcpy\<close> of two or four bytes into an integer, in the machine's byte order.\<close>

definition load16 :: "bool \<Rightarrow> u8 \<Rightarrow> u8 \<Rightarrow> u16" where
  "load16 le a b = (if le then be16 b a else be16 a b)"

definition load32 :: "bool \<Rightarrow> u8 \<Rightarrow> u8 \<Rightarrow> u8 \<Rightarrow> u8 \<Rightarrow> u32" where
  "load32 le a b c d = (if le then be32 d c b a else be32 a b c d)"

lemma byte_masks:
  "(0xFF00 :: u16) = push_bit 8 (mask 8)"
  "(0xFF :: u16) = mask 8"
  "(0xFF000000 :: u32) = push_bit 24 (mask 8)"
  "(0xFF0000 :: u32) = push_bit 16 (mask 8)"
  "(0xFF00 :: u32) = push_bit 8 (mask 8)"
  "(0xFF :: u32) = mask 8"
  by (simp_all add: mask_eq_exp_minus_1 push_bit_eq_mult)

lemma not_bit_u8: "8 \<le> n \<Longrightarrow> \<not> bit (a :: u8) n"
  using bit_imp_le_length [of a n] by auto

lemma swapBytes16_be16: "swapBytes16 (be16 a b) = be16 b a"
  unfolding swapBytes16_def be16_def byte_masks
  apply (rule bit_word_eqI)
  subgoal for n by (cases "n < 8") (auto simp: bit_simps not_bit_u8)
  done

lemma swapBytes32_be32: "swapBytes32 (be32 a b c d) = be32 d c b a"
  unfolding swapBytes32_def be32_def byte_masks
  apply (rule bit_word_eqI)
  subgoal for n
    by (cases "n < 8"; cases "n < 16"; cases "n < 24"; auto simp: bit_simps not_bit_u8)
  done

text \<open>Reading with \<open>memcpy\<close> and then \<open>ntohs\<close>/\<open>ntohl\<close> is big-endian on every machine.\<close>

lemma netToHost16_load16 [simp]: "netToHost16 le (load16 le a b) = be16 a b"
  by (simp add: netToHost16_def load16_def swapBytes16_be16)

lemma netToHost32_load32 [simp]: "netToHost32 le (load32 le a b c d) = be32 a b c d"
  by (simp add: netToHost32_def load32_def swapBytes32_be32)

lemma swapBytes32_involutive [simp]: "swapBytes32 (swapBytes32 v) = v"
  unfolding swapBytes32_def byte_masks
  apply (rule bit_word_eqI)
  subgoal for n
    by (cases "n < 8"; cases "n < 16"; cases "n < 24"; auto simp: bit_simps)
  done

lemma swapBytes16_involutive [simp]: "swapBytes16 (swapBytes16 v) = v"
  unfolding swapBytes16_def byte_masks
  apply (rule bit_word_eqI)
  subgoal for n by (cases "n < 8") (auto simp: bit_simps)
  done

section \<open>IPv4 addresses as text\<close>

text \<open>
  The loop of \<open>parseIPv4Address\<close>: \<open>octet\<close> is an \<open>int\<close> that only grows, so exceeding \<open>INT_MAX\<close> is
  signed overflow; \<open>shift\<close> reaching the width of \<open>uint32_t\<close> makes the shift undefined.
\<close>

fun parse_ipv4_loop :: "string \<Rightarrow> u32 \<Rightarrow> nat \<Rightarrow> nat \<Rightarrow> u32 res" where
  "parse_ipv4_loop [] result octet shift =
     (if 32 \<le> shift then Inl ShiftTooWide
      else Inr (result OR push_bit shift (of_nat octet)))"
| "parse_ipv4_loop (c # cs) result octet shift =
     (if c = CHR ''.'' then
        if 32 \<le> shift then Inl ShiftTooWide
        else parse_ipv4_loop cs (result OR push_bit shift (of_nat octet)) 0 (shift + 8)
      else if is_digit c then
        if 2 ^ 31 \<le> octet * 10 + digit_value c then Inl SignedOverflow
        else parse_ipv4_loop cs result (octet * 10 + digit_value c) shift
      else parse_ipv4_loop cs result octet shift)"

definition parseIPv4Address :: "string \<Rightarrow> u32 res" where
  "parseIPv4Address ip = parse_ipv4_loop ip 0 0 0"

definition ipv4ToString :: "u32 \<Rightarrow> string" where
  "ipv4ToString ip =
     to_string (unat (drop_bit 0 ip AND 0xFF)) @ ''.'' @
     to_string (unat (drop_bit 8 ip AND 0xFF)) @ ''.'' @
     to_string (unat (drop_bit 16 ip AND 0xFF)) @ ''.'' @
     to_string (unat (drop_bit 24 ip AND 0xFF))"

lemma dec_value_ge: "acc \<le> dec_value acc s"
  unfolding dec_value_def
proof (induction s arbitrary: acc)
  case (Cons c s)
  have "acc \<le> acc * 10 + digit_value c" by simp
  also have "\<dots> \<le> foldl (\<lambda>a c. a * 10 + digit_value c) (acc * 10 + digit_value c) s"
    by (rule Cons.IH)
  finally show ?case by simp
qed simp

lemma is_digit_not_dot: "is_digit c \<Longrightarrow> c \<noteq> CHR ''.''"
  by (auto simp: is_digit_def)

lemma parse_ipv4_loop_digits:
  assumes "\<And>c. c \<in> set ds \<Longrightarrow> is_digit c" "dec_value octet ds < 2 ^ 31"
  shows "parse_ipv4_loop (ds @ rest) result octet shift =
           parse_ipv4_loop rest result (dec_value octet ds) shift"
  using assms
proof (induction ds arbitrary: octet)
  case Nil
  then show ?case by (simp add: dec_value_def)
next
  case (Cons c ds)
  have eq: "dec_value octet (c # ds) = dec_value (octet * 10 + digit_value c) ds"
    by (simp add: dec_value_def)
  have c: "is_digit c" by (simp add: Cons.prems(1))
  have "octet * 10 + digit_value c < 2 ^ 31"
    using dec_value_ge [of "octet * 10 + digit_value c" ds] Cons.prems(2) by (simp add: eq)
  with c is_digit_not_dot [OF c] show ?case
    using Cons by (simp add: eq)
qed

lemma parse_ipv4_loop_number:
  "n < 256 \<Longrightarrow> parse_ipv4_loop (to_string n @ rest) result 0 shift =
     parse_ipv4_loop rest result n shift"
  by (subst parse_ipv4_loop_digits) (simp_all add: to_string_digits)

lemma unat_and_mask8: "unat (ip AND 0xFF :: u32) < 256"
proof -
  have "ip AND 0xFF = take_bit 8 ip"
    by (simp add: byte_masks take_bit_eq_mask)
  then show ?thesis by (simp only: unsigned_take_bit_eq) (simp add: take_bit_eq_mod)
qed

lemma octets_or:
  "drop_bit 0 ip AND 0xFF OR (push_bit 8 (drop_bit 8 ip AND 0xFF) OR
      (push_bit 16 (drop_bit 16 ip AND 0xFF) OR push_bit 24 (drop_bit 24 ip AND 0xFF))) = (ip :: u32)"
  unfolding byte_masks
  apply (rule bit_word_eqI)
  subgoal for n
    by (cases "n < 8"; cases "n < 16"; cases "n < 24"; auto simp: bit_simps)
  done

lemma parse_ipv4_loop_dot:
  "shift < 32 \<Longrightarrow> parse_ipv4_loop (CHR ''.'' # cs) result octet shift =
     parse_ipv4_loop cs (result OR push_bit shift (of_nat octet)) 0 (shift + 8)"
  by simp

lemma parse_ipv4ToString: "parseIPv4Address (ipv4ToString ip) = Inr ip"
proof -
  have "parse_ipv4_loop (to_string (unat (drop_bit 24 ip AND 0xFF))) result 0 shift =
      parse_ipv4_loop [] result (unat (drop_bit 24 ip AND 0xFF)) shift" for result shift
    using parse_ipv4_loop_number [OF unat_and_mask8, of "drop_bit 24 ip" "[]"] by simp
  moreover have "parse_ipv4_loop (to_string (unat (drop_bit k ip AND 0xFF)) @ rest) result 0 shift =
      parse_ipv4_loop rest result (unat (drop_bit k ip AND 0xFF)) shift" for k rest result shift
    by (rule parse_ipv4_loop_number [OF unat_and_mask8])
  ultimately show ?thesis
    unfolding parseIPv4Address_def ipv4ToString_def
    by (simp only: append_Cons append_Nil parse_ipv4_loop_dot parse_ipv4_loop.simps(1))
      (use octets_or [of ip] in \<open>simp add: or.assoc\<close>)
qed

section \<open>IPv6 addresses as text\<close>

text \<open>\<open>std::array<uint8_t, 16>\<close> is a list of bytes; \<open>wf_ipv6\<close> is its length.\<close>

type_synonym IPv6Address = bytes

definition wf_ipv6 :: "IPv6Address \<Rightarrow> bool" where
  "wf_ipv6 addr \<longleftrightarrow> length addr = 16"

definition ipv6_groups :: "IPv6Address \<Rightarrow> u16 list" where
  "ipv6_groups addr = map (\<lambda>i. be16 (addr ! (2 * i)) (addr ! (2 * i + 1))) [0..<8]"

text \<open>The search for the run of zero groups to compress; \<open>-1\<close> stands for none.\<close>

definition zero_run_step :: "bool list \<Rightarrow> int \<times> int \<times> int \<times> int \<Rightarrow> nat \<Rightarrow> int \<times> int \<times> int \<times> int" where
  "zero_run_step zs = (\<lambda>(best_start, best_len, cs, cl) i.
     if i < 8 \<and> zs ! i then
       if cs < 0 then (best_start, best_len, int i, 1) else (best_start, best_len, cs, cl + 1)
     else if 2 \<le> cl \<and> best_len < cl then (cs, cl, -1, 0)
     else (best_start, best_len, -1, 0))"

definition best_zero_run :: "bool list \<Rightarrow> int \<times> int" where
  "best_zero_run zs =
     (case foldl (zero_run_step zs) (-1, 0, -1, 0) [0..<9] of (s, l, _, _) \<Rightarrow> (s, l))"

definition hex_char :: "nat \<Rightarrow> char" where
  "hex_char d = (if d < 10 then char_of (48 + d) else char_of (87 + d))"

fun to_hex :: "nat \<Rightarrow> string" where
  "to_hex n = (if n < 16 then [hex_char n] else to_hex (n div 16) @ [hex_char (n mod 16)])"

declare to_hex.simps [simp del]

text \<open>
  The output loop. It advances by the length of the run it compresses, so it is written with fuel:
  \<open>None\<close> is a loop that has not ended.
\<close>

fun ipv6_emit :: "nat \<Rightarrow> u16 list \<Rightarrow> int \<Rightarrow> int \<Rightarrow> nat \<Rightarrow> bool \<Rightarrow> string option" where
  "ipv6_emit 0 g best_start best_len i prev_collapsed = None"
| "ipv6_emit (Suc fuel) g best_start best_len i prev_collapsed =
     (if i < 8 then
        if int i = best_start then
          map_option (\<lambda>s. ''::'' @ s)
            (ipv6_emit fuel g best_start best_len (nat (int i + best_len)) True)
        else
          map_option (\<lambda>s. (if 0 < i \<and> \<not> prev_collapsed then '':'' else []) @ to_hex (unat (g ! i)) @ s)
            (ipv6_emit fuel g best_start best_len (i + 1) False)
      else Some [])"

definition ipv6ToString :: "IPv6Address \<Rightarrow> string option" where
  "ipv6ToString addr =
     (let g = ipv6_groups addr;
          (best_start, best_len) = best_zero_run (map (\<lambda>w. w = 0) g)
      in ipv6_emit 9 g best_start best_len 0 False)"

text \<open>
  What RFC 5952 asks of the run: none if no two adjacent groups are zero, otherwise the longest run
  and the leftmost of these. The eight groups have 256 patterns of zeros, all of which are evaluated.
\<close>

definition zero_run :: "bool list \<Rightarrow> int \<Rightarrow> int \<Rightarrow> bool" where
  "zero_run zs s l \<longleftrightarrow>
     0 \<le> s \<and> 2 \<le> l \<and> s + l \<le> 8 \<and> list_all (\<lambda>z. z) (take (nat l) (drop (nat s) zs))"

definition is_best_run :: "bool list \<Rightarrow> int \<times> int \<Rightarrow> bool" where
  "is_best_run zs = (\<lambda>(s, l).
     if s = -1 then l = 0 \<and> (\<forall>s' \<in> set [0..7]. \<forall>l' \<in> set [2..8]. \<not> zero_run zs s' l')
     else zero_run zs s l \<and>
       (\<forall>s' \<in> set [0..7]. \<forall>l' \<in> set [2..8]. zero_run zs s' l' \<longrightarrow> l' < l \<or> (l' = l \<and> s \<le> s')))"

lemma best_zero_run_patterns:
  "list_all (\<lambda>zs. is_best_run zs (best_zero_run zs)) (List.n_lists 8 [True, False])"
  by code_simp

lemma best_zero_run_is_best:
  assumes "length zs = 8"
  shows "is_best_run zs (best_zero_run zs)"
proof -
  have "zs \<in> set (List.n_lists 8 [True, False])"
    using assms by (auto simp: set_n_lists)
  then show ?thesis using best_zero_run_patterns by (simp add: list_all_iff del: set_n_lists)
qed

lemma best_zero_run_cases:
  assumes "length zs = 8" "best_zero_run zs = (s, l)"
  shows "s = -1 \<and> l = 0 \<or> 0 \<le> s \<and> 2 \<le> l \<and> s + l \<le> 8"
  using best_zero_run_is_best [OF assms(1)] assms(2)
  by (auto simp: is_best_run_def zero_run_def split: if_splits)

lemma ipv6_emit_returns:
  assumes "s < 0 \<or> 1 \<le> l" "8 - i < fuel"
  shows "\<exists>t. ipv6_emit fuel g s l i c = Some t"
  using assms(2)
proof (induction fuel arbitrary: i c)
  case (Suc fuel)
  have "i < 8 \<Longrightarrow> 8 - (i + 1) < fuel" "i < 8 \<Longrightarrow> int i = s \<Longrightarrow> 8 - nat (int i + l) < fuel"
    using Suc.prems assms(1) by auto
  then show ?case using Suc.IH by fastforce
qed simp

lemma ipv6ToString_Some: "\<exists>t. ipv6ToString addr = Some t"
proof -
  let ?zs = "map (\<lambda>w. w = 0) (ipv6_groups addr)"
  obtain s l where sl: "best_zero_run ?zs = (s, l)" by (cases "best_zero_run ?zs")
  have "length ?zs = 8" by (simp add: ipv6_groups_def)
  from best_zero_run_cases [OF this sl] show ?thesis
    using ipv6_emit_returns [of s l 0 9 "ipv6_groups addr" False]
    by (auto simp: ipv6ToString_def sl)
qed

end
