(* ===== verification/Pcap.thy ===== *)
theory Pcap
  imports Net_Utils
begin

text \<open>
  PCAP files: the reader of \<open>src/pcap_reader.cpp\<close> and the two write operations of
  \<open>src/dpi_engine.cpp\<close> (\<open>writeOutputHeader\<close>, \<open>writeOutputPacket\<close>). Structures are read from and
  written to the file as they lie in memory, so the byte order \<open>le\<close> of the machine matters.
\<close>

section \<open>Structures in memory\<close>

record PcapGlobalHeader =
  magic_number :: u32
  version_major :: u16
  version_minor :: u16
  thiszone :: u32
  sigfigs :: u32
  snaplen :: u32
  network :: u32

record PcapPacketHeader =
  ts_sec :: u32
  ts_usec :: u32
  incl_len :: u32
  orig_len :: u32

record RawPacket =
  rp_header :: PcapPacketHeader
  rp_data :: bytes

definition store16 :: "bool \<Rightarrow> u16 \<Rightarrow> bytes" where
  "store16 le w =
     (let bs = [ucast w, ucast (drop_bit 8 w)] in if le then bs else rev bs)"

definition store32 :: "bool \<Rightarrow> u32 \<Rightarrow> bytes" where
  "store32 le w =
     (let bs = [ucast w, ucast (drop_bit 8 w), ucast (drop_bit 16 w), ucast (drop_bit 24 w)]
      in if le then bs else rev bs)"

text \<open>\<open>memcpy\<close> from offset \<open>i\<close> of a buffer that is long enough.\<close>

definition load16_at :: "bool \<Rightarrow> bytes \<Rightarrow> nat \<Rightarrow> u16" where
  "load16_at le p i = load16 le (p ! i) (p ! (i + 1))"

definition load32_at :: "bool \<Rightarrow> bytes \<Rightarrow> nat \<Rightarrow> u32" where
  "load32_at le p i = load32 le (p ! i) (p ! (i + 1)) (p ! (i + 2)) (p ! (i + 3))"

definition load_global_header :: "bool \<Rightarrow> bytes \<Rightarrow> PcapGlobalHeader" where
  "load_global_header le p =
     \<lparr>magic_number = load32_at le p 0, version_major = load16_at le p 4,
      version_minor = load16_at le p 6, thiszone = load32_at le p 8, sigfigs = load32_at le p 12,
      snaplen = load32_at le p 16, network = load32_at le p 20\<rparr>"

definition load_packet_header :: "bool \<Rightarrow> bytes \<Rightarrow> PcapPacketHeader" where
  "load_packet_header le p =
     \<lparr>ts_sec = load32_at le p 0, ts_usec = load32_at le p 4,
      incl_len = load32_at le p 8, orig_len = load32_at le p 12\<rparr>"

definition store_global_header :: "bool \<Rightarrow> PcapGlobalHeader \<Rightarrow> bytes" where
  "store_global_header le h =
     store32 le (magic_number h) @ store16 le (version_major h) @ store16 le (version_minor h) @
     store32 le (thiszone h) @ store32 le (sigfigs h) @ store32 le (snaplen h) @
     store32 le (network h)"

definition store_packet_header :: "bool \<Rightarrow> PcapPacketHeader \<Rightarrow> bytes" where
  "store_packet_header le h =
     store32 le (ts_sec h) @ store32 le (ts_usec h) @ store32 le (incl_len h) @
     store32 le (orig_len h)"

section \<open>The reader\<close>

definition PCAP_MAGIC_NATIVE :: u32 where "PCAP_MAGIC_NATIVE = 0xa1b2c3d4"
definition PCAP_MAGIC_SWAPPED :: u32 where "PCAP_MAGIC_SWAPPED = 0xd4c3b2a1"

text \<open>
  The stream \<open>pr_file\<close> is \<open>None\<close> when closed, else the unread bytes and whether the fail bit is set.
  \<open>read\<close> delivers \<open>n\<close> bytes, or sets the fail bit and consumes what is left.
\<close>

record PcapReader =
  pr_file :: "(bytes \<times> bool) option"
  pr_global_header :: PcapGlobalHeader
  pr_needs_byte_swap :: bool

definition stream_read :: "nat \<Rightarrow> bytes \<times> bool \<Rightarrow> bytes option \<times> (bytes \<times> bool)" where
  "stream_read n = (\<lambda>(rest, failed).
     if failed then (None, (rest, True))
     else if length rest < n then (None, ([], True))
     else (Some (take n rest), (drop n rest, False)))"

definition maybeSwap16 :: "bool \<Rightarrow> u16 \<Rightarrow> u16" where
  "maybeSwap16 needs_swap value =
     (if \<not> needs_swap then value
      else drop_bit 8 (value AND 0xFF00) OR push_bit 8 (value AND 0x00FF))"

definition maybeSwap32 :: "bool \<Rightarrow> u32 \<Rightarrow> u32" where
  "maybeSwap32 needs_swap value =
     (if \<not> needs_swap then value
      else drop_bit 24 (value AND 0xFF000000) OR
           drop_bit 8 (value AND 0x00FF0000) OR
           push_bit 8 (value AND 0x0000FF00) OR
           push_bit 24 (value AND 0x000000FF))"

definition pcap_close :: "PcapReader \<Rightarrow> PcapReader" where
  "pcap_close r = r\<lparr>pr_file := None, pr_needs_byte_swap := False\<rparr>"

text \<open>A reader as it is constructed.\<close>

definition closed_reader :: PcapReader where
  "closed_reader = \<lparr>pr_file = None, pr_global_header = \<lparr>magic_number = 0, version_major = 0,
     version_minor = 0, thiszone = 0, sigfigs = 0, snaplen = 0, network = 0\<rparr>, pr_needs_byte_swap = False\<rparr>"

text \<open>
  \<open>open\<close> on a file with the given content, \<open>None\<close> for a file that cannot be opened. When the
  header is cut off the code leaves it half overwritten; the reader is closed and the model keeps
  the old one.
\<close>

definition pcap_open :: "bool \<Rightarrow> bytes option \<Rightarrow> PcapReader \<Rightarrow> bool \<times> PcapReader" where
  "pcap_open le content r0 =
     (let r = pcap_close r0 in
      case content of
        None \<Rightarrow> (False, r)
      | Some bs \<Rightarrow>
          (case stream_read 24 (bs, False) of
             (None, _) \<Rightarrow> (False, pcap_close r)
           | (Some hb, f) \<Rightarrow>
               let h = load_global_header le hb;
                   r = r\<lparr>pr_file := Some f, pr_global_header := h\<rparr>
               in if magic_number h = PCAP_MAGIC_NATIVE then
                    (True, r\<lparr>pr_needs_byte_swap := False\<rparr>)
                  else if magic_number h = PCAP_MAGIC_SWAPPED then
                    (True, r\<lparr>pr_needs_byte_swap := True,
                             pr_global_header := h
                               \<lparr>version_major := maybeSwap16 True (version_major h),
                                version_minor := maybeSwap16 True (version_minor h),
                                snaplen := maybeSwap32 True (snaplen h),
                                network := maybeSwap32 True (network h)\<rparr>\<rparr>)
                  else (False, pcap_close r)))"

definition readNextPacket :: "bool \<Rightarrow> PcapReader \<Rightarrow> RawPacket option \<times> PcapReader" where
  "readNextPacket le r =
     (case pr_file r of
        None \<Rightarrow> (None, r)
      | Some f \<Rightarrow>
          (case stream_read 16 f of
             (None, f') \<Rightarrow> (None, r\<lparr>pr_file := Some f'\<rparr>)
           | (Some hb, f') \<Rightarrow>
               let h0 = load_packet_header le hb;
                   h = (if pr_needs_byte_swap r then
                          \<lparr>ts_sec = maybeSwap32 True (ts_sec h0), ts_usec = maybeSwap32 True (ts_usec h0),
                           incl_len = maybeSwap32 True (incl_len h0),
                           orig_len = maybeSwap32 True (orig_len h0)\<rparr>
                        else h0)
               in if snaplen (pr_global_header r) < incl_len h \<or> 65535 < incl_len h then
                    (None, r\<lparr>pr_file := Some f'\<rparr>)
                  else
                    (case stream_read (unat (incl_len h)) f' of
                       (None, f'') \<Rightarrow> (None, r\<lparr>pr_file := Some f''\<rparr>)
                     | (Some d, f'') \<Rightarrow>
                         (Some \<lparr>rp_header = h, rp_data = d\<rparr>, r\<lparr>pr_file := Some f''\<rparr>))))"

text \<open>The number of bytes the stream can still deliver: the measure of every reading loop.\<close>

definition unread :: "PcapReader \<Rightarrow> nat" where
  "unread r = (case pr_file r of None \<Rightarrow> 0 | Some (rest, _) \<Rightarrow> length rest)"

lemma readNextPacket_unread:
  "readNextPacket le r = (Some p, r') \<Longrightarrow> unread r' + 16 + length (rp_data p) = unread r"
  by (auto simp: readNextPacket_def unread_def stream_read_def Let_def
      split: option.splits prod.splits if_splits)

lemma readNextPacket_frame:
  "readNextPacket le r = (q, r') \<Longrightarrow>
     pr_global_header r' = pr_global_header r \<and> pr_needs_byte_swap r' = pr_needs_byte_swap r"
  by (auto simp: readNextPacket_def Let_def split: option.splits prod.splits if_splits)

lemma readNextPacket_length:
  assumes "readNextPacket le r = (Some p, r')"
  shows "length (rp_data p) = unat (incl_len (rp_header p))"
    and "incl_len (rp_header p) \<le> snaplen (pr_global_header r)" and "incl_len (rp_header p) \<le> 65535"
  using assms
  by (auto simp: readNextPacket_def stream_read_def Let_def not_less
      split: option.splits prod.splits if_splits)

text \<open>The loop \<open>while (reader.readNextPacket(raw))\<close>: the packets it delivers, in order.\<close>

function read_packets :: "bool \<Rightarrow> PcapReader \<Rightarrow> RawPacket list" where
  "read_packets le r =
     (case readNextPacket le r of
        (None, _) \<Rightarrow> []
      | (Some p, r') \<Rightarrow> p # read_packets le r')"
  by pat_completeness auto
termination
  by (relation "measure (\<lambda>(le, r). unread r)") (auto dest: readNextPacket_unread [OF sym])

declare read_packets.simps [simp del]

lemma read_packets_fit:
  "p \<in> set (read_packets le r) \<Longrightarrow>
    length (rp_data p) \<le> unat (snaplen (pr_global_header r)) \<and> length (rp_data p) \<le> 65535"
proof (induction le r rule: read_packets.induct)
  case (1 le r)
  obtain q r' where n: "readNextPacket le r = (q, r')" by fastforce
  note frame = readNextPacket_frame [OF n]
  show ?case
  proof (cases q)
    case None
    then show ?thesis using 1(2) n by (simp add: read_packets.simps [of le r])
  next
    case (Some p')
    then have "p = p' \<or> p \<in> set (read_packets le r')"
      using 1(2) n by (simp add: read_packets.simps [of le r])
    moreover have "length (rp_data p') \<le> unat (snaplen (pr_global_header r)) \<and> length (rp_data p') \<le> 65535"
      using readNextPacket_length [of le r p' r'] n Some by (simp add: word_le_nat_alt)
    ultimately show ?thesis using 1(1) n Some frame by auto
  qed
qed

lemma native_magic:
  assumes "pcap_open le content r0 = (True, r)" and "\<not> pr_needs_byte_swap r"
  shows "magic_number (pr_global_header r) = PCAP_MAGIC_NATIVE"
  using assms by (auto simp: pcap_open_def Let_def split: option.splits prod.splits if_splits)

section \<open>The writer\<close>

definition output_packet_header :: "u32 \<Rightarrow> u32 \<Rightarrow> bytes \<Rightarrow> PcapPacketHeader" where
  "output_packet_header sec usec data =
     \<lparr>ts_sec = sec, ts_usec = usec, incl_len = of_nat (length data), orig_len = of_nat (length data)\<rparr>"

definition output_packet_bytes :: "bool \<Rightarrow> u32 \<Rightarrow> u32 \<Rightarrow> bytes \<Rightarrow> bytes" where
  "output_packet_bytes le sec usec data =
     store_packet_header le (output_packet_header sec usec data) @ data"

lemma length_store [simp]: "length (store16 le v) = 2" "length (store32 le w) = 4"
  by (simp_all add: store16_def store32_def Let_def)

lemma length_store_headers [simp]:
  "length (store_global_header le g) = 24" "length (store_packet_header le h) = 16"
  by (simp_all add: store_global_header_def store_packet_header_def)

lemma be16_bytes: "be16 (ucast (drop_bit 8 w)) (ucast w) = (w :: u16)"
  unfolding be16_def
  apply (rule bit_word_eqI)
  subgoal for n by (cases "n < 8") (auto simp: bit_simps)
  done

lemma be32_bytes:
  "be32 (ucast (drop_bit 24 w)) (ucast (drop_bit 16 w)) (ucast (drop_bit 8 w)) (ucast w) = (w :: u32)"
  unfolding be32_def
  apply (rule bit_word_eqI)
  subgoal for n
    by (cases "n < 8"; cases "n < 16"; cases "n < 24"; auto simp: bit_simps)
  done

lemma load32_at_store32 [simp]:
  "load32_at le (store32 le w @ rest) 0 = w"
  by (cases le) (simp_all add: load32_at_def store32_def load32_def Let_def be32_bytes)

lemma load16_at_store16 [simp]:
  "load16_at le (store16 le w @ rest) 0 = w"
  by (cases le) (simp_all add: load16_at_def store16_def load16_def Let_def be16_bytes)

lemma load32_at_append: "length p \<le> i \<Longrightarrow> load32_at le (p @ q) i = load32_at le q (i - length p)"
  by (simp add: load32_at_def nth_append Suc_diff_le)

lemma load16_at_append: "length p \<le> i \<Longrightarrow> load16_at le (p @ q) i = load16_at le q (i - length p)"
  by (simp add: load16_at_def nth_append Suc_diff_le)

lemma load_store_packet_header: "load_packet_header le (store_packet_header le h) = h"
  using load32_at_store32 [of le "orig_len h" "[]"]
  by (simp add: load_packet_header_def store_packet_header_def load32_at_append)

lemma load_store_global_header: "load_global_header le (store_global_header le g) = g"
  using load32_at_store32 [of le "network g" "[]"]
  by (simp add: load_global_header_def store_global_header_def load32_at_append load16_at_append)

section \<open>Captures written and read back\<close>

text \<open>A packet of the output file: its two timestamps and its bytes.\<close>

type_synonym stamped = "u32 \<times> u32 \<times> bytes"

fun raw_of :: "stamped \<Rightarrow> RawPacket" where
  "raw_of (sec, usec, data) = \<lparr>rp_header = output_packet_header sec usec data, rp_data = data\<rparr>"

definition output_body :: "bool \<Rightarrow> stamped list \<Rightarrow> bytes" where
  "output_body le pkts = concat (map (\<lambda>(sec, usec, data). output_packet_bytes le sec usec data) pkts)"

definition fits :: "u32 \<Rightarrow> stamped \<Rightarrow> bool" where
  "fits snap = (\<lambda>(sec, usec, data). length data \<le> unat snap \<and> length data \<le> 65535)"

lemma stream_read_append [simp]:
  "length p = n \<Longrightarrow> stream_read n (p @ q, False) = (Some p, (q, False))"
  by (simp add: stream_read_def)

lemma incl_len_small:
  "length data \<le> 65535 \<Longrightarrow> unat (of_nat (length data) :: u32) = length data"
  by (simp add: unsigned_of_nat take_bit_nat_eq_self)

lemma readNextPacket_output:
  assumes "fits (snaplen (pr_global_header r)) (sec, usec, data)" and "\<not> pr_needs_byte_swap r"
    and "pr_file r = Some (output_packet_bytes le sec usec data @ rest, False)"
  shows "readNextPacket le r = (Some (raw_of (sec, usec, data)), r\<lparr>pr_file := Some (rest, False)\<rparr>)"
proof -
  have "(of_nat (length data) :: u32) \<le> snaplen (pr_global_header r)"
    "(of_nat (length data) :: u32) \<le> 65535" "unat (of_nat (length data) :: u32) = length data"
    using assms(1) by (auto simp: fits_def word_le_nat_alt incl_len_small)
  then show ?thesis
    using assms(2,3)
    by (simp add: readNextPacket_def output_packet_bytes_def load_store_packet_header Let_def not_less
        output_packet_header_def del: unsigned_of_nat)
qed

lemma read_packets_output:
  assumes "\<forall>p \<in> set pkts. fits (snaplen (pr_global_header r)) p" and "\<not> pr_needs_byte_swap r"
    and "pr_file r = Some (output_body le pkts, False)"
  shows "read_packets le r = map raw_of pkts"
  using assms
proof (induction pkts arbitrary: r)
  case Nil
  then show ?case
    by (subst read_packets.simps) (simp add: readNextPacket_def output_body_def stream_read_def)
next
  case (Cons p pkts)
  obtain sec usec data where p: "p = (sec, usec, data)" by (cases p)
  have "readNextPacket le r =
      (Some (raw_of p), r\<lparr>pr_file := Some (output_body le pkts, False)\<rparr>)"
    unfolding p by (rule readNextPacket_output) (use Cons.prems in \<open>auto simp: output_body_def p\<close>)
  then show ?case
    by (subst read_packets.simps) (use Cons.IH Cons.prems in simp)
qed

lemma capture_read_back:
  assumes "magic_number g = PCAP_MAGIC_NATIVE" and "\<forall>p \<in> set pkts. fits (snaplen g) p"
  shows "\<exists>r. pcap_open le (Some (store_global_header le g @ output_body le pkts)) r0 = (True, r) \<and>
    pr_global_header r = g \<and> read_packets le r = map raw_of pkts"
proof -
  have "pcap_open le (Some (store_global_header le g @ output_body le pkts)) r0 =
      (True, \<lparr>pr_file = Some (output_body le pkts, False), pr_global_header = g, pr_needs_byte_swap = False\<rparr>)"
    using assms(1)
    by (simp add: pcap_open_def pcap_close_def Let_def load_store_global_header)
  moreover have "read_packets le \<lparr>pr_file = Some (output_body le pkts, False), pr_global_header = g,
      pr_needs_byte_swap = False\<rparr> = map raw_of pkts"
    by (rule read_packets_output) (use assms(2) in simp_all)
  ultimately show ?thesis by simp
qed

text \<open>
  C40. The output file is a capture: a file that consists of the global header of a native capture and
  packets as \<open>writeOutputPacket\<close> writes them, each within the snapshot length, opens, and the reading
  loop delivers exactly these packets, in order, with their timestamps and lengths, on machines of
  either byte order.
\<close>

theorem pcap_roundtrip:
  assumes "magic_number g = PCAP_MAGIC_NATIVE" and "\<forall>p \<in> set pkts. fits (snaplen g) p"
  shows "\<exists>r. pcap_open le (Some (store_global_header le g @ output_body le pkts)) r0 = (True, r) \<and>
    pr_global_header r = g \<and> read_packets le r = map raw_of pkts"
  using assms by (rule capture_read_back)

definition sample_header :: PcapGlobalHeader where
  "sample_header = \<lparr>magic_number = 0xa1b2c3d4, version_major = 2, version_minor = 4, thiszone = 0,
     sigfigs = 0, snaplen = 65535, network = 1\<rparr>"

theorem pcap_roundtrip_witness:
  "\<exists>r. pcap_open True (Some (store_global_header True sample_header @
           output_body True [(7, 9, [1, 2, 3]), (8, 0, [])]))
         \<lparr>pr_file = None, pr_global_header = sample_header, pr_needs_byte_swap = True\<rparr> = (True, r) \<and>
       pr_global_header r = sample_header \<and>
       read_packets True r = map raw_of [(7, 9, [1, 2, 3]), (8, 0, [])]"
  by (rule pcap_roundtrip)
    (simp_all add: sample_header_def PCAP_MAGIC_NATIVE_def fits_def)

text \<open>
  A capture of the other byte order: the reader swaps four fields of the global header and keeps the
  swapped magic number, and the engine writes this header in front of native packet headers.
\<close>

lemma maybeSwap32_swapBytes32 [simp]: "maybeSwap32 True v = swapBytes32 v"
  by (simp add: maybeSwap32_def swapBytes32_def)

lemma swapBytes32_large:
  assumes "v \<le> 65535" and "v \<noteq> 0"
  shows "65535 < swapBytes32 v"
proof -
  have hi: "(ucast (drop_bit 24 v) :: u8) = 0" "(ucast (drop_bit 16 v) :: u8) = 0"
  proof -
    have "drop_bit 24 v = 0" "drop_bit 16 v = 0"
      using assms(1)
      by (simp_all add: word_le_nat_alt word_unat_eq_iff unat_drop_bit_eq drop_bit_nat_def)
    then show "(ucast (drop_bit 24 v) :: u8) = 0" "(ucast (drop_bit 16 v) :: u8) = 0" by simp_all
  qed
  define c d :: u8 where "c = ucast (drop_bit 8 v)" and "d = ucast v"
  have v: "v = be32 0 0 c d" using be32_bytes [of v] hi by (simp add: c_def d_def)
  have "unat v = unat c * 256 + unat d" unfolding v by (simp add: byte_order)
  with assms(2) have "c \<noteq> 0 \<or> d \<noteq> 0" unfolding v by (auto simp: be32_def)
  then have "0 < unat c \<or> 0 < unat d" by (metis unat_0_iff gr0I)
  moreover have "swapBytes32 v = be32 d c 0 0" unfolding v by (rule swapBytes32_be32)
  ultimately show ?thesis by (auto simp: word_less_nat_alt byte_order)
qed

text \<open>
  The engine's output for a byte-swapped capture cannot be read back: when the reader has opened a
  swapped capture and the output starts with its global header, as \<open>writeOutputHeader\<close> writes it,
  then the output opens but no packet comes out of it, whatever non-empty packet was written first.
\<close>

theorem swapped_output_unreadable:
  assumes "pcap_open le (Some input) r0 = (True, r)" and "pr_needs_byte_swap r"
    and "data \<noteq> []" and "length data \<le> 65535"
    and "output = store_global_header le (pr_global_header r) @
                  output_packet_bytes le sec usec data @ rest"
  shows "\<exists>r'. pcap_open le (Some output) r0' = (True, r') \<and> read_packets le r' = []"
proof -
  from assms(1,2) have m: "magic_number (pr_global_header r) = PCAP_MAGIC_SWAPPED"
    by (auto simp: pcap_open_def pcap_close_def Let_def split: option.splits prod.splits if_splits)
  let ?body = "output_packet_bytes le sec usec data @ rest"
  obtain r' where open_: "pcap_open le (Some output) r0' = (True, r')" "pr_needs_byte_swap r'"
    "pr_file r' = Some (?body, False)"
    using m assms(5)
    by (simp add: pcap_open_def pcap_close_def Let_def load_store_global_header
        PCAP_MAGIC_SWAPPED_def PCAP_MAGIC_NATIVE_def)
  have len: "unat (of_nat (length data) :: u32) = length data" using assms(4) by (rule incl_len_small)
  have "(of_nat (length data) :: u32) \<le> 65535" "(of_nat (length data) :: u32) \<noteq> 0"
    using assms(3,4) len by (auto simp: word_le_nat_alt simp del: unsigned_of_nat)
  then have "65535 < swapBytes32 (of_nat (length data))" by (rule swapBytes32_large)
  with open_ have "fst (readNextPacket le r') = None"
    by (simp add: readNextPacket_def output_packet_bytes_def output_packet_header_def
        load_store_packet_header Let_def)
  then have "read_packets le r' = []"
    by (subst read_packets.simps) (auto split: option.split prod.split)
  with open_(1) show ?thesis by blast
qed

text \<open>What an output of non-empty packets gives back, in either byte order of the capture whose header it has.\<close>

lemma output_read_back:
  assumes "pcap_open le input r0 = (True, r)"
    and "\<forall>p \<in> set pkts. fits (snaplen (pr_global_header r)) p \<and> snd (snd p) \<noteq> []"
  shows "\<exists>r'. pcap_open le (Some (store_global_header le (pr_global_header r) @ output_body le pkts)) r0' = (True, r') \<and>
    read_packets le r' = (if pr_needs_byte_swap r then [] else map raw_of pkts)"
proof (cases "pr_needs_byte_swap r")
  case False
  have "\<forall>p \<in> set pkts. fits (snaplen (pr_global_header r)) p" using assms(2) by simp
  from capture_read_back [OF native_magic [OF assms(1) False] this, of le r0'] False show ?thesis by auto
next
  case True
  obtain bs where input: "input = Some bs" using assms(1) by (cases input) (simp_all add: pcap_open_def)
  show ?thesis
  proof (cases pkts)
    case Nil
    have "magic_number (pr_global_header r) = PCAP_MAGIC_SWAPPED"
      using assms(1) True by (auto simp: pcap_open_def pcap_close_def Let_def split: option.splits prod.splits if_splits)
    then obtain r' where "pcap_open le (Some (store_global_header le (pr_global_header r))) r0' = (True, r')"
      "pr_file r' = Some ([], False)"
      by (simp add: pcap_open_def pcap_close_def Let_def load_store_global_header stream_read_def
          PCAP_MAGIC_SWAPPED_def PCAP_MAGIC_NATIVE_def)
    then show ?thesis
      using True by (subst read_packets.simps) (simp add: Nil output_body_def readNextPacket_def stream_read_def)
  next
    case (Cons p pkts')
    obtain sec usec data where p: "p = (sec, usec, data)" by (cases p)
    have "data \<noteq> []" "length data \<le> 65535" using assms(2) by (simp_all add: Cons p fits_def)
    from swapped_output_unreadable [OF assms(1) [unfolded input] True this, of _ sec usec "output_body le pkts'" r0']
    show ?thesis using True by (simp add: Cons p output_body_def)
  qed
qed

theorem swapped_output_unreadable_witness:
  "\<exists>r'. pcap_open True (Some (store_global_header True (sample_header\<lparr>magic_number := 0xd4c3b2a1\<rparr>) @
        output_packet_bytes True 0 0 [5] @ [])) 
      \<lparr>pr_file = None, pr_global_header = sample_header, pr_needs_byte_swap = False\<rparr> = (True, r') \<and>
    read_packets True r' = []"
  by (rule swapped_output_unreadable
      [where input = "store_global_header True (sample_header\<lparr>magic_number := 0xd4c3b2a1,
           version_major := 0x200, version_minor := 0x400, snaplen := 0xffff0000, network := 0x01000000\<rparr>)"
         and r = "\<lparr>pr_file = Some ([], False),
           pr_global_header = sample_header\<lparr>magic_number := 0xd4c3b2a1\<rparr>, pr_needs_byte_swap = True\<rparr>"
         and data = "[5]" and rest = "[]" and sec = 0 and usec = 0
         and ?r0.0 = "\<lparr>pr_file = None, pr_global_header = sample_header, pr_needs_byte_swap = False\<rparr>"])
    (simp_all add: pcap_open_def pcap_close_def Let_def load_store_global_header stream_read_def
      sample_header_def PCAP_MAGIC_NATIVE_def PCAP_MAGIC_SWAPPED_def maybeSwap16_def maybeSwap32_def)

end
