(* ===== verification/Packet_Parser.thy ===== *)
theory Packet_Parser
  imports Pcap
begin

text \<open>
  The packet parser of \<open>include/packet_parser.h\<close> and \<open>src/packet_parser.cpp\<close>. Every parser gets the
  buffer \<open>data\<close>, its length, the packet parsed so far and the offset, and returns the success flag
  with the new packet and offset, which the source updates through references. The parsed packet's
  \<open>payload_data\<close> pointer is the list of the bytes from it to the end of the buffer.
\<close>

section \<open>Data\<close>

record ParsedPacket =
  pp_timestamp_sec :: u32
  pp_timestamp_usec :: u32
  pp_src_mac :: string
  pp_dest_mac :: string
  pp_ether_type :: u16
  pp_has_ip :: bool
  pp_ip_version :: u8
  pp_src_ip :: string
  pp_dest_ip :: string
  pp_src_ip_raw :: u32
  pp_dst_ip_raw :: u32
  pp_has_ipv6 :: bool
  pp_src_ipv6 :: IPv6Address
  pp_dst_ipv6 :: IPv6Address
  pp_ip_hop_limit :: u8
  pp_ip_flow_label :: u32
  pp_ip_traffic_class :: u8
  pp_ipv6_ext_unsupported :: bool
  pp_protocol :: u8
  pp_ttl :: u8
  pp_has_tcp :: bool
  pp_has_udp :: bool
  pp_src_port :: u16
  pp_dest_port :: u16
  pp_tcp_flags :: u8
  pp_seq_number :: u32
  pp_ack_number :: u32
  pp_has_icmp :: bool
  pp_has_icmpv6 :: bool
  pp_icmp_type :: u8
  pp_icmp_code :: u8
  pp_has_ipv6_hop_by_hop :: bool
  pp_has_ipv6_routing :: bool
  pp_has_ipv6_fragment :: bool
  pp_has_ipv6_dest_opts :: bool
  pp_has_ipv6_auth :: bool
  pp_payload_length :: nat
  pp_payload_data :: bytes

text \<open>The value-initialised \<open>ParsedPacket{}\<close>.\<close>

definition empty_packet :: ParsedPacket where
  "empty_packet =
     \<lparr>pp_timestamp_sec = 0, pp_timestamp_usec = 0, pp_src_mac = '''', pp_dest_mac = '''',
      pp_ether_type = 0, pp_has_ip = False, pp_ip_version = 0, pp_src_ip = '''', pp_dest_ip = '''',
      pp_src_ip_raw = 0, pp_dst_ip_raw = 0, pp_has_ipv6 = False, pp_src_ipv6 = replicate 16 0,
      pp_dst_ipv6 = replicate 16 0, pp_ip_hop_limit = 0, pp_ip_flow_label = 0,
      pp_ip_traffic_class = 0, pp_ipv6_ext_unsupported = False, pp_protocol = 0, pp_ttl = 0,
      pp_has_tcp = False, pp_has_udp = False, pp_src_port = 0, pp_dest_port = 0, pp_tcp_flags = 0,
      pp_seq_number = 0, pp_ack_number = 0, pp_has_icmp = False, pp_has_icmpv6 = False,
      pp_icmp_type = 0, pp_icmp_code = 0, pp_has_ipv6_hop_by_hop = False,
      pp_has_ipv6_routing = False, pp_has_ipv6_fragment = False, pp_has_ipv6_dest_opts = False,
      pp_has_ipv6_auth = False, pp_payload_length = 0, pp_payload_data = []\<rparr>"

abbreviation (input) FIN :: u8 where "FIN \<equiv> 0x01"
abbreviation (input) SYN :: u8 where "SYN \<equiv> 0x02"
abbreviation (input) RST :: u8 where "RST \<equiv> 0x04"
abbreviation (input) PSH :: u8 where "PSH \<equiv> 0x08"
abbreviation (input) ACK :: u8 where "ACK \<equiv> 0x10"
abbreviation (input) URG :: u8 where "URG \<equiv> 0x20"

abbreviation (input) ICMP :: u8 where "ICMP \<equiv> 1"
abbreviation (input) TCP :: u8 where "TCP \<equiv> 6"
abbreviation (input) UDP :: u8 where "UDP \<equiv> 17"
abbreviation (input) ICMPv6 :: u8 where "ICMPv6 \<equiv> 58"
abbreviation (input) IPV6_HOP_BY_HOP :: u8 where "IPV6_HOP_BY_HOP \<equiv> 0"
abbreviation (input) IPV6_ROUTING :: u8 where "IPV6_ROUTING \<equiv> 43"
abbreviation (input) IPV6_FRAGMENT :: u8 where "IPV6_FRAGMENT \<equiv> 44"
abbreviation (input) IPV6_DEST_OPTS :: u8 where "IPV6_DEST_OPTS \<equiv> 60"
abbreviation (input) IPV6_NO_NEXT_HDR :: u8 where "IPV6_NO_NEXT_HDR \<equiv> 59"

abbreviation (input) EtherType_IPv4 :: u16 where "EtherType_IPv4 \<equiv> 0x0800"
abbreviation (input) EtherType_IPv6 :: u16 where "EtherType_IPv6 \<equiv> 0x86DD"

text \<open>\<open>memcpy\<close> of two or four bytes into an integer.\<close>

definition memcpy16 :: "bool \<Rightarrow> bytes \<Rightarrow> nat \<Rightarrow> u16 res" where
  "memcpy16 le p i = rbind (rd p i) (\<lambda>a. rbind (rd p (i + 1)) (\<lambda>b. Inr (load16 le a b)))"

definition memcpy32 :: "bool \<Rightarrow> bytes \<Rightarrow> nat \<Rightarrow> u32 res" where
  "memcpy32 le p i = rbind (rd p i) (\<lambda>a. rbind (rd p (i + 1)) (\<lambda>b.
     rbind (rd p (i + 2)) (\<lambda>c. rbind (rd p (i + 3)) (\<lambda>d. Inr (load32 le a b c d)))))"

lemma wp_memcpy16 [wp_simps]:
  "wp (memcpy16 le p i) Q \<longleftrightarrow> Suc i < length p \<and> Q (load16 le (p ! i) (p ! Suc i))"
  by (auto simp: memcpy16_def wp_simps)

lemma wp_memcpy32 [wp_simps]:
  "wp (memcpy32 le p i) Q \<longleftrightarrow>
     i + 3 < length p \<and> Q (load32 le (p ! i) (p ! (i + 1)) (p ! (i + 2)) (p ! (i + 3)))"
  by (auto simp: memcpy32_def wp_simps)

section \<open>Formatting\<close>

text \<open>\<open>std::hex\<close> with \<open>setw(2)\<close> and the fill character 0.\<close>

definition hex2 :: "u8 \<Rightarrow> string" where
  "hex2 b = (let s = to_hex (unat b) in replicate (2 - length s) (CHR ''0'') @ s)"

definition mac_text :: "bytes \<Rightarrow> string" where
  "mac_text mac = concat (map (\<lambda>k. (if 0 < k then '':'' else '''') @ hex2 (mac ! k)) [0..<6])"

definition macToString :: "bytes \<Rightarrow> nat \<Rightarrow> string res" where
  "macToString p i = rbind (rd_bytes p i 6) (\<lambda>mac. Inr (mac_text mac))"

definition ipToString :: "u32 \<Rightarrow> string" where
  "ipToString ip =
     to_string (unat (ip AND 0xFF)) @ ''.'' @ to_string (unat (drop_bit 8 ip AND 0xFF)) @ ''.'' @
     to_string (unat (drop_bit 16 ip AND 0xFF)) @ ''.'' @ to_string (unat (drop_bit 24 ip AND 0xFF))"

definition protocolToString :: "u8 \<Rightarrow> string" where
  "protocolToString protocol =
     (if protocol = ICMP then ''ICMP'' else if protocol = TCP then ''TCP''
      else if protocol = UDP then ''UDP'' else if protocol = ICMPv6 then ''ICMPv6''
      else ''Unknown('' @ to_string (unat protocol) @ '')'')"

definition tcpFlagsToString :: "u8 \<Rightarrow> string" where
  "tcpFlagsToString flags =
     (let result =
        (if flags AND SYN \<noteq> 0 then ''SYN '' else '''') @
        (if flags AND ACK \<noteq> 0 then ''ACK '' else '''') @
        (if flags AND FIN \<noteq> 0 then ''FIN '' else '''') @
        (if flags AND RST \<noteq> 0 then ''RST '' else '''') @
        (if flags AND PSH \<noteq> 0 then ''PSH '' else '''') @
        (if flags AND URG \<noteq> 0 then ''URG '' else '''');
        result = (if result \<noteq> [] then butlast result else result)
      in if result = [] then ''none'' else result)"


section \<open>The parsers\<close>

type_synonym parse_result = "(bool \<times> ParsedPacket \<times> nat) res"

definition parseEthernet :: "bool \<Rightarrow> bytes \<Rightarrow> nat \<Rightarrow> ParsedPacket \<Rightarrow> nat \<Rightarrow> parse_result" where
  "parseEthernet le data len parsed offset =
     (if len < 14 then Inr (False, parsed, offset) else
      rbind (macToString data 0) (\<lambda>dm.
      rbind (macToString data 6) (\<lambda>sm.
      rbind (memcpy16 le data 12) (\<lambda>et_raw.
        Inr (True,
             parsed\<lparr>pp_dest_mac := dm, pp_src_mac := sm, pp_ether_type := netToHost16 le et_raw\<rparr>,
             14)))))"

definition parseIPv4 :: "bool \<Rightarrow> bytes \<Rightarrow> nat \<Rightarrow> ParsedPacket \<Rightarrow> nat \<Rightarrow> parse_result" where
  "parseIPv4 le data len parsed offset =
     (if len < offset + 20 then Inr (False, parsed, offset) else
      rbind (rd data offset) (\<lambda>ip0.
        if drop_bit 4 ip0 AND 0x0F \<noteq> 4 then Inr (False, parsed, offset) else
        let ip_hdr_len = unat (ip0 AND 0x0F) * 4 in
        if ip_hdr_len < 20 \<or> len < offset + ip_hdr_len then Inr (False, parsed, offset) else
        rbind (rd data (offset + 8)) (\<lambda>ip8.
        rbind (rd data (offset + 9)) (\<lambda>ip9.
        rbind (memcpy32 le data (offset + 12)) (\<lambda>src.
        rbind (memcpy32 le data (offset + 16)) (\<lambda>dst.
          Inr (True,
               parsed\<lparr>pp_ip_version := 4, pp_ttl := ip8, pp_protocol := ip9, pp_src_ip_raw := src,
                      pp_dst_ip_raw := dst, pp_src_ip := ipToString src, pp_dest_ip := ipToString dst,
                      pp_has_ip := True\<rparr>,
               offset + ip_hdr_len)))))))"

definition isExtHeader :: "u8 \<Rightarrow> bool" where
  "isExtHeader nh \<longleftrightarrow>
     nh = IPV6_HOP_BY_HOP \<or> nh = IPV6_ROUTING \<or> nh = IPV6_FRAGMENT \<or> nh = IPV6_DEST_OPTS \<or> nh = 51"

definition flag_ext_header :: "u8 \<Rightarrow> ParsedPacket \<Rightarrow> ParsedPacket" where
  "flag_ext_header next_hdr parsed =
     (if next_hdr = IPV6_HOP_BY_HOP then parsed\<lparr>pp_has_ipv6_hop_by_hop := True\<rparr>
      else if next_hdr = IPV6_ROUTING then parsed\<lparr>pp_has_ipv6_routing := True\<rparr>
      else if next_hdr = IPV6_FRAGMENT then parsed\<lparr>pp_has_ipv6_fragment := True\<rparr>
      else if next_hdr = IPV6_DEST_OPTS then parsed\<lparr>pp_has_ipv6_dest_opts := True\<rparr>
      else if next_hdr = 51 then parsed\<lparr>pp_has_ipv6_auth := True\<rparr>
      else parsed)"

text \<open>
  The loop of \<open>walkIPv6ExtHeaders\<close>; the first argument is the number of rounds
  \<open>count < MAX_EXT_HEADERS\<close> still allows. The result is the returned next-header value, the packet
  and the offset.
\<close>

fun walk_loop :: "nat \<Rightarrow> bool \<Rightarrow> bytes \<Rightarrow> nat \<Rightarrow> nat \<Rightarrow> u8 \<Rightarrow> ParsedPacket \<Rightarrow>
    (u8 \<times> ParsedPacket \<times> nat) res" where
  "walk_loop 0 le data len offset next_hdr parsed = Inr (next_hdr, parsed, offset)"
| "walk_loop (Suc rounds) le data len offset next_hdr parsed =
     (if \<not> isExtHeader next_hdr then Inr (next_hdr, parsed, offset) else
      let parsed = flag_ext_header next_hdr parsed;
          unsupported = parsed\<lparr>pp_ipv6_ext_unsupported := True\<rparr>
      in
      if next_hdr = IPV6_FRAGMENT then
        (if offset + 8 > len then Inr (IPV6_NO_NEXT_HDR, unsupported, offset) else
         rbind (rd data offset) (\<lambda>next_nh.
         rbind (memcpy16 le data (offset + 2)) (\<lambda>frag_raw.
           let frag_offset = drop_bit 3 (netToHost16 le frag_raw AND 0xFFF8) in
           if frag_offset > 0 then
             Inr (IPV6_NO_NEXT_HDR, unsupported\<lparr>pp_protocol := next_nh\<rparr>, offset + 8)
           else walk_loop rounds le data len (offset + 8) next_nh parsed)))
      else if offset + 2 > len then Inr (IPV6_NO_NEXT_HDR, unsupported, offset)
      else
        rbind (rd data offset) (\<lambda>nh_field.
        rbind (rd data (offset + 1)) (\<lambda>hdr_ext_len.
          let hdr_total = (if next_hdr = 51 then (unat hdr_ext_len + 2) * 4
                           else (unat hdr_ext_len + 1) * 8)
          in if offset + hdr_total > len \<or> hdr_total < 8
             then Inr (IPV6_NO_NEXT_HDR, unsupported, offset)
             else walk_loop rounds le data len (offset + hdr_total) nh_field parsed)))"

declare walk_loop.simps(2) [simp del]

definition walkIPv6ExtHeaders ::
  "bool \<Rightarrow> bytes \<Rightarrow> nat \<Rightarrow> nat \<Rightarrow> u8 \<Rightarrow> ParsedPacket \<Rightarrow> (u8 \<times> ParsedPacket \<times> nat) res" where
  "walkIPv6ExtHeaders le data len offset next_hdr parsed =
     walk_loop 10 le data len offset next_hdr parsed"

definition parseIPv6 :: "bool \<Rightarrow> bytes \<Rightarrow> nat \<Rightarrow> ParsedPacket \<Rightarrow> nat \<Rightarrow> parse_result" where
  "parseIPv6 le data len parsed offset =
     (if len < offset + 40 then Inr (False, parsed, offset) else
      rbind (rd data offset) (\<lambda>b0.
        if drop_bit 4 b0 AND 0x0F \<noteq> 6 then Inr (False, parsed, offset) else
        rbind (rd data (offset + 1)) (\<lambda>b1.
        rbind (rd data (offset + 2)) (\<lambda>b2.
        rbind (rd data (offset + 3)) (\<lambda>b3.
        rbind (rd data (offset + 6)) (\<lambda>next_hdr.
        rbind (rd data (offset + 7)) (\<lambda>hop_limit.
        rbind (rd_bytes data (offset + 8) 16) (\<lambda>src.
        rbind (rd_bytes data (offset + 24) 16) (\<lambda>dst.
          let parsed = parsed
            \<lparr>pp_ip_traffic_class := push_bit 4 (b0 AND 0x0F) OR (drop_bit 4 b1 AND 0x0F),
             pp_ip_flow_label := be24 (b1 AND 0x0F) b2 b3,
             pp_ip_hop_limit := hop_limit, pp_ttl := hop_limit,
             pp_src_ipv6 := src, pp_dst_ipv6 := dst,
             pp_ip_version := 6, pp_has_ip := True, pp_has_ipv6 := True\<rparr>
          in rbind (walkIPv6ExtHeaders le data len (offset + 40) next_hdr parsed)
               (\<lambda>(proto, parsed, offset). Inr (True, parsed\<lparr>pp_protocol := proto\<rparr>, offset)))))))))))"

definition parseTCP :: "bool \<Rightarrow> bytes \<Rightarrow> nat \<Rightarrow> ParsedPacket \<Rightarrow> nat \<Rightarrow> parse_result" where
  "parseTCP le data len parsed offset =
     (if len < offset + 20 then Inr (False, parsed, offset) else
      rbind (memcpy16 le data offset) (\<lambda>sp.
      rbind (memcpy16 le data (offset + 2)) (\<lambda>dp.
      rbind (memcpy32 le data (offset + 4)) (\<lambda>sq.
      rbind (memcpy32 le data (offset + 8)) (\<lambda>ak.
      rbind (rd data (offset + 12)) (\<lambda>b12.
        let parsed = parsed\<lparr>pp_src_port := netToHost16 le sp, pp_dest_port := netToHost16 le dp,
                            pp_seq_number := netToHost32 le sq, pp_ack_number := netToHost32 le ak\<rparr>;
            data_offset = drop_bit 4 b12 AND 0x0F
        in
        if data_offset < 5 \<or> data_offset > 15 then Inr (False, parsed, offset) else
        let tcp_hdr_len = unat data_offset * 4 in
        if len < offset + tcp_hdr_len then Inr (False, parsed, offset) else
        rbind (rd data (offset + 13)) (\<lambda>flags.
          Inr (True, parsed\<lparr>pp_tcp_flags := flags, pp_has_tcp := True\<rparr>, offset + tcp_hdr_len))))))))"

definition parseUDP :: "bool \<Rightarrow> bytes \<Rightarrow> nat \<Rightarrow> ParsedPacket \<Rightarrow> nat \<Rightarrow> parse_result" where
  "parseUDP le data len parsed offset =
     (if len < offset + 8 then Inr (False, parsed, offset) else
      rbind (memcpy16 le data offset) (\<lambda>sp.
      rbind (memcpy16 le data (offset + 2)) (\<lambda>dp.
      rbind (memcpy16 le data (offset + 4)) (\<lambda>len_raw.
        let parsed = parsed\<lparr>pp_src_port := netToHost16 le sp, pp_dest_port := netToHost16 le dp\<rparr>;
            udp_len = unat (netToHost16 le len_raw)
        in
        if udp_len < 8 then Inr (False, parsed, offset)
        else if offset + udp_len > len then Inr (False, parsed, offset)
        else Inr (True, parsed\<lparr>pp_has_udp := True\<rparr>, offset + 8)))))"

definition parseICMP :: "bytes \<Rightarrow> nat \<Rightarrow> ParsedPacket \<Rightarrow> nat \<Rightarrow> parse_result" where
  "parseICMP data len parsed offset =
     (if len < offset + 8 then Inr (False, parsed, offset) else
      rbind (rd data offset) (\<lambda>ty. rbind (rd data (offset + 1)) (\<lambda>code.
        Inr (True, parsed\<lparr>pp_icmp_type := ty, pp_icmp_code := code, pp_has_icmp := True\<rparr>,
             offset + 8))))"

definition parseICMPv6 :: "bytes \<Rightarrow> nat \<Rightarrow> ParsedPacket \<Rightarrow> nat \<Rightarrow> parse_result" where
  "parseICMPv6 data len parsed offset =
     (if len < offset + 8 then Inr (False, parsed, offset) else
      rbind (rd data offset) (\<lambda>ty. rbind (rd data (offset + 1)) (\<lambda>code.
        Inr (True, parsed\<lparr>pp_icmp_type := ty, pp_icmp_code := code, pp_has_icmpv6 := True\<rparr>,
             offset + 8))))"

text \<open>
  \<open>if (!step(...)) return false;\<close>: a failed step ends \<open>parse\<close> with what has been parsed so far.
\<close>

definition or_return :: "parse_result \<Rightarrow> (ParsedPacket \<Rightarrow> nat \<Rightarrow> parse_result) \<Rightarrow> parse_result" where
  "or_return m f =
     rbind m (\<lambda>(ok, parsed, offset). if ok then f parsed offset else Inr (False, parsed, offset))"

definition parse_transport4 :: "bool \<Rightarrow> bytes \<Rightarrow> nat \<Rightarrow> ParsedPacket \<Rightarrow> nat \<Rightarrow> parse_result" where
  "parse_transport4 le data len parsed offset =
     (if pp_protocol parsed = TCP then parseTCP le data len parsed offset
      else if pp_protocol parsed = UDP then parseUDP le data len parsed offset
      else if pp_protocol parsed = ICMP then parseICMP data len parsed offset
      else Inr (True, parsed, offset))"

definition parse_transport6 :: "bool \<Rightarrow> bytes \<Rightarrow> nat \<Rightarrow> ParsedPacket \<Rightarrow> nat \<Rightarrow> parse_result" where
  "parse_transport6 le data len parsed offset =
     (if pp_protocol parsed = TCP then parseTCP le data len parsed offset
      else if pp_protocol parsed = UDP then parseUDP le data len parsed offset
      else if pp_protocol parsed = ICMPv6 then parseICMPv6 data len parsed offset
      else Inr (True, parsed, offset))"

definition parse_layers :: "bool \<Rightarrow> bytes \<Rightarrow> nat \<Rightarrow> ParsedPacket \<Rightarrow> parse_result" where
  "parse_layers le data len parsed =
     or_return (parseEthernet le data len parsed 0) (\<lambda>parsed offset.
       if pp_ether_type parsed = EtherType_IPv4 then
         or_return (parseIPv4 le data len parsed offset) (parse_transport4 le data len)
       else if pp_ether_type parsed = EtherType_IPv6 then
         or_return (parseIPv6 le data len parsed offset) (parse_transport6 le data len)
       else Inr (True, parsed, offset))"

definition parse :: "bool \<Rightarrow> RawPacket \<Rightarrow> (bool \<times> ParsedPacket) res" where
  "parse le raw =
     (let data = rp_data raw; len = length data in
      rbind (parse_layers le data len
               (empty_packet\<lparr>pp_timestamp_sec := ts_sec (rp_header raw),
                             pp_timestamp_usec := ts_usec (rp_header raw)\<rparr>))
        (\<lambda>(ok, parsed, offset).
           if \<not> ok then Inr (False, parsed)
           else if offset < len then
             Inr (True, parsed\<lparr>pp_payload_length := len - offset, pp_payload_data := drop offset data\<rparr>)
           else Inr (True, parsed)))"

section \<open>Memory safety and layering\<close>

text \<open>
  Three stages of a packet under construction: before the IP layer, after it, and finished. The
  stages say which flags can be set and that the flags of a layer agree with the protocol number the
  layer below resolved.
\<close>

definition no_transport :: "ParsedPacket \<Rightarrow> bool" where
  "no_transport pk \<longleftrightarrow>
     \<not> pp_has_tcp pk \<and> \<not> pp_has_udp pk \<and> \<not> pp_has_icmp pk \<and> \<not> pp_has_icmpv6 pk"

definition wf_addresses :: "ParsedPacket \<Rightarrow> bool" where
  "wf_addresses pk \<longleftrightarrow> wf_ipv6 (pp_src_ipv6 pk) \<and> wf_ipv6 (pp_dst_ipv6 pk) \<and>
     (pp_ip_version pk = 4 \<longrightarrow>
        pp_src_ip pk = ipToString (pp_src_ip_raw pk) \<and> pp_dest_ip pk = ipToString (pp_dst_ip_raw pk))"

definition no_payload :: "ParsedPacket \<Rightarrow> bool" where
  "no_payload pk \<longleftrightarrow> pp_payload_length pk = 0 \<and> pp_payload_data pk = []"

definition link_stage :: "ParsedPacket \<Rightarrow> bool" where
  "link_stage pk \<longleftrightarrow>
     no_transport pk \<and> no_payload pk \<and> wf_addresses pk \<and> \<not> pp_has_ip pk \<and> \<not> pp_has_ipv6 pk \<and>
     pp_ip_version pk = 0 \<and> \<not> pp_ipv6_ext_unsupported pk"

definition ip_stage :: "ParsedPacket \<Rightarrow> bool" where
  "ip_stage pk \<longleftrightarrow>
     no_transport pk \<and> no_payload pk \<and> wf_addresses pk \<and> pp_has_ip pk \<and>
     (pp_has_ipv6 pk \<longleftrightarrow> pp_ip_version pk = 6) \<and> pp_ip_version pk \<in> {4, 6} \<and>
     (pp_ipv6_ext_unsupported pk \<longrightarrow> pp_has_ipv6 pk \<and> pp_protocol pk = IPV6_NO_NEXT_HDR)"

definition wf_parsed :: "ParsedPacket \<Rightarrow> bool" where
  "wf_parsed pk \<longleftrightarrow>
     wf_addresses pk \<and>
     (pp_has_ip pk \<longleftrightarrow> pp_ip_version pk \<in> {4, 6}) \<and> (pp_has_ipv6 pk \<longleftrightarrow> pp_ip_version pk = 6) \<and>
     (pp_has_tcp pk \<longrightarrow> pp_has_ip pk \<and> pp_protocol pk = TCP) \<and>
     (pp_has_udp pk \<longrightarrow> pp_has_ip pk \<and> pp_protocol pk = UDP) \<and>
     (pp_has_icmp pk \<longrightarrow> pp_ip_version pk = 4 \<and> pp_protocol pk = ICMP) \<and>
     (pp_has_icmpv6 pk \<longrightarrow> pp_ip_version pk = 6 \<and> pp_protocol pk = ICMPv6) \<and>
     (pp_ipv6_ext_unsupported pk \<longrightarrow>
        pp_has_ipv6 pk \<and> pp_protocol pk = IPV6_NO_NEXT_HDR)"

lemmas stage_defs = no_transport_def no_payload_def wf_addresses_def link_stage_def ip_stage_def wf_parsed_def

lemma link_stage_wf: "link_stage pk \<Longrightarrow> wf_parsed pk \<and> no_payload pk"
  by (simp add: stage_defs)

lemma ip_stage_wf: "ip_stage pk \<Longrightarrow> wf_parsed pk \<and> no_payload pk"
  by (auto simp: stage_defs)

lemma wp_macToString [wp_simps]:
  "wp (macToString p i) Q \<longleftrightarrow> i + 6 \<le> length p \<and>
     Q (mac_text (take 6 (drop i p)))"
  by (simp add: macToString_def wp_simps)

lemma wp_case_prod [wp_simps]:
  "wp (case z of (a, b) \<Rightarrow> f a b) Q = (case z of (a, b) \<Rightarrow> wp (f a b) Q)"
  by (simp split: prod.split)

lemma wp_or_return:
  assumes "wp m (\<lambda>(ok, pk, off). if ok then wp (f pk off) Q else Q (False, pk, off))"
  shows "wp (or_return m f) Q"
proof (cases m)
  case (Inr z)
  then show ?thesis using assms by (cases z) (simp add: or_return_def wp_simps split: if_splits)
qed (use assms in \<open>simp add: wp_simps\<close>)

lemma parseEthernet_wp:
  assumes "link_stage pk"
  shows "wp (parseEthernet le p (length p) pk 0)
           (\<lambda>(ok, pk', off). link_stage pk' \<and> (if ok then off = 14 \<and> off \<le> length p else pk' = pk))"
  using assms unfolding parseEthernet_def by (auto simp: wp_simps stage_defs)

lemma parseIPv4_wp:
  assumes "link_stage pk"
  shows "wp (parseIPv4 le p (length p) pk off0)
           (\<lambda>(ok, pk', off). if ok then ip_stage pk' \<and> pp_ip_version pk' = 4 \<and>
                                off0 + 20 \<le> off \<and> off \<le> length p else pk' = pk)"
  using assms unfolding parseIPv4_def by (auto simp: wp_simps stage_defs Let_def)

text \<open>
  The walk reads inside the buffer, moves forward by at least eight bytes per header and at most ten
  headers, leaves everything but the extension flags alone, and marks the packet unsupported only
  together with \<open>IPV6_NO_NEXT_HDR\<close>.
\<close>

definition walk_frame :: "ParsedPacket \<Rightarrow> ParsedPacket \<Rightarrow> bool" where
  "walk_frame pk pk' \<longleftrightarrow>
     no_transport pk' = no_transport pk \<and> no_payload pk' = no_payload pk \<and> wf_addresses pk' = wf_addresses pk \<and>
     pp_has_ip pk' = pp_has_ip pk \<and> pp_has_ipv6 pk' = pp_has_ipv6 pk \<and>
     pp_ip_version pk' = pp_ip_version pk \<and> pp_src_ipv6 pk' = pp_src_ipv6 pk \<and>
     pp_dst_ipv6 pk' = pp_dst_ipv6 pk \<and> pp_ether_type pk' = pp_ether_type pk \<and>
     pp_ttl pk' = pp_ttl pk \<and> pp_timestamp_sec pk' = pp_timestamp_sec pk \<and>
     pp_timestamp_usec pk' = pp_timestamp_usec pk"

lemma walk_frame_refl [simp]: "walk_frame pk pk"
  by (simp add: walk_frame_def)

lemma walk_frame_trans: "walk_frame a b \<Longrightarrow> walk_frame b c \<Longrightarrow> walk_frame a c"
  by (simp add: walk_frame_def)

lemma flag_ext_header_frame [simp]:
  "walk_frame pk (flag_ext_header nh pk)"
  "pp_ipv6_ext_unsupported (flag_ext_header nh pk) = pp_ipv6_ext_unsupported pk"
  by (auto simp: walk_frame_def flag_ext_header_def stage_defs)

lemma walk_frame_update [simp]:
  "walk_frame pk (pk'\<lparr>pp_ipv6_ext_unsupported := b\<rparr>) = walk_frame pk pk'"
  "walk_frame pk (pk'\<lparr>pp_protocol := x\<rparr>) = walk_frame pk pk'"
  by (auto simp: walk_frame_def stage_defs)

lemma walk_loop_wp:
  assumes "\<not> pp_ipv6_ext_unsupported pk" and "off \<le> length p"
  shows "wp (walk_loop n le p (length p) off nh pk)
           (\<lambda>(proto, pk', off'). walk_frame pk pk' \<and> off \<le> off' \<and> off' \<le> length p \<and>
              (pp_ipv6_ext_unsupported pk' \<longrightarrow> proto = IPV6_NO_NEXT_HDR))"
  using assms
proof (induction n arbitrary: off nh pk)
  case 0
  then show ?case by (simp add: wp_simps)
next
  case (Suc n)
  have step: "wp (walk_loop n le p (length p) off'' nh'' (flag_ext_header nh0 pk))
           (\<lambda>(proto, pk', off'). walk_frame pk pk' \<and> off \<le> off' \<and> off' \<le> length p \<and>
              (pp_ipv6_ext_unsupported pk' \<longrightarrow> proto = IPV6_NO_NEXT_HDR))"
    if "off \<le> off''" "off'' \<le> length p" for off'' nh'' nh0
    by (rule wp_mono [OF Suc.IH])
      (use Suc.prems that in \<open>auto intro: walk_frame_trans [rotated]\<close>)
  show ?case
    using Suc.prems
    by (auto simp: walk_loop.simps(2) wp_simps Let_def not_less intro!: step)
qed

lemma parseIPv6_wp:
  assumes "link_stage pk"
  shows "wp (parseIPv6 le p (length p) pk off0)
           (\<lambda>(ok, pk', off). if ok then ip_stage pk' \<and> pp_ip_version pk' = 6 \<and>
                                off0 + 40 \<le> off \<and> off \<le> length p else pk' = pk)"
  using assms unfolding parseIPv6_def walkIPv6ExtHeaders_def
  by (auto simp: wp_simps Let_def stage_defs wf_ipv6_def walk_frame_def intro!: wp_mono [OF walk_loop_wp])

lemma parse_transport4_wp:
  assumes "ip_stage pk" and "pp_ip_version pk = 4" and "off0 \<le> length p"
  shows "wp (parse_transport4 le p (length p) pk off0)
           (\<lambda>(ok, pk', off). wf_parsed pk' \<and> no_payload pk' \<and> (ok \<longrightarrow> off0 \<le> off \<and> off \<le> length p))"
  using assms unfolding parse_transport4_def parseTCP_def parseUDP_def parseICMP_def
  by (auto simp: wp_simps Let_def stage_defs)

lemma parse_transport6_wp:
  assumes "ip_stage pk" and "pp_ip_version pk = 6" and "off0 \<le> length p"
  shows "wp (parse_transport6 le p (length p) pk off0)
           (\<lambda>(ok, pk', off). wf_parsed pk' \<and> no_payload pk' \<and> (ok \<longrightarrow> off0 \<le> off \<and> off \<le> length p))"
  using assms unfolding parse_transport6_def parseTCP_def parseUDP_def parseICMPv6_def
  by (auto simp: wp_simps Let_def stage_defs)

lemma parse_layers_wp:
  assumes "link_stage pk"
  shows "wp (parse_layers le p (length p) pk)
           (\<lambda>(ok, pk', off). wf_parsed pk' \<and> no_payload pk' \<and> (ok \<longrightarrow> 14 \<le> off \<and> off \<le> length p))"
  unfolding parse_layers_def
  by (rule wp_or_return, rule wp_mono [OF parseEthernet_wp [OF assms]])
    (auto simp: wp_simps link_stage_wf ip_stage_wf
      intro!: wp_or_return wp_mono [OF parseIPv4_wp] wp_mono [OF parseIPv6_wp]
        wp_mono [OF parse_transport4_wp] wp_mono [OF parse_transport6_wp])

lemma link_stage_empty:
  "link_stage (empty_packet\<lparr>pp_timestamp_sec := s, pp_timestamp_usec := u\<rparr>)"
  by (simp add: stage_defs empty_packet_def wf_ipv6_def)

lemma parse_wp:
  "wp (parse le raw) (\<lambda>(ok, pk). wf_parsed pk \<and> pp_payload_length pk = length (pp_payload_data pk) \<and>
     suffix (pp_payload_data pk) (drop 14 (rp_data raw)))"
proof -
  have "suffix (drop off p) (drop 14 p)" if "14 \<le> off" for off :: nat and p :: bytes
    using suffix_drop [of "off - 14" "drop 14 p"] that by simp
  then show ?thesis
    unfolding parse_def Let_def
    by (auto simp: wp_simps stage_defs intro!: wp_mono [OF parse_layers_wp [OF link_stage_empty]])
qed

lemma parse_wf: "parse le raw = Inr (ok, pk) \<Longrightarrow> wf_parsed pk"
  using parse_wp [of le raw] by (simp add: wp_simps)

lemma parse_nonempty: "parse le raw = Inr (True, pk) \<Longrightarrow> rp_data raw \<noteq> []"
  by (auto simp: parse_def parse_layers_def parseEthernet_def or_return_def Let_def)

text \<open>
  C8. Memory safety and type invariant of \<open>PacketParser::parse\<close>. On every byte string, of whatever
  length, all reads stay inside the buffer, the result is well formed (a TCP, UDP or ICMP flag only
  together with the protocol number and IP version it belongs to; an unsupported IPv6 chain never
  with a transport layer; an IPv4 address as text and as a number the same), and the payload is a
  suffix of the packet of the reported length that starts behind the Ethernet header.
\<close>

theorem parse_safe:
  "\<exists>ok pk. parse le raw = Inr (ok, pk) \<and> wf_parsed pk \<and>
     pp_payload_length pk = length (pp_payload_data pk) \<and>
     suffix (pp_payload_data pk) (drop 14 (rp_data raw))"
  using parse_wp [of le raw] by (auto simp: wp_iff)

section \<open>Parsing what a sender puts on the wire\<close>

lemma rd_append [simp]: "rd (pre @ q) (length pre) = rd q 0" "rd (pre @ q) (length pre + k) = rd q k"
  by (simp_all add: rd_def nth_append)

lemma memcpy16_append [simp]:
  "memcpy16 le (pre @ q) (length pre) = memcpy16 le q 0"
  "memcpy16 le (pre @ q) (length pre + k) = memcpy16 le q k"
  by (simp_all add: memcpy16_def add.assoc flip: One_nat_def del: add_Suc_right)

lemma memcpy32_append [simp]:
  "memcpy32 le (pre @ q) (length pre) = memcpy32 le q 0"
  "memcpy32 le (pre @ q) (length pre + k) = memcpy32 le q k"
proof -
  show "memcpy32 le (pre @ q) (length pre) = memcpy32 le q 0"
    unfolding memcpy32_def rd_append by (simp only: add_0)
  show "memcpy32 le (pre @ q) (length pre + k) = memcpy32 le q k"
    unfolding memcpy32_def add.assoc rd_append ..
qed

lemma nibble_of_nat:
  assumes "n < 16"
  shows "drop_bit 4 (push_bit 4 (of_nat n) OR (r AND 0x0F :: u8)) AND 0x0F = of_nat n"
    and "(0x40 OR of_nat n :: u8) AND 0x0F = of_nat n"
    and "drop_bit 4 (0x40 OR of_nat n :: u8) AND 0x0F = 4"
proof -
  define v :: u8 where "v = 4"
  have n: "of_nat n = take_bit 4 (of_nat n :: u8)"
    using assms by (simp add: take_bit_of_nat take_bit_nat_eq_self)
  have m: "(0x0F :: u8) = mask 4" by (simp add: mask_eq_exp_minus_1)
  have v: "v = take_bit 4 v" "(0x40 :: u8) = push_bit 4 v"
    by (simp_all add: v_def take_bit_eq_mask mask_eq_exp_minus_1)
  show "drop_bit 4 (push_bit 4 (of_nat n) OR (r AND 0x0F :: u8)) AND 0x0F = of_nat n"
    unfolding m by (subst (1 2) n, rule bit_word_eqI) (auto simp: bit_simps)
  show "(0x40 OR of_nat n :: u8) AND 0x0F = of_nat n"
    unfolding m v(2) by (subst (1 2) n, rule bit_word_eqI) (auto simp: bit_simps)
  have "drop_bit 4 (0x40 OR of_nat n :: u8) AND 0x0F = v"
    unfolding m v(2) by (subst n, subst (1 2) v(1), rule bit_word_eqI) (auto simp: bit_simps)
  then show "drop_bit 4 (0x40 OR of_nat n :: u8) AND 0x0F = 4" by (simp add: v_def)
qed

lemma unat_nibble: "n < 16 \<Longrightarrow> unat (of_nat n :: u8) = n"
  by simp

text \<open>
  The wire format of a TCP segment in an IPv4 packet in an Ethernet frame. Words are big-endian,
  i.e. what \<open>store16\<close> and \<open>store32\<close> make on a big-endian machine.
\<close>

record tcp_segment =
  sg_src_port :: u16
  sg_dst_port :: u16
  sg_seq :: u32
  sg_ack :: u32
  sg_reserved :: u8
  sg_flags :: u8
  sg_window_checksum_urgent :: bytes
  sg_options :: bytes
  sg_payload :: bytes

definition wf_segment :: "tcp_segment \<Rightarrow> bool" where
  "wf_segment sg \<longleftrightarrow> length (sg_window_checksum_urgent sg) = 6 \<and>
     length (sg_options sg) mod 4 = 0 \<and> length (sg_options sg) \<le> 40"

definition tcp_header_bytes :: "tcp_segment \<Rightarrow> bytes" where
  "tcp_header_bytes sg =
     store16 False (sg_src_port sg) @ store16 False (sg_dst_port sg) @
     store32 False (sg_seq sg) @ store32 False (sg_ack sg) @
     [push_bit 4 (of_nat (5 + length (sg_options sg) div 4)) OR (sg_reserved sg AND 0x0F), sg_flags sg] @
     sg_window_checksum_urgent sg @ sg_options sg"

record ipv4_packet =
  ip4_tos_to_fragment :: bytes
  ip4_ttl :: u8
  ip4_checksum :: bytes
  ip4_src :: "u8 \<times> u8 \<times> u8 \<times> u8"
  ip4_dst :: "u8 \<times> u8 \<times> u8 \<times> u8"
  ip4_options :: bytes

definition wf_ipv4_packet :: "ipv4_packet \<Rightarrow> bool" where
  "wf_ipv4_packet ip \<longleftrightarrow> length (ip4_tos_to_fragment ip) = 7 \<and> length (ip4_checksum ip) = 2 \<and>
     length (ip4_options ip) mod 4 = 0 \<and> length (ip4_options ip) \<le> 40"

definition quad :: "u8 \<times> u8 \<times> u8 \<times> u8 \<Rightarrow> bytes" where
  "quad = (\<lambda>(a, b, c, d). [a, b, c, d])"

definition ipv4_header_bytes :: "u8 \<Rightarrow> ipv4_packet \<Rightarrow> bytes" where
  "ipv4_header_bytes proto ip =
     [0x40 OR of_nat (5 + length (ip4_options ip) div 4)] @ ip4_tos_to_fragment ip @
     [ip4_ttl ip, proto] @ ip4_checksum ip @ quad (ip4_src ip) @ quad (ip4_dst ip) @ ip4_options ip"

definition ethernet_bytes :: "bytes \<Rightarrow> bytes \<Rightarrow> u16 \<Rightarrow> bytes" where
  "ethernet_bytes dst src ty = dst @ src @ store16 False ty"

lemma word_lists: 
  "length xs = 2 \<longleftrightarrow> (\<exists>a b. xs = [a, b])"
  "length xs = 6 \<longleftrightarrow> (\<exists>a b c d e f. xs = [a, b, c, d, e, f])"
  "length xs = 7 \<longleftrightarrow> (\<exists>a b c d e f g. xs = [a, b, c, d, e, f, g])"
  by (auto simp: eval_nat_numeral length_Suc_conv)

lemma parseTCP_bytes:
  assumes "wf_segment sg"
  shows "parseTCP le (pre @ tcp_header_bytes sg @ post)
           (length pre + length (tcp_header_bytes sg) + length post) pk (length pre) =
         Inr (True, pk\<lparr>pp_src_port := sg_src_port sg, pp_dest_port := sg_dst_port sg,
                       pp_seq_number := sg_seq sg, pp_ack_number := sg_ack sg,
                       pp_tcp_flags := sg_flags sg, pp_has_tcp := True\<rparr>,
              length pre + length (tcp_header_bytes sg))"
proof -
  define n where "n = 5 + length (sg_options sg) div 4"
  define b12 where "b12 = push_bit 4 (of_nat n) OR (sg_reserved sg AND 0x0F)"
  define q where "q = tcp_header_bytes sg @ post"
  from assms have n: "n < 16" "5 \<le> n" "length (sg_options sg) = 4 * n - 20"
    by (auto simp: wf_segment_def n_def)
  from assms obtain w1 w2 w3 w4 w5 w6 where w: "sg_window_checksum_urgent sg = [w1, w2, w3, w4, w5, w6]"
    by (auto simp: wf_segment_def word_lists)
  have len: "length (tcp_header_bytes sg) = 4 * n"
    using n unfolding tcp_header_bytes_def by (simp add: w)
  have b12: "drop_bit 4 b12 AND 0x0F = of_nat n" using n unfolding b12_def by (simp only: nibble_of_nat)
  have d: "\<not> (of_nat n :: u8) < 5" "\<not> (15 < (of_nat n :: u8))"
    using n by (simp_all add: word_less_nat_alt)
  have "\<exists>v. memcpy16 le q 0 = Inr v \<and> netToHost16 le v = sg_src_port sg"
    "\<exists>v. memcpy16 le q 2 = Inr v \<and> netToHost16 le v = sg_dst_port sg"
    "\<exists>v. memcpy32 le q 4 = Inr v \<and> netToHost32 le v = sg_seq sg"
    "\<exists>v. memcpy32 le q 8 = Inr v \<and> netToHost32 le v = sg_ack sg"
    "rd q 12 = Inr b12" "rd q 13 = Inr (sg_flags sg)"
    unfolding q_def tcp_header_bytes_def n_def [symmetric] b12_def [symmetric]
    by (simp_all add: w store16_def store32_def memcpy16_def memcpy32_def be16_bytes be32_bytes rd_def)
  then show ?thesis
    using n d unfolding parseTCP_def q_def [symmetric] memcpy16_append memcpy32_append rd_append
    by (auto simp: len b12 Let_def mult.commute)
qed

lemma parseIPv4_bytes:
  assumes "wf_ipv4_packet ip" and "ip4_src ip = (s1, s2, s3, s4)" and "ip4_dst ip = (d1, d2, d3, d4)"
  shows "parseIPv4 le (pre @ ipv4_header_bytes proto ip @ post)
           (length pre + length (ipv4_header_bytes proto ip) + length post) pk (length pre) =
         Inr (True, pk\<lparr>pp_ip_version := 4, pp_ttl := ip4_ttl ip, pp_protocol := proto,
                       pp_src_ip_raw := load32 le s1 s2 s3 s4, pp_dst_ip_raw := load32 le d1 d2 d3 d4,
                       pp_src_ip := ipToString (load32 le s1 s2 s3 s4),
                       pp_dest_ip := ipToString (load32 le d1 d2 d3 d4), pp_has_ip := True\<rparr>,
              length pre + length (ipv4_header_bytes proto ip))"
proof -
  define n where "n = 5 + length (ip4_options ip) div 4"
  define b0 :: u8 where "b0 = 0x40 OR of_nat n"
  define q where "q = ipv4_header_bytes proto ip @ post"
  from assms have n: "n < 16" "5 \<le> n" "length (ip4_options ip) = 4 * n - 20"
    by (auto simp: wf_ipv4_packet_def n_def)
  from assms obtain t1 t2 t3 t4 t5 t6 t7 c1 c2 where
    w: "ip4_tos_to_fragment ip = [t1, t2, t3, t4, t5, t6, t7]" "ip4_checksum ip = [c1, c2]"
    by (auto simp: wf_ipv4_packet_def word_lists)
  have len: "length (ipv4_header_bytes proto ip) = 4 * n"
    using n unfolding ipv4_header_bytes_def by (simp add: w assms(2,3) quad_def)
  have b0: "drop_bit 4 b0 AND 0x0F = 4" "b0 AND 0x0F = of_nat n"
    using n unfolding b0_def by (simp_all only: nibble_of_nat)
  have "rd q 0 = Inr b0" "rd q 8 = Inr (ip4_ttl ip)" "rd q 9 = Inr proto"
    "memcpy32 le q 12 = Inr (load32 le s1 s2 s3 s4)" "memcpy32 le q 16 = Inr (load32 le d1 d2 d3 d4)"
    unfolding q_def ipv4_header_bytes_def n_def [symmetric] b0_def [symmetric]
    by (simp_all add: w assms(2,3) quad_def memcpy32_def rd_def)
  then show ?thesis
    using n unfolding parseIPv4_def q_def [symmetric]
    by (simp add: len b0 unat_nibble Let_def mult.commute del: unsigned_of_nat)
qed

lemma parseEthernet_bytes:
  assumes "length dst = 6" and "length src = 6"
  shows "parseEthernet le (ethernet_bytes dst src ty @ post)
           (length (ethernet_bytes dst src ty) + length post) pk 0 =
         Inr (True, pk\<lparr>pp_dest_mac := mac_text dst, pp_src_mac := mac_text src, pp_ether_type := ty\<rparr>, 14)"
  using assms unfolding parseEthernet_def ethernet_bytes_def
  by (simp add: macToString_def memcpy16_def rd_def nth_append store16_def be16_bytes)

lemma tcp4_frame_parsed:
  assumes "wf_segment sg" and "wf_ipv4_packet ip" and "length dst_mac = 6" and "length src_mac = 6"
    and "rp_data raw = ethernet_bytes dst_mac src_mac 0x0800 @ ipv4_header_bytes 6 ip @
           tcp_header_bytes sg @ sg_payload sg"
  shows "\<exists>pk. parse le raw = Inr (True, pk) \<and> pp_has_tcp pk \<and> pp_ip_version pk = 4 \<and>
    pp_dest_mac pk = mac_text dst_mac \<and> pp_src_mac pk = mac_text src_mac \<and>
    pp_src_port pk = sg_src_port sg \<and> pp_dest_port pk = sg_dst_port sg \<and>
    pp_seq_number pk = sg_seq sg \<and> pp_ack_number pk = sg_ack sg \<and> pp_tcp_flags pk = sg_flags sg \<and>
    pp_ttl pk = ip4_ttl ip \<and> pp_src_ip_raw pk = load32_at le (quad (ip4_src ip)) 0 \<and>
    pp_dst_ip_raw pk = load32_at le (quad (ip4_dst ip)) 0 \<and>
    pp_payload_data pk = sg_payload sg \<and> pp_payload_length pk = length (sg_payload sg)"
proof -
  obtain s1 s2 s3 s4 d1 d2 d3 d4 where
    q: "ip4_src ip = (s1, s2, s3, s4)" "ip4_dst ip = (d1, d2, d3, d4)"
    by (cases "ip4_src ip"; cases "ip4_dst ip") blast
  let ?e = "ethernet_bytes dst_mac src_mac 0x0800" and ?i = "ipv4_header_bytes 6 ip"
    and ?t = "tcp_header_bytes sg" and ?p = "sg_payload sg"
  have e: "length ?e = 14" using assms by (simp add: ethernet_bytes_def)
  note ip = parseIPv4_bytes [OF assms(2) q, where pre = ?e and post = "?t @ ?p" and proto = 6]
  note tcp = parseTCP_bytes [OF assms(1), where pre = "?e @ ?i" and post = ?p]
  note eth = parseEthernet_bytes [OF assms(3,4), where ty = "0x0800" and post = "?i @ ?t @ ?p"]
  show ?thesis
    unfolding parse_def assms(5) parse_layers_def or_return_def
    using ip tcp eth e
    by (simp add: Let_def q parse_transport4_def quad_def load32_at_def add.assoc empty_packet_def)
qed

text \<open>
  C29. What the parser makes of a TCP segment sent over IPv4 and Ethernet, with arbitrary IP and TCP
  options: it succeeds, and ports, sequence and acknowledgement numbers, flags, TTL, addresses and the
  payload are the sender's.
\<close>

theorem parse_tcp4_frame:
  assumes "wf_segment sg" and "wf_ipv4_packet ip" and "length dst_mac = 6" and "length src_mac = 6"
    and "rp_data raw = ethernet_bytes dst_mac src_mac 0x0800 @ ipv4_header_bytes 6 ip @
           tcp_header_bytes sg @ sg_payload sg"
  shows "\<exists>pk. parse le raw = Inr (True, pk) \<and> pp_has_tcp pk \<and> pp_ip_version pk = 4 \<and>
    pp_dest_mac pk = mac_text dst_mac \<and> pp_src_mac pk = mac_text src_mac \<and>
    pp_src_port pk = sg_src_port sg \<and> pp_dest_port pk = sg_dst_port sg \<and>
    pp_seq_number pk = sg_seq sg \<and> pp_ack_number pk = sg_ack sg \<and> pp_tcp_flags pk = sg_flags sg \<and>
    pp_ttl pk = ip4_ttl ip \<and> pp_src_ip_raw pk = load32_at le (quad (ip4_src ip)) 0 \<and>
    pp_dst_ip_raw pk = load32_at le (quad (ip4_dst ip)) 0 \<and>
    pp_payload_data pk = sg_payload sg \<and> pp_payload_length pk = length (sg_payload sg)"
  using assms by (rule tcp4_frame_parsed)

text \<open>
  The sample is an IPv4 fragment (fragment offset 185): its first bytes are read as a TCP header all the
  same, since the parser never looks at the fragment offset of an IPv4 packet.
\<close>

definition sample_segment :: tcp_segment where
  "sample_segment = \<lparr>sg_src_port = 50000, sg_dst_port = 443, sg_seq = 1000, sg_ack = 0, sg_reserved = 0,
     sg_flags = 0x18, sg_window_checksum_urgent = [1, 2, 3, 4, 0, 0], sg_options = [1, 1, 1, 0],
     sg_payload = [22, 3, 1]\<rparr>"

definition sample_ip :: ipv4_packet where
  "sample_ip = \<lparr>ip4_tos_to_fragment = [0, 0, 47, 0, 1, 0, 185], ip4_ttl = 64, ip4_checksum = [0, 0],
     ip4_src = (10, 0, 0, 1), ip4_dst = (10, 0, 0, 2), ip4_options = []\<rparr>"

definition sample_frame :: RawPacket where
  "sample_frame =
     (let bytes = ethernet_bytes [1, 2, 3, 4, 5, 6] [6, 5, 4, 3, 2, 1] 0x0800 @
        ipv4_header_bytes 6 sample_ip @ tcp_header_bytes sample_segment @ sg_payload sample_segment
      in \<lparr>rp_header = \<lparr>ts_sec = 0, ts_usec = 0, incl_len = of_nat (length bytes),
            orig_len = of_nat (length bytes)\<rparr>, rp_data = bytes\<rparr>)"

theorem parse_tcp4_frame_witness:
  "\<exists>pk. parse True sample_frame = Inr (True, pk) \<and> pp_has_tcp pk \<and> pp_dest_port pk = 443 \<and>
     pp_seq_number pk = 1000 \<and> pp_ttl pk = 64 \<and> pp_payload_data pk = [22, 3, 1]"
  using parse_tcp4_frame [of sample_segment sample_ip "[1, 2, 3, 4, 5, 6]" "[6, 5, 4, 3, 2, 1]" sample_frame True]
  by (auto simp: wf_segment_def wf_ipv4_packet_def sample_frame_def Let_def sample_ip_def sample_segment_def)

section \<open>IPv6 fragments\<close>

lemma rd_bytes_append [simp]: "rd_bytes (pre @ q) (length pre + k) n = rd_bytes q k n"
  by (simp add: rd_bytes_def add.assoc)

lemma fragment_offset_pos:
  assumes "8 \<le> unat w"
  shows "0 < (drop_bit 3 (w AND 0xFFF8) :: u16)"
proof -
  have m: "(0xFFF8 :: u16) = push_bit 3 (mask 13)" by (simp add: mask_eq_exp_minus_1)
  have "drop_bit 3 (w AND 0xFFF8) = drop_bit 3 w"
    unfolding m by (rule bit_word_eqI) (auto simp: bit_simps dest: bit_imp_le_length)
  moreover have "unat (drop_bit 3 w) = unat w div 8"
    using unat_drop_bit_eq [of 3 w] by (simp only: drop_bit_eq_div) simp
  ultimately show ?thesis using assms by (simp add: word_less_nat_alt)
qed

text \<open>The fixed part of an IPv6 header whose next header is a fragment header, and that header.\<close>

record ipv6_fragment =
  f6_class_and_label :: "u8 \<times> u8 \<times> u8 \<times> u8"
  f6_payload_length :: "u8 \<times> u8"
  f6_hop_limit :: u8
  f6_src :: bytes
  f6_dst :: bytes
  f6_protocol :: u8
  f6_reserved :: u8
  f6_offset :: "u8 \<times> u8"
  f6_identification :: "u8 \<times> u8 \<times> u8 \<times> u8"

definition fragment6_bytes :: "ipv6_fragment \<Rightarrow> bytes" where
  "fragment6_bytes fr =
     (case f6_class_and_label fr of (v, a, b, c) \<Rightarrow> [0x60 OR v, a, b, c]) @
     (case f6_payload_length fr of (a, b) \<Rightarrow> [a, b]) @ [44, f6_hop_limit fr] @ f6_src fr @ f6_dst fr @
     [f6_protocol fr, f6_reserved fr] @ (case f6_offset fr of (a, b) \<Rightarrow> [a, b]) @
     quad (f6_identification fr)"

text \<open>Version 6, addresses of 16 bytes, and a fragment offset of at least one unit of 8 bytes.\<close>

definition non_initial_fragment :: "ipv6_fragment \<Rightarrow> bool" where
  "non_initial_fragment fr \<longleftrightarrow> fst (f6_class_and_label fr) < 16 \<and> length (f6_src fr) = 16 \<and>
     length (f6_dst fr) = 16 \<and> 8 \<le> unat (case f6_offset fr of (a, b) \<Rightarrow> be16 a b)"

lemma version6:
  assumes "v < (16 :: u8)"
  shows "drop_bit 4 (0x60 OR v) AND 0x0F = 6"
proof -
  define six :: u8 where "six = 6"
  have "take_bit 4 v = v"
    using assms unfolding word_unat_eq_iff
    by (simp add: unsigned_take_bit_eq take_bit_nat_eq_self word_less_nat_alt)
  then have v: "v = take_bit 4 v" by simp
  have six: "six = take_bit 4 six" "(0x60 :: u8) = push_bit 4 six" and m: "(0x0F :: u8) = mask 4"
    by (simp_all add: six_def take_bit_eq_mask mask_eq_exp_minus_1)
  have "drop_bit 4 (0x60 OR v) AND 0x0F = six"
    unfolding m six(2) by (subst v, subst (1 2) six(1), rule bit_word_eqI) (auto simp: bit_simps)
  then show ?thesis by (simp add: six_def)
qed

lemma walk_fragment:
  assumes "rd data off = Inr nn" and "memcpy16 le data (off + 2) = Inr w" and "8 \<le> unat (netToHost16 le w)"
    and "off + 8 \<le> len"
  shows "walk_loop (Suc n) le data len off 44 pk =
    Inr (59, (flag_ext_header 44 pk)\<lparr>pp_ipv6_ext_unsupported := True, pp_protocol := nn\<rparr>, off + 8)"
proof -
  have "0 < drop_bit 3 (netToHost16 le w AND 0xFFF8)" by (rule fragment_offset_pos [OF assms(3)])
  then show ?thesis
    using assms by (simp add: walk_loop.simps(2) isExtHeader_def Let_def)
qed

lemma parseIPv6_fragment:
  assumes "non_initial_fragment fr"
  shows "\<exists>pk'. parseIPv6 le (pre @ fragment6_bytes fr @ post)
            (length pre + length (fragment6_bytes fr) + length post) pk (length pre) =
          Inr (True, pk', length pre + length (fragment6_bytes fr)) \<and>
        pp_has_ipv6 pk' \<and> pp_protocol pk' = 59 \<and> pp_ipv6_ext_unsupported pk' \<and>
        pp_has_tcp pk' = pp_has_tcp pk \<and> pp_has_udp pk' = pp_has_udp pk \<and>
        pp_has_icmpv6 pk' = pp_has_icmpv6 pk \<and> pp_src_ipv6 pk' = f6_src fr \<and> pp_dst_ipv6 pk' = f6_dst fr \<and>
        pp_payload_data pk' = pp_payload_data pk"
proof -
  obtain v a b c p1 p2 o1 o2 i1 i2 i3 i4 where
    f: "f6_class_and_label fr = (v, a, b, c)" "f6_payload_length fr = (p1, p2)"
      "f6_offset fr = (o1, o2)" "f6_identification fr = (i1, i2, i3, i4)"
    by (metis prod_cases3 prod_cases4 surj_pair)
  have v: "v < 16" and o': "8 \<le> unat (be16 o1 o2)" and l: "length (f6_src fr) = 16" "length (f6_dst fr) = 16"
    using assms f by (simp_all add: non_initial_fragment_def)
  have ver: "drop_bit 4 (0x60 OR v) AND 0x0F = 6" using v by (rule version6)
  define q where "q = fragment6_bytes fr @ post"
  have len: "length (fragment6_bytes fr) = 48" using l by (simp add: fragment6_bytes_def f quad_def)
  have reads: "rd q 0 = Inr (0x60 OR v)" "rd q 1 = Inr a" "rd q 2 = Inr b" "rd q 3 = Inr c"
    "rd q 6 = Inr 44" "rd q 7 = Inr (f6_hop_limit fr)" "rd_bytes q 8 16 = Inr (f6_src fr)"
    "rd_bytes q 24 16 = Inr (f6_dst fr)" "rd q 40 = Inr (f6_protocol fr)"
    "memcpy16 le q 42 = Inr (load16 le o1 o2)"
    using l unfolding q_def fragment6_bytes_def
    by (simp_all add: f quad_def rd_def rd_bytes_def memcpy16_def nth_append)
  define b0 where "b0 = 0x60 OR v"
  have near: "rd (pre @ q) (Suc (length pre)) = Inr a" "rd (pre @ q) (Suc (Suc (length pre))) = Inr b"
    using rd_append(2) [of pre q 1] rd_append(2) [of pre q 2] reads(2,3) by simp_all
  have mem: "memcpy16 le (pre @ q) (length pre + 40 + 2) = Inr (load16 le o1 o2)"
    unfolding add.assoc memcpy16_append using reads(10) by simp
  have walk: "walkIPv6ExtHeaders le (pre @ q) (length pre + 48 + length post) (length pre + 40) 44 p =
      Inr (59, (flag_ext_header 44 p)\<lparr>pp_ipv6_ext_unsupported := True, pp_protocol := f6_protocol fr\<rparr>,
        length pre + 48)" for p
    unfolding walkIPv6ExtHeaders_def
    using walk_fragment [OF _ mem, of "f6_protocol fr" "length pre + 48 + length post" 9 p] reads(9) o'
    by simp
  show ?thesis
    using reads(1-8) near ver
    unfolding parseIPv6_def q_def [symmetric] b0_def [symmetric] len
    by (simp add: Let_def walk flag_ext_header_def)
qed

text \<open>
  A non-initial IPv6 fragment never has a transport layer: whatever the bytes behind the fragment
  header look like, the packet is reported with protocol 59 (no next header), marked as unsupported,
  and its payload is what follows the fragment header. The protocol named in the fragment header, which
  \<open>walkIPv6ExtHeaders\<close> stores for logging, is overwritten by \<open>parseIPv6\<close>.
\<close>

theorem parse_fragment6:
  assumes "non_initial_fragment fr" and "length dst_mac = 6" and "length src_mac = 6"
    and "rp_data raw = ethernet_bytes dst_mac src_mac 0x86DD @ fragment6_bytes fr @ rest"
  shows "\<exists>pk. parse le raw = Inr (True, pk) \<and> pp_has_ipv6 pk \<and> pp_protocol pk = 59 \<and>
    pp_ipv6_ext_unsupported pk \<and> \<not> pp_has_tcp pk \<and> \<not> pp_has_udp pk \<and> \<not> pp_has_icmpv6 pk \<and>
    pp_src_ipv6 pk = f6_src fr \<and> pp_dst_ipv6 pk = f6_dst fr \<and> pp_payload_data pk = rest"
proof -
  let ?e = "ethernet_bytes dst_mac src_mac 0x86DD"
  let ?pk = "empty_packet\<lparr>pp_timestamp_sec := ts_sec (rp_header raw), pp_timestamp_usec := ts_usec (rp_header raw),
    pp_dest_mac := mac_text dst_mac, pp_src_mac := mac_text src_mac, pp_ether_type := 0x86DD\<rparr>"
  have e: "length ?e = 14" using assms by (simp add: ethernet_bytes_def)
  note eth = parseEthernet_bytes [OF assms(2,3), where ty = "0x86DD" and post = "fragment6_bytes fr @ rest"]
  obtain pk where pk: "parseIPv6 le (rp_data raw) (length (rp_data raw)) ?pk 14 =
      Inr (True, pk, 14 + length (fragment6_bytes fr))"
    and p: "pp_has_ipv6 pk" "pp_protocol pk = 59" "pp_ipv6_ext_unsupported pk" "\<not> pp_has_tcp pk" "\<not> pp_has_udp pk"
      "\<not> pp_has_icmpv6 pk" "pp_src_ipv6 pk = f6_src fr" "pp_dst_ipv6 pk = f6_dst fr" "pp_payload_data pk = []"
    using parseIPv6_fragment [OF assms(1), of le ?e rest ?pk] e assms(4)
    by (auto simp: empty_packet_def add.assoc)
  then have layers: "parse_layers le (rp_data raw) (length (rp_data raw))
        (empty_packet\<lparr>pp_timestamp_sec := ts_sec (rp_header raw), pp_timestamp_usec := ts_usec (rp_header raw)\<rparr>) =
      Inr (True, pk, 14 + length (fragment6_bytes fr))"
    using eth e assms(4) by (simp add: parse_layers_def or_return_def parse_transport6_def add.assoc)
  then show ?thesis
    using p assms(4) e by (auto simp: parse_def Let_def)
qed

text \<open>A fragment whose data looks like a TCP header with port 443 is not read as one.\<close>

definition sample_fragment :: ipv6_fragment where
  "sample_fragment = \<lparr>f6_class_and_label = (0, 0, 0, 0), f6_payload_length = (0, 28), f6_hop_limit = 64,
     f6_src = replicate 16 1, f6_dst = replicate 16 2, f6_protocol = 6, f6_reserved = 0, f6_offset = (0, 9),
     f6_identification = (0, 0, 0, 7)\<rparr>"

definition sample_fragment_frame :: RawPacket where
  "sample_fragment_frame =
     (let bytes = ethernet_bytes (replicate 6 1) (replicate 6 2) 0x86DD @ fragment6_bytes sample_fragment @
        tcp_header_bytes sample_segment
      in \<lparr>rp_header = \<lparr>ts_sec = 0, ts_usec = 0, incl_len = of_nat (length bytes),
            orig_len = of_nat (length bytes)\<rparr>, rp_data = bytes\<rparr>)"

theorem parse_fragment6_witness:
  "\<exists>pk. parse True sample_fragment_frame = Inr (True, pk) \<and> pp_protocol pk = 59 \<and> \<not> pp_has_tcp pk \<and>
     pp_payload_data pk = tcp_header_bytes sample_segment"
proof -
  have "non_initial_fragment sample_fragment"
    by (simp add: non_initial_fragment_def sample_fragment_def unat_be16)
  then show ?thesis
    using parse_fragment6 [of sample_fragment "replicate 6 1" "replicate 6 2" sample_fragment_frame
        "tcp_header_bytes sample_segment" True]
    by (auto simp: sample_fragment_frame_def Let_def)
qed

end
