(* ===== verification/Rules.thy ===== *)
theory Rules
  imports App_Types Net_Utils
begin

text \<open>
  The rule manager of \<open>include/rule_manager.h\<close> and \<open>src/rule_manager.cpp\<close>: sets of blocked addresses,
  applications, domains and ports, the matching of a domain against the rules, and their persistence
  as a text file. The locks make each operation atomic; an operation is a function of the state.
\<close>

section \<open>The contract of a rule set\<close>

text \<open>
  Addresses, applications and ports are kept in hash sets with the same three operations. What a
  client may rely on is stated once.
\<close>

locale rule_set =
  fixes member :: "'r \<Rightarrow> 'x \<Rightarrow> bool" and add :: "'x \<Rightarrow> 'r \<Rightarrow> 'r" and del :: "'x \<Rightarrow> 'r \<Rightarrow> 'r"
  assumes member_add: "member (add x r) y \<longleftrightarrow> y = x \<or> member r y"
    and member_del: "member (del x r) y \<longleftrightarrow> y \<noteq> x \<and> member r y"
begin

lemma added: "member (add x r) x"
  by (simp add: member_add)

lemma deleted: "\<not> member (del x r) x"
  by (simp add: member_del)

lemma add_keeps: "member r y \<Longrightarrow> member (add x r) y"
  by (simp add: member_add)

lemma del_only: "y \<noteq> x \<Longrightarrow> member (del x r) y = member r y"
  by (simp add: member_del)

lemma last_wins:
  "member (del x (add x r)) y \<longleftrightarrow> y \<noteq> x \<and> member r y"
  "member (add x (del x r)) y \<longleftrightarrow> y = x \<or> member r y"
  by (auto simp: member_add member_del)

lemma member_fold_add: "member (fold add xs r) y \<longleftrightarrow> y \<in> set xs \<or> member r y"
  by (induction xs arbitrary: r) (auto simp: member_add)

end

section \<open>State and operations\<close>

record RuleManager =
  rm_blocked_ips :: "u32 list"
  rm_blocked_apps :: "AppType list"
  rm_blocked_domains :: "string list"
  rm_domain_patterns :: "string list"
  rm_blocked_ports :: "u16 list"

definition no_rules :: RuleManager where
  "no_rules = \<lparr>rm_blocked_ips = [], rm_blocked_apps = [], rm_blocked_domains = [],
               rm_domain_patterns = [], rm_blocked_ports = []\<rparr>"

definition blockIP :: "u32 \<Rightarrow> RuleManager \<Rightarrow> RuleManager" where
  "blockIP ip rm = rm\<lparr>rm_blocked_ips := uset_insert ip (rm_blocked_ips rm)\<rparr>"

definition blockIP_text :: "string \<Rightarrow> RuleManager \<Rightarrow> RuleManager res" where
  "blockIP_text ip rm = rbind (parseIPv4Address ip) (\<lambda>a. Inr (blockIP a rm))"

definition unblockIP :: "u32 \<Rightarrow> RuleManager \<Rightarrow> RuleManager" where
  "unblockIP ip rm = rm\<lparr>rm_blocked_ips := uset_erase ip (rm_blocked_ips rm)\<rparr>"

definition unblockIP_text :: "string \<Rightarrow> RuleManager \<Rightarrow> RuleManager res" where
  "unblockIP_text ip rm = rbind (parseIPv4Address ip) (\<lambda>a. Inr (unblockIP a rm))"

definition isIPBlocked :: "RuleManager \<Rightarrow> u32 \<Rightarrow> bool" where
  "isIPBlocked rm ip \<longleftrightarrow> ip \<in> set (rm_blocked_ips rm)"

definition getBlockedIPs :: "RuleManager \<Rightarrow> string list" where
  "getBlockedIPs rm = map ipv4ToString (rm_blocked_ips rm)"

definition blockApp :: "AppType \<Rightarrow> RuleManager \<Rightarrow> RuleManager" where
  "blockApp app rm = rm\<lparr>rm_blocked_apps := uset_insert app (rm_blocked_apps rm)\<rparr>"

definition unblockApp :: "AppType \<Rightarrow> RuleManager \<Rightarrow> RuleManager" where
  "unblockApp app rm = rm\<lparr>rm_blocked_apps := uset_erase app (rm_blocked_apps rm)\<rparr>"

definition isAppBlocked :: "RuleManager \<Rightarrow> AppType \<Rightarrow> bool" where
  "isAppBlocked rm app \<longleftrightarrow> app \<in> set (rm_blocked_apps rm)"

definition getBlockedApps :: "RuleManager \<Rightarrow> AppType list" where
  "getBlockedApps rm = rm_blocked_apps rm"

definition blockPort :: "u16 \<Rightarrow> RuleManager \<Rightarrow> RuleManager" where
  "blockPort port rm = rm\<lparr>rm_blocked_ports := uset_insert port (rm_blocked_ports rm)\<rparr>"

definition unblockPort :: "u16 \<Rightarrow> RuleManager \<Rightarrow> RuleManager" where
  "unblockPort port rm = rm\<lparr>rm_blocked_ports := uset_erase port (rm_blocked_ports rm)\<rparr>"

definition isPortBlocked :: "RuleManager \<Rightarrow> u16 \<Rightarrow> bool" where
  "isPortBlocked rm port \<longleftrightarrow> port \<in> set (rm_blocked_ports rm)"

interpretation ips: rule_set isIPBlocked blockIP unblockIP
  by unfold_locales (auto simp: isIPBlocked_def blockIP_def unblockIP_def)

interpretation apps: rule_set isAppBlocked blockApp unblockApp
  by unfold_locales (auto simp: isAppBlocked_def blockApp_def unblockApp_def)

interpretation ports: rule_set isPortBlocked blockPort unblockPort
  by unfold_locales (auto simp: isPortBlocked_def blockPort_def unblockPort_def)

text \<open>Lower case, and without the dot a fully qualified name ends in.\<close>

definition normalize_rule :: "string \<Rightarrow> string" where
  "normalize_rule domain =
     (let d = map to_lower domain in if d \<noteq> [] \<and> last d = CHR ''.'' then butlast d else d)"

definition blockDomain :: "string \<Rightarrow> RuleManager \<Rightarrow> RuleManager" where
  "blockDomain domain rm =
     (let d = normalize_rule domain in
      if CHR ''*'' \<in> set d then rm\<lparr>rm_domain_patterns := rm_domain_patterns rm @ [d]\<rparr>
      else rm\<lparr>rm_blocked_domains := uset_insert d (rm_blocked_domains rm)\<rparr>)"

text \<open>\<open>std::find\<close> and \<open>erase\<close>: the first occurrence goes.\<close>

definition unblockDomain :: "string \<Rightarrow> RuleManager \<Rightarrow> RuleManager" where
  "unblockDomain domain rm =
     (let d = normalize_rule domain in
      if CHR ''*'' \<in> set d then rm\<lparr>rm_domain_patterns := remove1 d (rm_domain_patterns rm)\<rparr>
      else rm\<lparr>rm_blocked_domains := uset_erase d (rm_blocked_domains rm)\<rparr>)"

definition domainMatchesPattern :: "string \<Rightarrow> string \<Rightarrow> bool" where
  "domainMatchesPattern domain pattern \<longleftrightarrow>
     length pattern \<ge> 2 \<and> pattern ! 0 = CHR ''*'' \<and> pattern ! 1 = CHR ''.'' \<and>
     (let suffix = drop 1 pattern in
      length domain \<ge> length suffix \<and>
        take (length suffix) (drop (length domain - length suffix) domain) = suffix \<or>
      domain = drop 2 pattern)"

definition subdomain_of_entry :: "string \<Rightarrow> string \<Rightarrow> bool" where
  "subdomain_of_entry lower_domain entry \<longleftrightarrow>
     length lower_domain > length entry + 1 \<and>
     (let dot_pos = length lower_domain - length entry - 1 in
      lower_domain ! dot_pos = CHR ''.'' \<and>
      take (length entry) (drop (dot_pos + 1) lower_domain) = entry)"

definition isDomainBlocked :: "RuleManager \<Rightarrow> string \<Rightarrow> bool" where
  "isDomainBlocked rm domain =
     (if domain = [] then False else
      let lower_domain = normalize_rule domain in
      if lower_domain \<in> set (rm_blocked_domains rm) then True
      else if list_ex (subdomain_of_entry lower_domain) (rm_blocked_domains rm) then True
      else list_ex (\<lambda>pattern. domainMatchesPattern lower_domain (map to_lower pattern))
             (rm_domain_patterns rm))"

definition getBlockedDomains :: "RuleManager \<Rightarrow> string list" where
  "getBlockedDomains rm = rm_blocked_domains rm @ rm_domain_patterns rm"

datatype BlockType = BLOCK_IP | BLOCK_APP | BLOCK_DOMAIN | BLOCK_PORT

definition shouldBlock ::
  "RuleManager \<Rightarrow> u32 \<Rightarrow> u16 \<Rightarrow> AppType \<Rightarrow> string \<Rightarrow> (BlockType \<times> string) option" where
  "shouldBlock rm src_ip dst_port app domain =
     (if isIPBlocked rm src_ip then Some (BLOCK_IP, ipv4ToString src_ip)
      else if isPortBlocked rm dst_port then Some (BLOCK_PORT, to_string (unat dst_port))
      else if isAppBlocked rm app then Some (BLOCK_APP, appTypeToString app)
      else if domain \<noteq> [] \<and> isDomainBlocked rm domain then Some (BLOCK_DOMAIN, domain)
      else None)"

definition clearAll :: "RuleManager \<Rightarrow> RuleManager" where
  "clearAll rm = rm\<lparr>rm_blocked_ips := [], rm_blocked_apps := [], rm_blocked_domains := [],
                    rm_domain_patterns := [], rm_blocked_ports := []\<rparr>"

record RuleStats =
  rs_blocked_ips :: nat
  rs_blocked_apps :: nat
  rs_blocked_domains :: nat
  rs_blocked_ports :: nat

definition rule_stats :: "RuleManager \<Rightarrow> RuleStats" where
  "rule_stats rm =
     \<lparr>rs_blocked_ips = length (rm_blocked_ips rm), rs_blocked_apps = length (rm_blocked_apps rm),
      rs_blocked_domains = length (rm_blocked_domains rm) + length (rm_domain_patterns rm),
      rs_blocked_ports = length (rm_blocked_ports rm)\<rparr>"

section \<open>Persistence\<close>

definition saveRules :: "RuleManager \<Rightarrow> string" where
  "saveRules rm =
     put_line ''[BLOCKED_IPS]'' @ concat (map put_line (getBlockedIPs rm)) @
     put_line [] @ put_line ''[BLOCKED_APPS]'' @
     concat (map (\<lambda>app. put_line (appTypeToString app)) (getBlockedApps rm)) @
     put_line [] @ put_line ''[BLOCKED_DOMAINS]'' @ concat (map put_line (getBlockedDomains rm)) @
     put_line [] @ put_line ''[BLOCKED_PORTS]'' @
     concat (map (\<lambda>port. put_line (to_string (unat port))) (rm_blocked_ports rm))"

text \<open>One round of the loop of \<open>loadRules\<close>: the current section and the rules so far.\<close>

definition load_line :: "string \<Rightarrow> string \<times> RuleManager \<Rightarrow> (string \<times> RuleManager) res" where
  "load_line line = (\<lambda>(current_section, rm).
     if line = [] then Inr (current_section, rm)
     else if line ! 0 = CHR ''['' then Inr (line, rm)
     else if current_section = ''[BLOCKED_IPS]'' then
       rbind (blockIP_text line rm) (\<lambda>rm. Inr (current_section, rm))
     else if current_section = ''[BLOCKED_APPS]'' then
       Inr (current_section, case app_by_name line of None \<Rightarrow> rm | Some app \<Rightarrow> blockApp app rm)
     else if current_section = ''[BLOCKED_DOMAINS]'' then Inr (current_section, blockDomain line rm)
     else if current_section = ''[BLOCKED_PORTS]'' then
       rbind (stoi line) (\<lambda>v. Inr (current_section, blockPort (of_int v) rm))
     else Inr (current_section, rm))"

fun load_lines :: "string list \<Rightarrow> string \<times> RuleManager \<Rightarrow> (string \<times> RuleManager) res" where
  "load_lines [] st = Inr st"
| "load_lines (line # lines) st = rbind (load_line line st) (load_lines lines)"

definition loadRules :: "string \<Rightarrow> RuleManager \<Rightarrow> RuleManager res" where
  "loadRules content rm = rbind (load_lines (getlines content) ([], rm)) (\<lambda>(_, rm). Inr rm)"

section \<open>What a domain rule blocks\<close>

text \<open>A host is under a name when it is the name or ends in a dot and the name.\<close>

definition under :: "string \<Rightarrow> string \<Rightarrow> bool" where
  "under host name \<longleftrightarrow> host = name \<or> (\<exists>p. host = p @ CHR ''.'' # name)"

lemma subdomain_of_entry_iff:
  "subdomain_of_entry host name \<longleftrightarrow> (\<exists>p. p \<noteq> [] \<and> host = p @ CHR ''.'' # name)"
proof (cases "length name < length host")
  case True
  show ?thesis
  proof
    assume "subdomain_of_entry host name"
    then have l: "length host > length name + 1" and
      m: "host ! (length host - length name - 1) = CHR ''.'' \<and>
        take (length name) (drop (length host - length name - 1 + 1) host) = name"
      by (simp_all add: subdomain_of_entry_def Let_def)
    from m obtain p where "host = p @ CHR ''.'' # name"
      unfolding suffix_at_dot_iff [OF True] by blast
    with l show "\<exists>p. p \<noteq> [] \<and> host = p @ CHR ''.'' # name" by (intro exI [of _ p]) auto
  next
    assume "\<exists>p. p \<noteq> [] \<and> host = p @ CHR ''.'' # name"
    then obtain p where p: "p \<noteq> []" "host = p @ CHR ''.'' # name" by blast
    then show "subdomain_of_entry host name"
      using suffix_at_dot_iff [OF True, of "CHR ''.''"]
      unfolding subdomain_of_entry_def Let_def by auto
  qed
qed (auto simp: subdomain_of_entry_def)

lemma ends_with_iff:
  "length s \<le> length host \<and> take (length s) (drop (length host - length s) host) = s \<longleftrightarrow>
     (\<exists>q. host = q @ s)"
proof
  assume a: "length s \<le> length host \<and> take (length s) (drop (length host - length s) host) = s"
  then have "drop (length host - length s) host = s" by simp
  then show "\<exists>q. host = q @ s" by (metis append_take_drop_id)
qed auto

lemma domainMatchesPattern_iff:
  "domainMatchesPattern host pattern \<longleftrightarrow>
     (\<exists>base. pattern = CHR ''*'' # CHR ''.'' # base \<and> under host base)"
proof (cases "\<exists>base. pattern = CHR ''*'' # CHR ''.'' # base")
  case True
  then obtain base where p: "pattern = CHR ''*'' # CHR ''.'' # base" by blast
  show ?thesis
    using ends_with_iff [of "CHR ''.'' # base" host]
    unfolding domainMatchesPattern_def p under_def Let_def by auto
next
  case False
  then show ?thesis
    by (cases pattern rule: remdups_adj.cases) (auto simp: domainMatchesPattern_def)
qed

lemma isDomainBlocked_spec:
  "isDomainBlocked rm domain \<longleftrightarrow>
     domain \<noteq> [] \<and>
     ((\<exists>name \<in> set (rm_blocked_domains rm). normalize_rule domain = name \<or>
         (\<exists>p. p \<noteq> [] \<and> normalize_rule domain = p @ CHR ''.'' # name)) \<or>
      (\<exists>pattern \<in> set (rm_domain_patterns rm). \<exists>base.
         map to_lower pattern = CHR ''*'' # CHR ''.'' # base \<and> under (normalize_rule domain) base))"
  by (auto simp: isDomainBlocked_def Let_def list_ex_iff subdomain_of_entry_iff domainMatchesPattern_iff)

text \<open>
  C7. Domain blocking as a specification. With both sides in lower case and without a final dot, a
  non-empty domain is blocked exactly when a domain rule is the domain itself or a proper parent of
  it at a dot, or when a pattern \<open>*.base\<close> has the domain at or below its base. So a rule never
  matches across a label boundary, and a pattern of any other shape never matches.
\<close>

theorem isDomainBlocked_iff:
  "isDomainBlocked rm domain \<longleftrightarrow>
     domain \<noteq> [] \<and>
     ((\<exists>name \<in> set (rm_blocked_domains rm). normalize_rule domain = name \<or>
         (\<exists>p. p \<noteq> [] \<and> normalize_rule domain = p @ CHR ''.'' # name)) \<or>
      (\<exists>pattern \<in> set (rm_domain_patterns rm). \<exists>base.
         map to_lower pattern = CHR ''*'' # CHR ''.'' # base \<and> under (normalize_rule domain) base))"
  by (rule isDomainBlocked_spec)

lemma normalize_rule_to_lower [simp]: "normalize_rule (map to_lower d) = normalize_rule d"
  by (simp add: normalize_rule_def comp_def)

lemma normalize_rule_lower: "map to_lower (normalize_rule d) = normalize_rule d"
  by (simp add: normalize_rule_def Let_def comp_def map_butlast)

text \<open>
  What blocking a plain domain changes: afterwards a domain is blocked exactly if it was blocked
  before or is, whatever its letter case or final dot, the blocked name or below it.
\<close>

theorem blockDomain_effect:
  assumes "CHR ''*'' \<notin> set domain"
  shows "isDomainBlocked (blockDomain domain rm) host \<longleftrightarrow>
    isDomainBlocked rm host \<or>
    host \<noteq> [] \<and> (normalize_rule host = normalize_rule domain \<or>
      (\<exists>p. p \<noteq> [] \<and> normalize_rule host = p @ CHR ''.'' # normalize_rule domain))"
proof -
  have "CHR ''*'' \<notin> to_lower ` set domain"
  proof
    assume "CHR ''*'' \<in> to_lower ` set domain"
    then obtain c where "c \<in> set domain" "to_lower c = CHR ''*''" by (metis imageE)
    moreover have "to_lower c = CHR ''*'' \<longleftrightarrow> c = CHR ''*''" by (subst to_lower_eq_iff) simp_all
    ultimately show False using assms by simp
  qed
  then have "CHR ''*'' \<notin> set (normalize_rule domain)"
    by (auto simp: normalize_rule_def Let_def dest: in_set_butlastD)
  then show ?thesis
    by (auto simp: isDomainBlocked_spec blockDomain_def Let_def)
qed

theorem blockDomain_effect_witness:
  "isDomainBlocked (blockDomain ''Evil.COM.'' no_rules) ''www.evil.com'' \<longleftrightarrow>
    isDomainBlocked no_rules ''www.evil.com'' \<or>
    ''www.evil.com'' \<noteq> [] \<and> (normalize_rule ''www.evil.com'' = normalize_rule ''Evil.COM.'' \<or>
      (\<exists>p. p \<noteq> [] \<and> normalize_rule ''www.evil.com'' = p @ CHR ''.'' # normalize_rule ''Evil.COM.''))"
  by (rule blockDomain_effect) simp

text \<open>
  A rule with a star anywhere but in a leading \<open>*.\<close> is accepted and stored, but blocks nothing.
\<close>

theorem other_wildcards_inert:
  assumes "CHR ''*'' \<in> set (normalize_rule domain)"
    and "take 2 (normalize_rule domain) \<noteq> ''*.''"
  shows "isDomainBlocked (blockDomain domain rm) host = isDomainBlocked rm host \<and>
    length (rm_domain_patterns (blockDomain domain rm)) = Suc (length (rm_domain_patterns rm))"
  using assms by (auto simp: isDomainBlocked_spec blockDomain_def Let_def normalize_rule_lower)

theorem other_wildcards_inert_witness:
  "isDomainBlocked (blockDomain ''ads*.shop'' no_rules) ''ads1.shop'' = isDomainBlocked no_rules ''ads1.shop'' \<and>
    length (rm_domain_patterns (blockDomain ''ads*.shop'' no_rules)) =
      Suc (length (rm_domain_patterns no_rules))"
  by (rule other_wildcards_inert) (simp_all add: normalize_rule_def to_lower_def)

text \<open>
  \<open>shouldBlock\<close> reports a reason exactly when a rule applies, and the one of highest priority:
  address before port before application before domain.
\<close>

theorem shouldBlock_iff:
  "(shouldBlock rm ip port app domain = None \<longleftrightarrow>
      \<not> isIPBlocked rm ip \<and> \<not> isPortBlocked rm port \<and> \<not> isAppBlocked rm app \<and>
      \<not> isDomainBlocked rm domain) \<and>
   (\<forall>t d. shouldBlock rm ip port app domain = Some (t, d) \<longleftrightarrow>
      t = BLOCK_IP \<and> isIPBlocked rm ip \<and> d = ipv4ToString ip \<or>
      t = BLOCK_PORT \<and> \<not> isIPBlocked rm ip \<and> isPortBlocked rm port \<and> d = to_string (unat port) \<or>
      t = BLOCK_APP \<and> \<not> isIPBlocked rm ip \<and> \<not> isPortBlocked rm port \<and> isAppBlocked rm app \<and>
        d = appTypeToString app \<or>
      t = BLOCK_DOMAIN \<and> \<not> isIPBlocked rm ip \<and> \<not> isPortBlocked rm port \<and> \<not> isAppBlocked rm app \<and>
        isDomainBlocked rm domain \<and> d = domain)"
proof -
  have "isDomainBlocked rm [] = False" by (simp add: isDomainBlocked_def)
  then have "domain \<noteq> [] \<and> isDomainBlocked rm domain \<longleftrightarrow> isDomainBlocked rm domain" by auto
  then show ?thesis unfolding shouldBlock_def by auto
qed

section \<open>Saved rules come back\<close>

definition storable :: "string \<Rightarrow> bool" where
  "storable d \<longleftrightarrow> d \<noteq> [] \<and> hd d \<noteq> CHR ''['' \<and> newline \<notin> set d \<and> normalize_rule d = d"

definition wf_rules :: "RuleManager \<Rightarrow> bool" where
  "wf_rules rm \<longleftrightarrow>
     distinct (rm_blocked_ips rm) \<and> distinct (rm_blocked_apps rm) \<and>
     distinct (rm_blocked_domains rm) \<and> distinct (rm_blocked_ports rm) \<and>
     APP_COUNT \<notin> set (rm_blocked_apps rm) \<and>
     (\<forall>d \<in> set (rm_blocked_domains rm). storable d \<and> CHR ''*'' \<notin> set d) \<and>
     (\<forall>d \<in> set (rm_domain_patterns rm). storable d \<and> CHR ''*'' \<in> set d)"

text \<open>Every operation keeps the well-formedness, as long as domains are stored in a form a line can hold.\<close>

lemma wf_no_rules [simp]: "wf_rules no_rules"
  by (simp add: wf_rules_def no_rules_def)

lemma wf_clearAll [simp]: "wf_rules (clearAll rm)"
  by (simp add: wf_rules_def clearAll_def)

lemma wf_blockIP [simp]: "wf_rules rm \<Longrightarrow> wf_rules (blockIP ip rm)"
  "wf_rules rm \<Longrightarrow> wf_rules (unblockIP ip rm)"
  by (auto simp: wf_rules_def blockIP_def unblockIP_def)

lemma wf_blockPort [simp]: "wf_rules rm \<Longrightarrow> wf_rules (blockPort port rm)"
  "wf_rules rm \<Longrightarrow> wf_rules (unblockPort port rm)"
  by (auto simp: wf_rules_def blockPort_def unblockPort_def)

lemma wf_blockApp [simp]: "wf_rules rm \<Longrightarrow> app \<noteq> APP_COUNT \<Longrightarrow> wf_rules (blockApp app rm)"
  "wf_rules rm \<Longrightarrow> wf_rules (unblockApp app rm)"
  by (auto simp: wf_rules_def blockApp_def unblockApp_def)

lemma wf_blockDomain:
  "wf_rules rm \<Longrightarrow> storable (normalize_rule d) \<Longrightarrow> wf_rules (blockDomain d rm)"
  "wf_rules rm \<Longrightarrow> wf_rules (unblockDomain d rm)"
  by (auto simp: wf_rules_def blockDomain_def unblockDomain_def Let_def dest: notin_set_remove1
      set_remove1_subset [THEN subsetD])

lemma fold_uset_insert: "distinct (ys @ xs) \<Longrightarrow> fold uset_insert xs ys = ys @ xs"
  by (induction xs arbitrary: ys) (auto simp: uset_insert_def)

lemma fold_blockIP: "fold blockIP xs rm = rm\<lparr>rm_blocked_ips := fold uset_insert xs (rm_blocked_ips rm)\<rparr>"
  by (induction xs arbitrary: rm) (simp_all add: blockIP_def)

lemma fold_blockApp: "fold blockApp xs rm = rm\<lparr>rm_blocked_apps := fold uset_insert xs (rm_blocked_apps rm)\<rparr>"
  by (induction xs arbitrary: rm) (simp_all add: blockApp_def)

lemma fold_blockPort: "fold blockPort xs rm = rm\<lparr>rm_blocked_ports := fold uset_insert xs (rm_blocked_ports rm)\<rparr>"
  by (induction xs arbitrary: rm) (simp_all add: blockPort_def)

lemma fold_blockDomain_plain:
  "\<forall>d \<in> set xs. normalize_rule d = d \<and> CHR ''*'' \<notin> set d \<Longrightarrow>
     fold blockDomain xs rm = rm\<lparr>rm_blocked_domains := fold uset_insert xs (rm_blocked_domains rm)\<rparr>"
  by (induction xs arbitrary: rm) (simp_all add: blockDomain_def)

lemma fold_blockDomain_patterns:
  "\<forall>d \<in> set xs. normalize_rule d = d \<and> CHR ''*'' \<in> set d \<Longrightarrow>
     fold blockDomain xs rm = rm\<lparr>rm_domain_patterns := rm_domain_patterns rm @ xs\<rparr>"
  by (induction xs arbitrary: rm) (simp_all add: blockDomain_def)

lemma load_lines_append: "load_lines (xs @ ys) st = rbind (load_lines xs st) (load_lines ys)"
proof (induction xs arbitrary: st)
  case (Cons x xs)
  then show ?case by (cases "load_line x st") simp_all
qed simp

text \<open>A section whose lines are each read by an operation.\<close>

lemma load_lines_section:
  assumes "\<And>x rm. x \<in> set xs \<Longrightarrow> load_line (f x) (sec, rm) = Inr (sec, g x rm)"
  shows "load_lines (map f xs) (sec, rm) = Inr (sec, fold g xs rm)"
  using assms by (induction xs arbitrary: rm) simp_all

lemma to_string_hd: "\<exists>c cs. to_string n = c # cs \<and> is_digit c"
  using to_string_digits [of _ n] by (cases "to_string n") auto

lemma is_digit_plain: "is_digit c \<Longrightarrow> c \<noteq> CHR ''['' \<and> c \<noteq> newline"
  by (auto simp: is_digit_def newline_def)

lemma ipv4ToString_plain:
  "newline \<notin> set (ipv4ToString ip) \<and> ipv4ToString ip \<noteq> [] \<and> ipv4ToString ip ! 0 \<noteq> CHR ''[''"
proof -
  obtain c cs where c: "to_string (unat (drop_bit 0 ip AND 0xFF)) = c # cs" "is_digit c"
    using to_string_hd by blast
  have n: "newline \<notin> set (to_string n)" for n
    using to_string_digits is_digit_plain by blast
  then have "newline \<notin> set (c # cs)" using c(1) by metis
  with n show ?thesis
    using is_digit_plain [OF c(2)] unfolding ipv4ToString_def c(1) by (simp add: newline_def)
qed

lemma to_string_plain:
  "newline \<notin> set (to_string n) \<and> to_string n \<noteq> [] \<and> to_string n ! 0 \<noteq> CHR ''[''"
  using to_string_hd [of n] to_string_digits [of _ n] is_digit_plain by auto

lemma load_lines_ips:
  "load_lines (map ipv4ToString ips) (''[BLOCKED_IPS]'', rm) = Inr (''[BLOCKED_IPS]'', fold blockIP ips rm)"
  by (rule load_lines_section) (simp add: load_line_def ipv4ToString_plain blockIP_text_def parse_ipv4ToString)

lemma load_lines_apps:
  assumes "APP_COUNT \<notin> set apps"
  shows "load_lines (map appTypeToString apps) (''[BLOCKED_APPS]'', rm) =
    Inr (''[BLOCKED_APPS]'', fold blockApp apps rm)"
proof (rule load_lines_section)
  fix a rm assume "a \<in> set apps"
  then have "app_by_name (appTypeToString a) = Some a" using assms app_by_name_appTypeToString by metis
  then show "load_line (appTypeToString a) (''[BLOCKED_APPS]'', rm) = Inr (''[BLOCKED_APPS]'', blockApp a rm)"
    using appTypeToString_plain [of a] hd_conv_nth [of "appTypeToString a"] by (simp add: load_line_def)
qed

lemma load_lines_domains:
  assumes "\<forall>d \<in> set ds. storable d"
  shows "load_lines ds (''[BLOCKED_DOMAINS]'', rm) = Inr (''[BLOCKED_DOMAINS]'', fold blockDomain ds rm)"
proof -
  have "load_lines (map (\<lambda>d. d) ds) (''[BLOCKED_DOMAINS]'', rm) =
      Inr (''[BLOCKED_DOMAINS]'', fold blockDomain ds rm)"
    by (rule load_lines_section) (use assms in \<open>auto simp: load_line_def storable_def hd_conv_nth\<close>)
  then show ?thesis by simp
qed

lemma load_lines_ports:
  "load_lines (map (\<lambda>p. to_string (unat p)) ports) (''[BLOCKED_PORTS]'', rm) =
    Inr (''[BLOCKED_PORTS]'', fold blockPort ports rm)"
proof (rule load_lines_section)
  fix p :: u16 and rm
  have "stoi (to_string (unat p)) = Inr (int (unat p))"
    by (rule stoi_to_string) (rule order.strict_trans [OF unat_u16_less], simp)
  then show "load_line (to_string (unat p)) (''[BLOCKED_PORTS]'', rm) = Inr (''[BLOCKED_PORTS]'', blockPort p rm)"
    using to_string_plain by (simp add: load_line_def)
qed

lemma load_line_header:
  "load_line (CHR ''['' # cs) (sec, rm) = Inr (CHR ''['' # cs, rm)"
  "load_line [] (sec, rm) = Inr (sec, rm)"
  by (simp_all add: load_line_def)

lemma getlines_saveRules:
  assumes "\<forall>d \<in> set (getBlockedDomains rm). newline \<notin> set d"
  shows "getlines (saveRules rm) =
    [''[BLOCKED_IPS]''] @ map ipv4ToString (rm_blocked_ips rm) @
    [[], ''[BLOCKED_APPS]''] @ map appTypeToString (rm_blocked_apps rm) @
    [[], ''[BLOCKED_DOMAINS]''] @ getBlockedDomains rm @
    [[], ''[BLOCKED_PORTS]''] @ map (\<lambda>p. to_string (unat p)) (rm_blocked_ports rm)"
  (is "_ = ?lines")
proof -
  have 1: "saveRules rm = concat (map put_line ?lines) @ []"
    by (simp add: saveRules_def getBlockedIPs_def getBlockedApps_def comp_def)
  have 2: "newline \<notin> set l" if "l \<in> set ?lines" for l
    using that assms ipv4ToString_plain appTypeToString_plain to_string_plain
    by (auto simp: newline_def)
  show ?thesis
    unfolding 1 by (rule trans [OF getlines_put_lines]) (use 2 in simp_all)
qed

text \<open>
  C38. Rules survive being saved and loaded: loading the file that \<open>saveRules\<close> writes for well-formed
  rules into an empty manager gives exactly these rules back, in the same order.
\<close>

theorem rules_roundtrip:
  assumes "wf_rules rm"
  shows "loadRules (saveRules rm) no_rules = Inr rm"
proof -
  have wf: "distinct (rm_blocked_ips rm)" "distinct (rm_blocked_apps rm)"
    "distinct (rm_blocked_domains rm)" "distinct (rm_blocked_ports rm)"
    "APP_COUNT \<notin> set (rm_blocked_apps rm)"
    "\<forall>d \<in> set (rm_blocked_domains rm). normalize_rule d = d \<and> CHR ''*'' \<notin> set d"
    "\<forall>d \<in> set (rm_domain_patterns rm). normalize_rule d = d \<and> CHR ''*'' \<in> set d"
    "\<forall>d \<in> set (getBlockedDomains rm). storable d"
    using assms by (auto simp: wf_rules_def storable_def getBlockedDomains_def)
  then have lines: "\<forall>d \<in> set (getBlockedDomains rm). newline \<notin> set d" by (simp add: storable_def)
  have "load_lines (getlines (saveRules rm)) ([], no_rules) =
    Inr (''[BLOCKED_PORTS]'', fold blockPort (rm_blocked_ports rm) (fold blockDomain (getBlockedDomains rm)
      (fold blockApp (rm_blocked_apps rm) (fold blockIP (rm_blocked_ips rm) no_rules))))"
    unfolding getlines_saveRules [OF lines]
    by (simp add: load_lines_append load_line_header load_lines_ips load_lines_apps [OF wf(5)]
        load_lines_domains [OF wf(8)] load_lines_ports)
  also have "fold blockPort (rm_blocked_ports rm) (fold blockDomain (getBlockedDomains rm)
      (fold blockApp (rm_blocked_apps rm) (fold blockIP (rm_blocked_ips rm) no_rules))) = rm"
    using wf
    by (simp add: fold_uset_insert [of "[]", simplified] getBlockedDomains_def fold_blockIP fold_blockApp fold_blockPort
        fold_blockDomain_plain fold_blockDomain_patterns no_rules_def)
  finally show ?thesis by (simp add: loadRules_def)
qed

definition sample_rules :: RuleManager where
  "sample_rules = \<lparr>rm_blocked_ips = [0x0100000A, 7], rm_blocked_apps = [YOUTUBE],
     rm_blocked_domains = [''evil.com''], rm_domain_patterns = [''*.ads.net''], rm_blocked_ports = [443, 53]\<rparr>"

theorem rules_roundtrip_witness:
  "loadRules (saveRules sample_rules) no_rules = Inr sample_rules"
  by (rule rules_roundtrip)
    (simp add: wf_rules_def sample_rules_def storable_def normalize_rule_def to_lower_def newline_def)

text \<open>
  Domain rules that a file does not hold: a rule given with two final dots comes back with one dot
  less, a rule that starts with a bracket is read as a section header and lost with the rest of its
  section, and the empty rule (a single dot) is lost.
\<close>

theorem rules_lost_on_reload:
  "loadRules (saveRules (blockDomain ''evil.com..'' no_rules)) no_rules =
     Inr (blockDomain ''evil.com'' no_rules) \<and>
   blockDomain ''evil.com..'' no_rules \<noteq> blockDomain ''evil.com'' no_rules \<and>
   loadRules (saveRules (blockDomain ''evil.com'' (blockDomain ''[x'' no_rules))) no_rules = Inr no_rules \<and>
   loadRules (saveRules (blockDomain ''.'' no_rules)) no_rules = Inr no_rules"
  by (simp add: loadRules_def getlines_saveRules blockDomain_def normalize_rule_def to_lower_def
      no_rules_def uset_insert_def getBlockedDomains_def newline_def load_line_def)

end
