(* ===== verification/Flow.thy ===== *)
theory Flow
  imports Net_Utils "HOL-Library.List_Lexorder"
begin

text \<open>
  Flow identity: \<open>FiveTuple\<close>, \<open>IPAddress\<close>, \<open>FlowKey\<close>, their canonical forms and hashes
  (\<open>include/types.h\<close>, \<open>src/types.cpp\<close>). The interface of a flow key towards its clients is the
  locale \<open>flow_identity\<close>.
\<close>

section \<open>The interface: a key with a direction\<close>

locale flow_identity =
  fixes rev_key :: "'k \<Rightarrow> 'k"
    and canon :: "'k \<Rightarrow> 'k"
  assumes rev_rev: "rev_key (rev_key k) = k"
    and canon_rev: "canon (rev_key k) = canon k"
    and canon_cases: "canon k = k \<or> canon k = rev_key k"
begin

lemma canon_idem: "canon (canon k) = canon k"
  using canon_cases [of k] canon_rev [of k] by auto

lemma same_canon_iff: "canon k = canon k' \<longleftrightarrow> k' = k \<or> k' = rev_key k"
proof
  assume "canon k = canon k'"
  then show "k' = k \<or> k' = rev_key k"
    using canon_cases [of k] canon_cases [of k'] rev_rev by metis
qed (use canon_rev in auto)

lemma canon_invariant_hash: "h (canon (rev_key k)) = h (canon k)"
  by (simp add: canon_rev)

text \<open>The orientation of a packet of the flow: equal to the canonical key or not.\<close>

lemma orientation_flips: "k \<noteq> rev_key k \<Longrightarrow> (canon (rev_key k) = rev_key k) \<longleftrightarrow> canon k \<noteq> k"
  using canon_cases [of k] canon_rev [of k] by auto

end

section \<open>Five-tuples\<close>

record FiveTuple =
  ft_src_ip :: u32
  ft_dst_ip :: u32
  ft_src_port :: u16
  ft_dst_port :: u16
  ft_protocol :: u8

definition ft_reverse :: "FiveTuple \<Rightarrow> FiveTuple" where
  "ft_reverse t =
     \<lparr>ft_src_ip = ft_dst_ip t, ft_dst_ip = ft_src_ip t,
      ft_src_port = ft_dst_port t, ft_dst_port = ft_src_port t, ft_protocol = ft_protocol t\<rparr>"

definition ft_canonical :: "FiveTuple \<Rightarrow> FiveTuple" where
  "ft_canonical t =
     (let already_canonical =
        ft_src_ip t < ft_dst_ip t \<or>
        (ft_src_ip t = ft_dst_ip t \<and> ft_src_port t \<le> ft_dst_port t)
      in if already_canonical then t else ft_reverse t)"

interpretation five_tuple: flow_identity ft_reverse ft_canonical
  by unfold_locales (auto simp: ft_reverse_def ft_canonical_def Let_def)

section \<open>Addresses of both families\<close>

datatype IPAddress = IPv4Addr u32 | IPv6Addr IPv6Address

fun addr_index :: "IPAddress \<Rightarrow> nat" where
  "addr_index (IPv4Addr _) = 0"
| "addr_index (IPv6Addr _) = 1"

text \<open>
  \<open>std::get<IPv4Addr>\<close> throws on the other alternative.
\<close>

fun get_ipv4 :: "IPAddress \<Rightarrow> u32 res" where
  "get_ipv4 (IPv4Addr a) = Inr a"
| "get_ipv4 (IPv6Addr _) = Inl BadVariantAccess"

fun ipAddrLess :: "IPAddress \<Rightarrow> IPAddress \<Rightarrow> bool" where
  "ipAddrLess (IPv4Addr a) (IPv4Addr b) \<longleftrightarrow> a < b"
| "ipAddrLess (IPv6Addr a) (IPv6Addr b) \<longleftrightarrow> a < b"
| "ipAddrLess a b \<longleftrightarrow> addr_index a < addr_index b"

text \<open>The comparison is a linear order, so the library's order reasoning applies to addresses.\<close>

instantiation IPAddress :: linorder
begin

definition less_IPAddress :: "IPAddress \<Rightarrow> IPAddress \<Rightarrow> bool" where
  "less_IPAddress a b \<longleftrightarrow> ipAddrLess a b"

definition less_eq_IPAddress :: "IPAddress \<Rightarrow> IPAddress \<Rightarrow> bool" where
  "less_eq_IPAddress a b \<longleftrightarrow> a = b \<or> ipAddrLess a b"

instance
proof
  fix a b c :: IPAddress
  show "(a < b) = (a \<le> b \<and> \<not> b \<le> a)"
    by (cases a; cases b) (auto simp: less_IPAddress_def less_eq_IPAddress_def)
  show "a \<le> a"
    by (simp add: less_eq_IPAddress_def)
  show "a \<le> b \<Longrightarrow> b \<le> c \<Longrightarrow> a \<le> c"
    by (cases a; cases b; cases c) (auto simp: less_eq_IPAddress_def)
  show "a \<le> b \<Longrightarrow> b \<le> a \<Longrightarrow> a = b"
    by (cases a; cases b) (auto simp: less_eq_IPAddress_def)
  show "a \<le> b \<or> b \<le> a"
    by (cases a; cases b) (auto simp: less_eq_IPAddress_def)
qed

end

section \<open>Flow keys\<close>

record FlowKey =
  fk_src_addr :: IPAddress
  fk_dst_addr :: IPAddress
  fk_src_port :: u16
  fk_dst_port :: u16
  fk_protocol :: u8

definition fk_isIPv6 :: "FlowKey \<Rightarrow> bool" where
  "fk_isIPv6 k \<longleftrightarrow> addr_index (fk_src_addr k) = 1"

definition fromFiveTuple :: "FiveTuple \<Rightarrow> FlowKey" where
  "fromFiveTuple t =
     \<lparr>fk_src_addr = IPv4Addr (ft_src_ip t), fk_dst_addr = IPv4Addr (ft_dst_ip t),
      fk_src_port = ft_src_port t, fk_dst_port = ft_dst_port t, fk_protocol = ft_protocol t\<rparr>"

definition fromIPv6 :: "IPv6Address \<Rightarrow> IPv6Address \<Rightarrow> u16 \<Rightarrow> u16 \<Rightarrow> u8 \<Rightarrow> FlowKey" where
  "fromIPv6 src dst sport dport proto =
     \<lparr>fk_src_addr = IPv6Addr src, fk_dst_addr = IPv6Addr dst,
      fk_src_port = sport, fk_dst_port = dport, fk_protocol = proto\<rparr>"

definition fk_reverse :: "FlowKey \<Rightarrow> FlowKey" where
  "fk_reverse k =
     \<lparr>fk_src_addr = fk_dst_addr k, fk_dst_addr = fk_src_addr k,
      fk_src_port = fk_dst_port k, fk_dst_port = fk_src_port k, fk_protocol = fk_protocol k\<rparr>"

definition fk_canonical :: "FlowKey \<Rightarrow> FlowKey" where
  "fk_canonical k =
     (let already =
        ipAddrLess (fk_src_addr k) (fk_dst_addr k) \<or>
        (fk_src_addr k = fk_dst_addr k \<and> fk_src_port k \<le> fk_dst_port k)
      in if already then k else fk_reverse k)"

interpretation flow_key: flow_identity fk_reverse fk_canonical
  by unfold_locales
    (auto simp: fk_reverse_def fk_canonical_def Let_def simp flip: less_IPAddress_def)

text \<open>The two notions of a flow agree on IPv4: the conversion commutes with both operations.\<close>

lemma fromFiveTuple_reverse: "fromFiveTuple (ft_reverse t) = fk_reverse (fromFiveTuple t)"
  by (simp add: fromFiveTuple_def ft_reverse_def fk_reverse_def)

lemma fromFiveTuple_canonical: "fromFiveTuple (ft_canonical t) = fk_canonical (fromFiveTuple t)"
  by (auto simp: ft_canonical_def fk_canonical_def Let_def fromFiveTuple_def ft_reverse_def
      fk_reverse_def)

section \<open>Hashes\<close>

text \<open>
  \<open>std::hash\<close> on integers is implementation-defined, so it is a parameter: one function per width.
\<close>

record std_hash =
  hash_u8 :: "u8 \<Rightarrow> u64"
  hash_u16 :: "u16 \<Rightarrow> u64"
  hash_u32 :: "u32 \<Rightarrow> u64"

definition mix :: "u64 \<Rightarrow> u64 \<Rightarrow> u64" where
  "mix h v = h XOR (v + 0x9e3779b9 + push_bit 6 h + drop_bit 2 h)"

definition FiveTupleHash :: "std_hash \<Rightarrow> FiveTuple \<Rightarrow> u64" where
  "FiveTupleHash sh tuple =
     (let c = ft_canonical tuple;
          h = 0;
          h = mix h (hash_u32 sh (ft_src_ip c));
          h = mix h (hash_u32 sh (ft_dst_ip c));
          h = mix h (hash_u16 sh (ft_src_port c));
          h = mix h (hash_u16 sh (ft_dst_port c));
          h = mix h (hash_u8 sh (ft_protocol c))
      in h)"

text \<open>An address is hashed as one 32-bit word or as its four 32-bit chunks in memory order.\<close>

fun mix_addr :: "bool \<Rightarrow> std_hash \<Rightarrow> u64 \<Rightarrow> IPAddress \<Rightarrow> u64" where
  "mix_addr le sh h (IPv4Addr a) = mix h (hash_u32 sh a)"
| "mix_addr le sh h (IPv6Addr a) =
     foldl (\<lambda>h i. mix h (hash_u32 sh (load32 le (a ! (i * 4)) (a ! (i * 4 + 1))
                                              (a ! (i * 4 + 2)) (a ! (i * 4 + 3))))) h [0..<4]"

definition IPv6AddressHash :: "bool \<Rightarrow> std_hash \<Rightarrow> IPv6Address \<Rightarrow> u64" where
  "IPv6AddressHash le sh addr = mix_addr le sh 0 (IPv6Addr addr)"

definition FlowKeyHash :: "bool \<Rightarrow> std_hash \<Rightarrow> FlowKey \<Rightarrow> u64" where
  "FlowKeyHash le sh key =
     (let c = fk_canonical key;
          h = 0;
          h = mix h (of_nat (addr_index (fk_src_addr c)));
          h = mix_addr le sh h (fk_src_addr c);
          h = mix_addr le sh h (fk_dst_addr c);
          h = mix h (hash_u16 sh (fk_src_port c));
          h = mix h (hash_u16 sh (fk_dst_port c));
          h = mix h (hash_u8 sh (fk_protocol c))
      in h)"

lemma FiveTupleHash_reverse: "FiveTupleHash sh (ft_reverse t) = FiveTupleHash sh t"
  by (simp add: FiveTupleHash_def five_tuple.canon_rev)

lemma FlowKeyHash_reverse: "FlowKeyHash le sh (fk_reverse k) = FlowKeyHash le sh k"
  by (simp add: FlowKeyHash_def flow_key.canon_rev)

lemma FlowKeyHash_canonical: "FlowKeyHash le sh (fk_canonical k) = FlowKeyHash le sh k"
  by (simp add: FlowKeyHash_def flow_key.canon_idem)

section \<open>Text\<close>

definition proto4_text :: "u8 \<Rightarrow> string" where
  "proto4_text p = (if p = 6 then ''TCP'' else if p = 17 then ''UDP'' else ''?'')"

definition FiveTuple_toString :: "FiveTuple \<Rightarrow> string" where
  "FiveTuple_toString t =
     ipv4ToString (ft_src_ip t) @ '':'' @ to_string (unat (ft_src_port t)) @ '' -> '' @
     ipv4ToString (ft_dst_ip t) @ '':'' @ to_string (unat (ft_dst_port t)) @
     '' ('' @ proto4_text (ft_protocol t) @ '')''"

fun addr_text :: "IPAddress \<Rightarrow> string option" where
  "addr_text (IPv4Addr a) = Some (ipv4ToString a)"
| "addr_text (IPv6Addr a) = ipv6ToString a"

definition proto_text :: "u8 \<Rightarrow> string" where
  "proto_text p = (if p = 6 then ''TCP'' else if p = 17 then ''UDP''
     else if p = 1 then ''ICMP'' else if p = 58 then ''ICMPv6'' else ''?'')"

definition FlowKey_toString :: "FlowKey \<Rightarrow> string option" where
  "FlowKey_toString k =
     (case (addr_text (fk_src_addr k), addr_text (fk_dst_addr k)) of
        (Some s, Some d) \<Rightarrow>
          Some (s @ '':'' @ to_string (unat (fk_src_port k)) @ '' -> '' @
                d @ '':'' @ to_string (unat (fk_dst_port k)) @
                '' ('' @ proto_text (fk_protocol k) @ '')'')
      | _ \<Rightarrow> None)"

end
