(* ===== verification/Sni.thy ===== *)
theory Sni
  imports Dpi_Text
begin

text \<open>
  The name extractors of \<open>include/sni_extractor.h\<close> and \<open>src/sni_extractor.cpp\<close>: the server name of a
  TLS ClientHello, the Host header of an HTTP request, the question of a DNS query, and the scan of a
  QUIC packet for an embedded ClientHello. Every read of the payload is checked.
\<close>

section \<open>What an extractor promises\<close>

text \<open>
  The fast path relies on two laws of an extractor: it returns on every payload without reading
  outside it, and the name it reports is made of payload bytes (and the dots that join DNS labels).
\<close>

definition name_from :: "bytes \<Rightarrow> string option \<Rightarrow> bool" where
  "name_from p r = (case r of None \<Rightarrow> True | Some s \<Rightarrow> set s \<subseteq> insert (CHR ''.'') (byte_char ` set p))"

lemma name_from_None [simp]: "name_from p None"
  by (simp add: name_from_def)

lemma name_from_Some [simp]:
  "name_from p (Some s) \<longleftrightarrow> set s \<subseteq> insert (CHR ''.'') (byte_char ` set p)"
  by (simp add: name_from_def)

locale extractor =
  fixes ext :: "bytes \<Rightarrow> nat \<Rightarrow> string option res"
  assumes ext_wp: "wp (ext p (length p)) (name_from p)"
begin

lemma total: "\<exists>r. ext p (length p) = Inr r"
  using ext_wp [of p] by (auto simp: wp_iff)

lemma no_fault: "ext p (length p) \<noteq> Inl e"
  using total [of p] by auto

lemma from_payload:
  "ext p (length p) = Inr (Some s) \<Longrightarrow> set s \<subseteq> insert (CHR ''.'') (byte_char ` set p)"
  using ext_wp [of p] by (simp add: wp_simps)

lemma from_suffix:
  "wp (ext (drop k p) (length p - k)) (name_from p)"
proof -
  have "name_from p r" if "name_from (drop k p) r" for r
    using that set_drop_subset [of k p] by (cases r) auto
  then show ?thesis
    using ext_wp [of "drop k p"] by (auto intro: wp_mono)
qed

end

section \<open>TLS\<close>

abbreviation (input) CONTENT_TYPE_HANDSHAKE :: u8 where "CONTENT_TYPE_HANDSHAKE \<equiv> 0x16"
abbreviation (input) HANDSHAKE_CLIENT_HELLO :: u8 where "HANDSHAKE_CLIENT_HELLO \<equiv> 0x01"
abbreviation (input) EXTENSION_SNI :: u16 where "EXTENSION_SNI \<equiv> 0x0000"
abbreviation (input) SNI_TYPE_HOSTNAME :: u8 where "SNI_TYPE_HOSTNAME \<equiv> 0x00"

definition isTLSClientHello :: "bytes \<Rightarrow> nat \<Rightarrow> bool res" where
  "isTLSClientHello payload len =
     (if len < 9 then Inr False else
      rbind (rd payload 0) (\<lambda>b0. if b0 \<noteq> CONTENT_TYPE_HANDSHAKE then Inr False else
      rbind (rd16 payload 1) (\<lambda>version. if version < 0x0300 \<or> version > 0x0304 then Inr False else
      rbind (rd16 payload 3) (\<lambda>record_length. if unat record_length > len - 5 then Inr False else
      rbind (rd payload 5) (\<lambda>b5. Inr (b5 = HANDSHAKE_CLIENT_HELLO))))))"

text \<open>The loop over the extensions.\<close>

function scan_extensions :: "bytes \<Rightarrow> nat \<Rightarrow> nat \<Rightarrow> string option res" where
  "scan_extensions payload extensions_end offset =
     (if offset + 4 \<le> extensions_end then
        rbind (rd16 payload offset) (\<lambda>extension_type.
        rbind (rd16 payload (offset + 2)) (\<lambda>w.
          let extension_length = unat w; offset' = offset + 4 in
          if offset' + extension_length > extensions_end then Inr None
          else if extension_type = EXTENSION_SNI then
            (if extension_length < 5 then Inr None else
             rbind (rd16 payload offset') (\<lambda>sni_list_length.
             if sni_list_length < 3 then Inr None else
             rbind (rd payload (offset' + 2)) (\<lambda>sni_type.
             rbind (rd16 payload (offset' + 3)) (\<lambda>sni_length.
             if sni_type \<noteq> SNI_TYPE_HOSTNAME then Inr None
             else if unat sni_length > extension_length - 5 then Inr None
             else rbind (rd_bytes payload (offset' + 5) (unat sni_length)) (\<lambda>sni.
                    Inr (Some (map byte_char sni)))))))
          else scan_extensions payload extensions_end (offset' + extension_length)))
      else Inr None)"
  by pat_completeness auto
termination by (relation "measure (\<lambda>(p, e, i). e - i)") auto

declare scan_extensions.simps [simp del]

definition SNIExtractor_extract :: "bytes \<Rightarrow> nat \<Rightarrow> string option res" where
  "SNIExtractor_extract payload len =
     rbind (isTLSClientHello payload len) (\<lambda>hello. if \<not> hello then Inr None else
     if 5 + 4 > len then Inr None else
     rbind (rd24 payload (5 + 1)) (\<lambda>handshake_length.
     if 9 + unat handshake_length > len then Inr None else
     if 9 + 2 > len then Inr None else
     if 11 + 32 > len then Inr None else
     if 43 \<ge> len then Inr None else
     rbind (rd payload 43) (\<lambda>session_id_length.
     let offset = 43 + (1 + unat session_id_length) in
     if offset > len then Inr None else
     if offset + 2 > len then Inr None else
     rbind (rd16 payload offset) (\<lambda>cipher_suites_length.
     let offset = offset + (2 + unat cipher_suites_length) in
     if offset > len then Inr None else
     if offset \<ge> len then Inr None else
     rbind (rd payload offset) (\<lambda>compression_methods_length.
     let offset = offset + (1 + unat compression_methods_length) in
     if offset > len then Inr None else
     if offset + 2 > len then Inr None else
     rbind (rd16 payload offset) (\<lambda>extensions_length.
     let offset = offset + 2; extensions_end = offset + unat extensions_length in
     if extensions_end > len then Inr None else
     scan_extensions payload extensions_end offset))))))"

definition extractExtensions :: "bytes \<Rightarrow> nat \<Rightarrow> (u16 \<times> string) list" where
  "extractExtensions payload len = []"

lemma wp_isTLSClientHello: "wp (isTLSClientHello p (length p)) (\<lambda>b. b \<longrightarrow> 9 \<le> length p)"
  unfolding isTLSClientHello_def by (auto simp: wp_simps)

lemma name_from_slice: "name_from p (Some (map byte_char (take n (drop i p))))"
  by (auto dest: in_set_takeD in_set_dropD)

lemma scan_extensions_wp: "e \<le> length p \<Longrightarrow> wp (scan_extensions p e i) (name_from p)"
proof (induction p e i rule: scan_extensions.induct)
  case (1 p e i)
  show ?case
    by (subst scan_extensions.simps)
      (use 1(2) in \<open>auto simp: wp_simps Let_def name_from_slice simp del: name_from_Some
        intro!: 1(1)\<close>)
qed

lemma SNIExtractor_extract_wp: "wp (SNIExtractor_extract p (length p)) (name_from p)"
  unfolding SNIExtractor_extract_def wp_rbind [of "isTLSClientHello p (length p)"]
  by (rule wp_mono [OF wp_isTLSClientHello])
    (auto simp: wp_simps Let_def intro!: scan_extensions_wp)

interpretation sni: extractor SNIExtractor_extract
  by unfold_locales (rule SNIExtractor_extract_wp)

section \<open>HTTP\<close>

definition http_methods :: "string list" where
  "http_methods = [''GET '', ''POST'', ''PUT '', ''HEAD'', ''DELE'', ''PATC'', ''OPTI'']"

definition isHTTPRequest :: "bytes \<Rightarrow> nat \<Rightarrow> bool res" where
  "isHTTPRequest payload len =
     (if len < 4 then Inr False
      else rbind (rd_bytes payload 0 4) (\<lambda>b. Inr (map byte_char b \<in> set http_methods)))"

text \<open>The comparisons of the Host test, each made only when the ones before it hold.\<close>

definition tolower_is :: "bytes \<Rightarrow> nat \<Rightarrow> char \<Rightarrow> bool res \<Rightarrow> bool res" where
  "tolower_is payload i c rest =
     rbind (rd payload i) (\<lambda>b. if to_lower (byte_char b) = c then rest else Inr False)"

definition host_at :: "bytes \<Rightarrow> nat \<Rightarrow> nat \<Rightarrow> bool res" where
  "host_at payload len start =
     (if start + 5 \<le> len then
        tolower_is payload start (CHR ''h'') (
        tolower_is payload (start + 1) (CHR ''o'') (
        tolower_is payload (start + 2) (CHR ''s'') (
        tolower_is payload (start + 3) (CHR ''t'') (
        rbind (rd payload (start + 4)) (\<lambda>b. Inr (byte_char b = CHR '':''))))))
      else Inr False)"

definition is_blank :: "u8 \<Rightarrow> bool" where
  "is_blank b \<longleftrightarrow> b = 0x20 \<or> b = 0x09"

definition is_eol :: "u8 \<Rightarrow> bool" where
  "is_eol b \<longleftrightarrow> b = 0x0D \<or> b = 0x0A"

text \<open>\<open>while (i < length && test(payload[i])) i++\<close>\<close>

function advance :: "(u8 \<Rightarrow> bool) \<Rightarrow> bytes \<Rightarrow> nat \<Rightarrow> nat \<Rightarrow> nat res" where
  "advance test payload len i =
     (if i < len then
        rbind (rd payload i) (\<lambda>b. if test b then advance test payload len (i + 1) else Inr i)
      else Inr i)"
  by pat_completeness auto
termination by (relation "measure (\<lambda>(t, p, n, i). n - i)") auto

declare advance.simps [simp del]

fun trim_end :: "bytes \<Rightarrow> nat \<Rightarrow> nat \<Rightarrow> nat res" where
  "trim_end payload val_start 0 = Inr 0"
| "trim_end payload val_start (Suc n) =
     (if Suc n > val_start then
        rbind (rd payload n) (\<lambda>b. if is_blank b then trim_end payload val_start n else Inr (Suc n))
      else Inr (Suc n))"

definition host_value :: "bytes \<Rightarrow> nat \<Rightarrow> nat \<Rightarrow> string option res" where
  "host_value payload len start =
     rbind (advance is_blank payload len (start + 5)) (\<lambda>val_start.
     rbind (advance (\<lambda>b. \<not> is_eol b) payload len val_start) (\<lambda>val_end0.
     rbind (trim_end payload val_start val_end0) (\<lambda>val_end.
       if val_end > val_start then
         rbind (rd_bytes payload val_start (val_end - val_start)) (\<lambda>host.
           Inr (Some (takeWhile (\<lambda>c. c \<noteq> CHR '':'') (map byte_char host))))
       else Inr None)))"

function http_scan :: "bytes \<Rightarrow> nat \<Rightarrow> nat \<Rightarrow> string option res" where
  "http_scan payload len i =
     (if i + 6 < len then
        rbind (rd payload i) (\<lambda>b.
          if b = 0x0A then
            rbind (host_at payload len (i + 1)) (\<lambda>found.
              if found then
                rbind (host_value payload len (i + 1)) (\<lambda>r.
                  case r of Some host \<Rightarrow> Inr (Some host)
                  | None \<Rightarrow> http_scan payload len (i + 1))
              else http_scan payload len (i + 1))
          else http_scan payload len (i + 1))
      else Inr None)"
  by pat_completeness auto
termination by (relation "measure (\<lambda>(p, n, i). n - i)") auto

declare http_scan.simps [simp del]

definition HTTPHostExtractor_extract :: "bytes \<Rightarrow> nat \<Rightarrow> string option res" where
  "HTTPHostExtractor_extract payload len =
     rbind (isHTTPRequest payload len) (\<lambda>ok.
       if \<not> ok then Inr None else http_scan payload len 0)"

text \<open>The scanning loops stay between their start and the end of the payload.\<close>

lemma advance_wp:
  "i \<le> length p \<Longrightarrow> wp (advance t p (length p) i)
     (\<lambda>j. i \<le> j \<and> j \<le> length p \<and> (\<forall>k. i \<le> k \<and> k < j \<longrightarrow> t (p ! k)) \<and>
          (j < length p \<longrightarrow> \<not> t (p ! j)))"
proof (induction t p "length p" i rule: advance.induct)
  case (1 t p i)
  show ?case
  proof (cases "i < length p \<and> t (p ! i)")
    case True
    then have "wp (advance t p (length p) (i + 1))
       (\<lambda>j. i + 1 \<le> j \<and> j \<le> length p \<and> (\<forall>k. i + 1 \<le> k \<and> k < j \<longrightarrow> t (p ! k)) \<and>
          (j < length p \<longrightarrow> \<not> t (p ! j)))"
      by (intro 1(1)) auto
    then have "wp (advance t p (length p) (i + 1))
       (\<lambda>j. i \<le> j \<and> j \<le> length p \<and> (\<forall>k. i \<le> k \<and> k < j \<longrightarrow> t (p ! k)) \<and>
          (j < length p \<longrightarrow> \<not> t (p ! j)))"
      by (rule wp_mono) (use True in \<open>auto simp: le_eq_less_or_eq [of i] Suc_le_eq\<close>)
    then show ?thesis
      using True by (subst advance.simps) (auto simp: wp_simps)
  next
    case False
    then show ?thesis using 1(2) by (subst advance.simps) (auto simp: wp_simps)
  qed
qed

lemma trim_end_wp:
  "n \<le> length p \<Longrightarrow> v \<le> n \<Longrightarrow> wp (trim_end p v n)
     (\<lambda>j. v \<le> j \<and> j \<le> n \<and> (v < j \<longrightarrow> \<not> is_blank (p ! (j - 1))))"
  by (induction p v n rule: trim_end.induct) (auto simp: wp_simps le_Suc_eq elim!: wp_mono)

lemma in_slice: "x \<in> set (take n (drop v p)) \<Longrightarrow> \<exists>k. v \<le> k \<and> k < v + n \<and> k < length p \<and> x = p ! k"
  by (auto simp: in_set_conv_nth) (metis add.commute le_add2 less_diff_conv nat_add_left_cancel_less)

text \<open>A host name holds no line end and no colon.\<close>

definition host_ok :: "bytes \<Rightarrow> string option \<Rightarrow> bool" where
  "host_ok p r = (case r of None \<Rightarrow> True
     | Some s \<Rightarrow> set s \<subseteq> byte_char ` set p - {CHR '':'', CHR 0x0D, newline})"

lemma host_ok_None [simp]: "host_ok p None"
  by (simp add: host_ok_def)

lemma host_value_wp:
  assumes "start + 5 \<le> length p"
  shows "wp (host_value p (length p) start) (host_ok p)"
  unfolding host_value_def wp_rbind
proof (rule wp_mono [OF advance_wp [OF assms]], clarify, rule wp_mono [OF advance_wp], assumption, clarify)
  fix v e0
  assume v: "start + 5 \<le> v" "v \<le> length p" and e0: "v \<le> e0" "e0 \<le> length p"
    and line: "\<forall>k. v \<le> k \<and> k < e0 \<longrightarrow> \<not> is_eol (p ! k)"
  have chars: "set (takeWhile (\<lambda>c. c \<noteq> CHR '':'') (map byte_char (take n (drop v p))))
      \<subseteq> byte_char ` set p - {CHR '':'', CHR 0x0D, newline}" if "v + n \<le> e0" for n
  proof
    fix c assume "c \<in> set (takeWhile (\<lambda>c. c \<noteq> CHR '':'') (map byte_char (take n (drop v p))))"
    then have "c \<in> set (map byte_char (take n (drop v p)))" "c \<noteq> CHR '':''" by (auto dest: set_takeWhileD)
    then obtain b where b: "b \<in> set (take n (drop v p))" "c = byte_char b" by auto
    with that line have "\<not> is_eol b" "b \<in> set p" using in_slice [OF b(1)] by auto
    then have "c \<noteq> CHR 0x0D" "c \<noteq> newline"
      by (auto simp: is_eol_def b(2) newline_def byte_char_eq_iff) (simp_all add: char_byte_def)
    with b \<open>b \<in> set p\<close> \<open>c \<noteq> CHR '':''\<close> show "c \<in> byte_char ` set p - {CHR '':'', CHR 0x0D, newline}"
      by auto
  qed
  show "wp (trim_end p v e0) (\<lambda>e. wp
     (if v < e then rbind (rd_bytes p v (e - v)) (\<lambda>host.
        Inr (Some (takeWhile (\<lambda>c. c \<noteq> CHR '':'') (map byte_char host)))) else Inr None) (host_ok p))"
    by (rule wp_mono [OF trim_end_wp]) (use e0 chars in \<open>auto simp: wp_simps host_ok_def\<close>)
qed

lemma host_at_wp: "wp (host_at p (length p) s) (\<lambda>b. b \<longrightarrow> s + 5 \<le> length p)"
  unfolding host_at_def tolower_is_def by (auto simp: wp_simps)

lemma http_scan_wp: "wp (http_scan p (length p) i) (host_ok p)"
proof (induction "length p - i" arbitrary: i rule: less_induct)
  case less
  have step: "wp (http_scan p (length p) (Suc i)) (host_ok p)" if "i + 6 < length p"
    by (rule less) (use that in simp)
  show ?case
    by (subst http_scan.simps)
      (auto simp: wp_simps split: option.split
        intro!: step wp_mono [OF host_at_wp] wp_mono [OF host_value_wp])
qed

lemma HTTPHostExtractor_extract_ok: "wp (HTTPHostExtractor_extract p (length p)) (host_ok p)"
  unfolding HTTPHostExtractor_extract_def isHTTPRequest_def
  by (auto simp: wp_simps http_scan_wp)

lemma HTTPHostExtractor_extract_wp: "wp (HTTPHostExtractor_extract p (length p)) (name_from p)"
  by (rule wp_mono [OF HTTPHostExtractor_extract_ok]) (auto simp: host_ok_def split: option.splits)

interpretation http: extractor HTTPHostExtractor_extract
  by unfold_locales (rule HTTPHostExtractor_extract_wp)

section \<open>DNS\<close>

record DnsResult =
  dns_transaction_id :: u16
  dns_flags :: u16
  dns_question_count :: u16
  dns_answer_count :: u16
  dns_query_domain :: string

definition isDNSQuery :: "bytes \<Rightarrow> nat \<Rightarrow> bool res" where
  "isDNSQuery payload len =
     (if len < 12 then Inr False else
      rbind (rd payload 2) (\<lambda>flags. if flags AND 0x80 \<noteq> 0 then Inr False else
      rbind (rd16 payload 4) (\<lambda>qdcount. Inr (qdcount > 0))))"

text \<open>
  The loop of \<open>readDomainName\<close> with its local variables; the result is the returned flag, the final
  value of \<open>offset\<close> and the domain.
\<close>

function dns_loop :: "bytes \<Rightarrow> nat \<Rightarrow> nat \<Rightarrow> nat \<Rightarrow> bool \<Rightarrow> nat \<Rightarrow> string \<Rightarrow>
    (bool \<times> nat \<times> string) res" where
  "dns_loop payload len offset original_offset jumped jumps domain =
     (let finish = (\<lambda>original_offset.
            Inr (domain \<noteq> [], if jumped then original_offset else offset, domain))
      in
      if offset < len then
        rbind (rd payload offset) (\<lambda>l.
          if l = 0 then finish (if \<not> jumped then offset + 1 else original_offset)
          else if l AND 0xC0 = 0xC0 then
            (if offset + 1 \<ge> len then Inr (False, offset, domain) else
             rbind (rd payload (offset + 1)) (\<lambda>b.
               let ptr = unat (be16 (l AND 0x3F) b) in
               if ptr \<ge> len \<or> ptr < 12 then Inr (False, offset, domain)
               else
                 let original_offset = (if \<not> jumped then offset + 2 else original_offset) in
                 if jumps + 1 > 10 then Inr (False, ptr, domain)
                 else dns_loop payload len ptr original_offset True (jumps + 1) domain))
          else
            let offset' = offset + 1 in
            if offset' + unat l > len then Inr (False, offset', domain)
            else
              rbind (rd_bytes payload offset' (unat l)) (\<lambda>label.
                dns_loop payload len (offset' + unat l) original_offset jumped jumps
                  ((if domain \<noteq> [] then domain @ ''.'' else domain) @ map byte_char label)))
      else finish original_offset)"
  by pat_completeness auto
termination
  by (relation "measures [\<lambda>(p, n, i, _, _, jumps, _). 10 - jumps, \<lambda>(p, n, i, _). n - i]") auto

declare dns_loop.simps [simp del]

definition readDomainName :: "bytes \<Rightarrow> nat \<Rightarrow> nat \<Rightarrow> (bool \<times> nat \<times> string) res" where
  "readDomainName payload len offset = dns_loop payload len offset offset False 0 []"

definition extractQuery :: "bytes \<Rightarrow> nat \<Rightarrow> DnsResult option res" where
  "extractQuery payload len =
     rbind (isDNSQuery payload len) (\<lambda>ok. if \<not> ok then Inr None else
     rbind (rd16 payload 0) (\<lambda>transaction_id.
     rbind (rd16 payload 2) (\<lambda>flags.
     rbind (rd16 payload 4) (\<lambda>question_count.
     rbind (rd16 payload 6) (\<lambda>answer_count.
     rbind (readDomainName payload len 12) (\<lambda>(ok, offset, domain).
       if \<not> ok then Inr None
       else Inr (Some \<lparr>dns_transaction_id = transaction_id, dns_flags = flags,
                       dns_question_count = question_count, dns_answer_count = answer_count,
                       dns_query_domain = domain\<rparr>)))))))"

text \<open>The domain \<open>extractQuery\<close> reports, for use as an extractor.\<close>

definition dns_domain :: "bytes \<Rightarrow> nat \<Rightarrow> string option res" where
  "dns_domain payload len =
     rbind (extractQuery payload len) (\<lambda>r. Inr (map_option dns_query_domain r))"

lemma dns_loop_wp:
  assumes "name_from p (Some domain)"
  shows "wp (dns_loop p (length p) i orig jumped jumps domain)
           (\<lambda>(ok, _, d). name_from p (Some d) \<and> (ok \<longrightarrow> d \<noteq> []))"
  using assms
proof (induction "10 - jumps" arbitrary: i orig jumped jumps domain rule: less_induct)
  case less
  note IH = less.hyps
  from less.prems show ?case
  proof (induction "length p - i" arbitrary: i orig jumped domain rule: less_induct)
    case less
    have label: "name_from p (Some (domain @ CHR ''.'' # map byte_char (take n (drop k p))))" for n k
      using less.prems name_from_slice [of p n k] by auto
    have dot: "name_from p (Some (domain @ ''.''))"
      using less.prems by auto
    have jump: "wp (dns_loop p (length p) ptr orig' True (Suc jumps) d)
        (\<lambda>(ok, _, d). name_from p (Some d) \<and> (ok \<longrightarrow> d \<noteq> []))" if "\<not> 9 < jumps" "name_from p (Some d)"
      for ptr orig' d
      by (rule IH) (use that in auto)
    have next_label: "wp (dns_loop p (length p) j orig' jumped' jumps d)
        (\<lambda>(ok, _, d). name_from p (Some d) \<and> (ok \<longrightarrow> d \<noteq> []))"
      if "i < j" "i < length p" "name_from p (Some d)" for j orig' jumped' d
      by (rule less.hyps) (use that in auto)
    show ?case
      by (subst dns_loop.simps)
        (use less.prems in \<open>auto simp: wp_simps Let_def simp del: name_from_Some
          intro!: jump next_label label dot name_from_slice\<close>)
  qed
qed

lemma wp_isDNSQuery: "wp (isDNSQuery p (length p)) (\<lambda>b. b \<longrightarrow> 12 \<le> length p)"
  unfolding isDNSQuery_def by (auto simp: wp_simps)

lemma dns_domain_wp: "wp (dns_domain p (length p)) (\<lambda>r. name_from p r \<and> r \<noteq> Some [])"
  unfolding dns_domain_def extractQuery_def readDomainName_def wp_rbind [of "isDNSQuery p (length p)"]
    wp_rbind [of "rbind m f" for m f]
  by (rule wp_mono [OF wp_isDNSQuery])
    (auto simp: wp_simps intro!: wp_mono [OF dns_loop_wp])

interpretation dns: extractor dns_domain
  by unfold_locales (rule wp_mono [OF dns_domain_wp], simp)

section \<open>QUIC\<close>

definition isQUICInitial :: "bytes \<Rightarrow> nat \<Rightarrow> bool res" where
  "isQUICInitial payload len =
     (if len < 5 then Inr False else
      rbind (rd payload 0) (\<lambda>first_byte. if first_byte AND 0x80 = 0 then Inr False else
      rbind (rd payload 1) (\<lambda>b1. rbind (rd payload 2) (\<lambda>b2.
      rbind (rd payload 3) (\<lambda>b3. rbind (rd payload 4) (\<lambda>b4.
        let version = be32 b1 b2 b3 b4 in Inr True))))))"

function quic_scan :: "bytes \<Rightarrow> nat \<Rightarrow> nat \<Rightarrow> string option res" where
  "quic_scan payload len i =
     (if i < len \<and> len - i \<ge> 50 then
        rbind (rd payload i) (\<lambda>b.
          if b = 0x01 then
            rbind (SNIExtractor_extract (drop (i - 5) payload) (len - (i - 5))) (\<lambda>r.
              case r of Some s \<Rightarrow> Inr (Some s) | None \<Rightarrow> quic_scan payload len (i + 1))
          else quic_scan payload len (i + 1))
      else Inr None)"
  by pat_completeness auto
termination by (relation "measure (\<lambda>(p, n, i). n - i)") auto

declare quic_scan.simps [simp del]

definition QUICSNIExtractor_extract :: "bytes \<Rightarrow> nat \<Rightarrow> string option res" where
  "QUICSNIExtractor_extract payload len =
     rbind (isQUICInitial payload len) (\<lambda>ok. if \<not> ok then Inr None else quic_scan payload len 5)"

lemma quic_scan_wp: "wp (quic_scan p (length p) i) (name_from p)"
proof (induction "length p - i" arbitrary: i rule: less_induct)
  case less
  have step: "wp (quic_scan p (length p) (Suc i)) (name_from p)" if "i < length p"
    by (rule less) (use that in simp)
  show ?case
    by (subst quic_scan.simps)
      (auto simp: wp_simps simp del: name_from_Some split: option.split
        intro!: step wp_mono [OF sni.from_suffix])
qed

lemma QUICSNIExtractor_extract_wp: "wp (QUICSNIExtractor_extract p (length p)) (name_from p)"
  unfolding QUICSNIExtractor_extract_def isQUICInitial_def
  by (auto simp: wp_simps Let_def quic_scan_wp)

interpretation quic: extractor QUICSNIExtractor_extract
  by unfold_locales (rule QUICSNIExtractor_extract_wp)

text \<open>
  C35. The extractors are memory safe: on every payload each of them returns, without a read outside
  the payload, and what it reports consists of payload bytes (and the dots between DNS labels); a Host
  name holds neither a line end nor a colon, and a DNS name is not empty.
\<close>

theorem extractors_safe:
  "\<exists>tls host dns quic. SNIExtractor_extract p (length p) = Inr tls \<and>
     HTTPHostExtractor_extract p (length p) = Inr host \<and> dns_domain p (length p) = Inr dns \<and>
     QUICSNIExtractor_extract p (length p) = Inr quic \<and>
     name_from p tls \<and> host_ok p host \<and> name_from p dns \<and> dns \<noteq> Some [] \<and> name_from p quic"
  using SNIExtractor_extract_wp [of p] HTTPHostExtractor_extract_ok [of p] dns_domain_wp [of p]
    QUICSNIExtractor_extract_wp [of p]
  by (auto simp: wp_iff)

section \<open>What a client sends is what is extracted\<close>

lemma rd_at: "p = pre @ b # q \<Longrightarrow> i = length pre \<Longrightarrow> rd p i = Inr b"
  by (simp add: rd_def)

lemma rd16_at:
  "p = pre @ put16 n @ q \<Longrightarrow> i = length pre \<Longrightarrow> rd16 p i = Inr (be16 (of_nat (n div 256)) (of_nat n))"
  by (simp add: rd16_def rd_def put16_def nth_append)

lemma rd24_at:
  "p = pre @ put24 n @ q \<Longrightarrow> i = length pre \<Longrightarrow>
     rd24 p i = Inr (be24 (of_nat (n div 65536)) (of_nat (n div 256)) (of_nat n))"
  by (simp add: rd24_def rd_def put24_def nth_append)

lemma rd_bytes_at: "p = pre @ bs @ q \<Longrightarrow> i = length pre \<Longrightarrow> n = length bs \<Longrightarrow> rd_bytes p i n = Inr bs"
  by simp

lemma unat_be16_of_nat [simp]: "n < 65536 \<Longrightarrow> unat (be16 (of_nat (n div 256)) (of_nat n)) = n"
  using be16_put16 [of n] by (simp add: put16_def)

lemma unat_be24_of_nat [simp]:
  "n < 16777216 \<Longrightarrow> unat (be24 (of_nat (n div 65536)) (of_nat (n div 256)) (of_nat n)) = n"
  using be24_put24 [of n] by (simp add: put24_def)

lemma be16_0 [simp]: "be16 0 0 = 0"
  by (simp add: be16_def)

lemma rd16_at_unat:
  "p = pre @ put16 n @ q \<Longrightarrow> i = length pre \<Longrightarrow> n < 65536 \<Longrightarrow> \<exists>w. rd16 p i = Inr w \<and> unat w = n"
  using rd16_at unat_be16_of_nat by blast

text \<open>A ClientHello as a client builds it: its variable parts, and the bytes on the wire.\<close>

type_synonym tls_extension = "nat \<times> bytes"

definition extension_bytes :: "tls_extension \<Rightarrow> bytes" where
  "extension_bytes = (\<lambda>(ty, body). put16 ty @ put16 (length body) @ body)"

definition server_name_extension :: "bytes \<Rightarrow> tls_extension" where
  "server_name_extension host =
     (0, put16 (length host + 3) @ [0] @ put16 (length host) @ host)"

record client_hello =
  ch_record_version :: "u8 \<times> u8"
  ch_version_random :: bytes
  ch_session_id :: bytes
  ch_cipher_suites :: bytes
  ch_compression :: bytes
  ch_before :: "tls_extension list"
  ch_host :: bytes
  ch_after :: bytes

definition hello_extensions :: "client_hello \<Rightarrow> bytes" where
  "hello_extensions ch = concat (map extension_bytes (ch_before ch)) @
     extension_bytes (server_name_extension (ch_host ch)) @ ch_after ch"

definition hello_prefix :: "client_hello \<Rightarrow> bytes" where
  "hello_prefix ch = ch_version_random ch @ [of_nat (length (ch_session_id ch))] @ ch_session_id ch @
     put16 (length (ch_cipher_suites ch)) @ ch_cipher_suites ch @
     [of_nat (length (ch_compression ch))] @ ch_compression ch @
     put16 (length (hello_extensions ch))"

definition hello_body :: "client_hello \<Rightarrow> bytes" where
  "hello_body ch = hello_prefix ch @ hello_extensions ch"

definition record_start :: "client_hello \<Rightarrow> bytes" where
  "record_start ch = [0x16, fst (ch_record_version ch), snd (ch_record_version ch)] @
     put16 (length (hello_body ch) + 4) @ [0x01] @ put24 (length (hello_body ch))"

definition client_hello_bytes :: "client_hello \<Rightarrow> bytes" where
  "client_hello_bytes ch = record_start ch @ hello_body ch"

definition wf_client_hello :: "client_hello \<Rightarrow> bool" where
  "wf_client_hello ch \<longleftrightarrow>
     fst (ch_record_version ch) = 3 \<and> snd (ch_record_version ch) \<le> 4 \<and>
     length (ch_version_random ch) = 34 \<and> length (ch_session_id ch) < 256 \<and>
     length (ch_cipher_suites ch) < 65536 \<and> length (ch_compression ch) < 256 \<and>
     list_all (\<lambda>(ty, body). 0 < ty \<and> ty < 65536 \<and> length body < 65536) (ch_before ch) \<and>
     length (hello_body ch) + 4 < 65536"

lemma scan_extensions_skip:
  assumes "list_all (\<lambda>(ty, body). 0 < ty \<and> ty < 65536 \<and> length body < 65536) es"
    and "length pre + length (concat (map extension_bytes es)) \<le> e"
  shows "scan_extensions (pre @ concat (map extension_bytes es) @ q) e (length pre) =
         scan_extensions (pre @ concat (map extension_bytes es) @ q) e
           (length pre + length (concat (map extension_bytes es)))"
  using assms
proof (induction es arbitrary: pre)
  case (Cons x es)
  obtain ty body where x: "x = (ty, body)" by (cases x)
  let ?p = "pre @ concat (map extension_bytes (x # es)) @ q"
  have ty: "0 < ty" "ty < 65536" "length body < 65536" using Cons.prems(1) x by auto
  have e: "length pre + (4 + length body) \<le> e" using Cons.prems(2) by (simp add: x extension_bytes_def)
  have r: "rd16 ?p (length pre) = Inr (be16 (of_nat (ty div 256)) (of_nat ty))"
    "rd16 ?p (length pre + 2) = Inr (be16 (of_nat (length body div 256)) (of_nat (length body)))"
    by (rule rd16_at; simp add: x extension_bytes_def)
      (rule rd16_at [where pre = "pre @ put16 ty"]; simp add: x extension_bytes_def)
  have "be16 (of_nat (ty div 256)) (of_nat ty) \<noteq> 0"
    using ty unat_be16_of_nat [of ty] by (metis less_irrefl unsigned_0)
  then have "scan_extensions ?p e (length pre) = scan_extensions ?p e (length pre + (4 + length body))"
    using r e ty by (subst scan_extensions.simps) (simp add: Let_def add.assoc)
  moreover have "scan_extensions ?p e (length (pre @ extension_bytes x)) =
      scan_extensions ?p e (length (pre @ extension_bytes x) + length (concat (map extension_bytes es)))"
    using Cons.IH [of "pre @ extension_bytes x"] Cons.prems by simp
  moreover have "length pre + (4 + length body) = length (pre @ extension_bytes x)"
    by (simp add: x extension_bytes_def)
  moreover have "length (pre @ extension_bytes x) + length (concat (map extension_bytes es)) =
      length pre + length (concat (map extension_bytes (x # es)))"
    by simp
  ultimately show ?case by (simp only:)
qed simp

lemma scan_extensions_server_name:
  assumes "length host + 9 < 65536" and "length pre + length host + 9 \<le> e"
  shows "scan_extensions (pre @ extension_bytes (server_name_extension host) @ q) e (length pre) =
         Inr (Some (map byte_char host))"
proof -
  let ?n = "length host"
  let ?p = "pre @ extension_bytes (server_name_extension host) @ q"
  have p: "?p = pre @ put16 0 @ put16 (?n + 5) @ put16 (?n + 3) @ [0] @ put16 ?n @ host @ q"
    by (simp add: extension_bytes_def server_name_extension_def numeral_eq_Suc)
  have three: "w < 3 \<longleftrightarrow> unat w < 3" for w :: u16 by (simp add: word_less_nat_alt)
  have b: "?n + 5 < 65536" "?n + 3 < 65536" "?n < 65536" using assms by simp_all
  have "rd16 ?p (length pre) = Inr (be16 (of_nat (0 div 256)) (of_nat 0))"
    "\<exists>w. rd16 ?p (length pre + 2) = Inr w \<and> unat w = ?n + 5"
    "\<exists>w. rd16 ?p (length pre + 4) = Inr w \<and> unat w = ?n + 3"
    "rd ?p (length pre + 6) = Inr 0"
    "\<exists>w. rd16 ?p (length pre + 7) = Inr w \<and> unat w = ?n"
    "rd_bytes ?p (length pre + 9) ?n = Inr host"
    unfolding p
         apply (rule rd16_at [where pre = pre], simp, simp)
        apply (rule rd16_at_unat [where pre = "pre @ put16 0", OF _ _ b(1)], simp, simp)
       apply (rule rd16_at_unat [where pre = "pre @ put16 0 @ put16 (?n + 5)", OF _ _ b(2)], simp, simp)
      apply (rule rd_at [where pre = "pre @ put16 0 @ put16 (?n + 5) @ put16 (?n + 3)"], simp, simp)
     apply (rule rd16_at_unat [where pre = "pre @ put16 0 @ put16 (?n + 5) @ put16 (?n + 3) @ [0]",
          OF _ _ b(3)], simp, simp)
    apply (rule rd_bytes_at [where
        pre = "pre @ put16 0 @ put16 (?n + 5) @ put16 (?n + 3) @ [0] @ put16 ?n"], simp, simp, simp)
    done
  then show ?thesis
    using assms by (subst scan_extensions.simps) (auto simp: Let_def ac_simps three)
qed

lemma isTLSClientHello_bytes:
  assumes "wf_client_hello ch"
  shows "isTLSClientHello (client_hello_bytes ch @ q) (length (client_hello_bytes ch @ q)) = Inr True"
proof -
  let ?p = "client_hello_bytes ch @ q" and ?n = "length (hello_body ch)"
  obtain v w where v: "ch_record_version ch = (v, w)" by (cases "ch_record_version ch")
  have p: "?p = [0x16, v, w] @ put16 (?n + 4) @ [0x01] @ put24 ?n @ hello_body ch @ q"
    by (simp add: client_hello_bytes_def record_start_def v)
  have n: "?n + 4 < 65536" and vw: "v = 3" "w \<le> 4"
    using assms by (auto simp: wf_client_hello_def v)
  have r: "rd ?p 0 = Inr 0x16" "rd16 ?p 1 = Inr (be16 v w)"
    "rd16 ?p 3 = Inr (be16 (of_nat ((?n + 4) div 256)) (of_nat (?n + 4)))" "rd ?p 5 = Inr 0x01"
    unfolding p
       apply (simp add: rd_def)
      apply (simp add: rd16_def rd_def)
     apply (rule rd16_at [where pre = "[0x16, v, w]"], simp, simp)
    apply (rule rd_at [where pre = "[0x16, v, w] @ put16 (?n + 4)"], simp, simp)
    done
  have "\<not> be16 v w < 0x0300" "\<not> be16 v w > 0x0304"
    using vw by (auto simp: word_less_nat_alt word_le_nat_alt byte_order)
  moreover have "length ?p = ?n + 9 + length q" by (simp add: p)
  ultimately show ?thesis
    using r n unat_be16_of_nat [of "?n + 4"] unfolding isTLSClientHello_def by simp
qed

lemma extract_client_hello:
  assumes "wf_client_hello ch"
  shows "SNIExtractor_extract (client_hello_bytes ch @ q) (length (client_hello_bytes ch @ q)) =
         Inr (Some (map byte_char (ch_host ch)))"
proof -
  let ?p = "client_hello_bytes ch @ q" and ?body = "hello_body ch" and ?ext = "hello_extensions ch"
  let ?r = "record_start ch" and ?vr = "ch_version_random ch" and ?s = "ch_session_id ch"
    and ?c = "ch_cipher_suites ch" and ?m = "ch_compression ch"
  let ?es = "concat (map extension_bytes (ch_before ch))"
    and ?sn = "extension_bytes (server_name_extension (ch_host ch))"
  have wf: "length ?vr = 34" "length ?s < 256" "length ?c < 65536" "length ?m < 256"
    "list_all (\<lambda>(ty, body). 0 < ty \<and> ty < 65536 \<and> length body < 65536) (ch_before ch)"
    "length ?body + 4 < 65536"
    using assms by (auto simp: wf_client_hello_def)
  have rl: "length ?r = 9" by (simp add: record_start_def)
  have p: "?p = ?r @ ?vr @ of_nat (length ?s) # ?s @ put16 (length ?c) @ ?c @
      of_nat (length ?m) # ?m @ put16 (length ?ext) @ ?ext @ q"
    by (simp add: client_hello_bytes_def hello_body_def hello_prefix_def)
  have bl: "length ?body = 40 + length ?s + length ?c + length ?m + length ?ext"
    by (simp add: hello_body_def hello_prefix_def wf)
  have pl: "length ?p = 49 + length ?s + length ?c + length ?m + length ?ext + length q"
    by (simp add: p rl wf)
  have hs: "rd24 ?p 6 = Inr (be24 (of_nat (length ?body div 65536)) (of_nat (length ?body div 256))
      (of_nat (length ?body)))"
    by (rule rd24_at [where pre = "[0x16, fst (ch_record_version ch), snd (ch_record_version ch)] @
          put16 (length ?body + 4) @ [0x01]" and q = "?body @ q"])
      (simp_all only: client_hello_bytes_def record_start_def append_assoc list.size length_append length_put)
  have r: "rd ?p 43 = Inr (of_nat (length ?s))"
    "rd16 ?p (44 + length ?s) = Inr (be16 (of_nat (length ?c div 256)) (of_nat (length ?c)))"
    "rd ?p (46 + length ?s + length ?c) = Inr (of_nat (length ?m))"
    "rd16 ?p (47 + length ?s + length ?c + length ?m) =
       Inr (be16 (of_nat (length ?ext div 256)) (of_nat (length ?ext)))"
    unfolding p
       apply (rule rd_at [where pre = "?r @ ?vr"]; simp add: rl wf)
      apply (rule rd16_at [where pre = "?r @ ?vr @ [of_nat (length ?s)] @ ?s"]; simp add: rl wf)
     apply (rule rd_at [where pre = "?r @ ?vr @ [of_nat (length ?s)] @ ?s @ put16 (length ?c) @ ?c"];
        simp add: rl wf)
    apply (rule rd16_at [where pre = "?r @ ?vr @ [of_nat (length ?s)] @ ?s @ put16 (length ?c) @ ?c @
          [of_nat (length ?m)] @ ?m"]; simp add: rl wf)
    done
  let ?pre = "?r @ hello_prefix ch"
  have pre: "length ?pre = 49 + length ?s + length ?c + length ?m"
    by (simp add: hello_prefix_def rl wf)
  have pe: "?p = ?pre @ ?es @ ?sn @ ch_after ch @ q"
    by (simp add: client_hello_bytes_def hello_body_def hello_extensions_def)
  have el: "length ?ext = length ?es + length ?sn + length (ch_after ch)"
    by (simp add: hello_extensions_def)
  have snl: "length ?sn = length (ch_host ch) + 9"
    by (simp add: extension_bytes_def server_name_extension_def)
  have "scan_extensions ?p (length ?pre + length ?ext) (length ?pre) =
      scan_extensions ?p (length ?pre + length ?ext) (length (?pre @ ?es))"
    unfolding pe using scan_extensions_skip [OF wf(5), of ?pre "length ?pre + length ?ext"] el
    by (simp add: add.assoc)
  also have "\<dots> = Inr (Some (map byte_char (ch_host ch)))"
    using scan_extensions_server_name [of "ch_host ch" "?pre @ ?es" "length ?pre + length ?ext"]
      wf(6) bl el snl unfolding pe by simp
  finally have scan: "scan_extensions ?p (49 + length ?s + length ?c + length ?m + length ?ext)
      (49 + length ?s + length ?c + length ?m) = Inr (Some (map byte_char (ch_host ch)))"
    unfolding pre .
  have u: "unat (of_nat (length ?s) :: u8) = length ?s" "unat (of_nat (length ?m) :: u8) = length ?m"
    using wf by simp_all
  obtain h c e where w: "rd24 ?p 6 = Inr h" "unat h = length ?body"
    "rd16 ?p (44 + length ?s) = Inr c" "unat c = length ?c"
    "rd16 ?p (47 + length ?s + length ?c + length ?m) = Inr e" "unat e = length ?ext"
  proof -
    have "\<exists>h. rd24 ?p 6 = Inr h \<and> unat h = length ?body"
      by (intro exI conjI, rule hs, rule unat_be24_of_nat, use wf(6) in linarith)
    moreover have "\<exists>c. rd16 ?p (44 + length ?s) = Inr c \<and> unat c = length ?c"
      by (intro exI conjI, rule r, rule unat_be16_of_nat, use wf(3) in linarith)
    moreover have "\<exists>e. rd16 ?p (47 + length ?s + length ?c + length ?m) = Inr e \<and> unat e = length ?ext"
      by (intro exI conjI, rule r, rule unat_be16_of_nat, use wf(6) bl in linarith)
    ultimately show thesis using that by blast
  qed
  obtain P N where PN: "P = ?p" "N = length ?p" by blast
  show ?thesis
    unfolding SNIExtractor_extract_def isTLSClientHello_bytes [OF assms]
    using w r(1,3) scan pl bl wf(2-4) u unfolding PN [symmetric]
    by (simp add: Let_def ac_simps del: unsigned_of_nat unat_of_nat_u8)
qed

text \<open>
  C14. Completeness of the SNI extraction: from every well-formed ClientHello, whatever its session id,
  cipher suites, compression methods, extensions before and after the server name, and whatever
  follows the record, the extractor returns exactly the host name the client put in.
\<close>

theorem sni_roundtrip:
  assumes "wf_client_hello ch"
  shows "SNIExtractor_extract (client_hello_bytes ch @ q) (length (client_hello_bytes ch @ q)) =
         Inr (Some (map byte_char (ch_host ch)))"
  using assms by (rule extract_client_hello)

text \<open>A minimal hello for "a.io", after an ALPN-like extension.\<close>

definition sample_hello :: client_hello where
  "sample_hello = \<lparr>ch_record_version = (3, 1), ch_version_random = replicate 34 7,
     ch_session_id = [1, 2], ch_cipher_suites = [0x13, 1], ch_compression = [0],
     ch_before = [(16, [9, 9])], ch_host = [0x61, 0x2E, 0x69, 0x6F], ch_after = [0xFF, 1, 0, 0]\<rparr>"

theorem sni_roundtrip_witness:
  "SNIExtractor_extract (client_hello_bytes sample_hello @ [5]) (length (client_hello_bytes sample_hello @ [5])) =
     Inr (Some (map byte_char [0x61, 0x2E, 0x69, 0x6F]))"
proof -
  have "wf_client_hello sample_hello"
    by (simp add: wf_client_hello_def sample_hello_def hello_body_def hello_prefix_def
        hello_extensions_def extension_bytes_def server_name_extension_def)
  from sni_roundtrip [OF this, of "[5]"] show ?thesis
    by (simp add: sample_hello_def)
qed

text \<open>DNS: a name is sent as its labels, each after its length, and ends with an empty label.\<close>

definition label_bytes :: "bytes list \<Rightarrow> bytes" where
  "label_bytes labels = concat (map (\<lambda>l. of_nat (length l) # l) labels)"

fun dotted :: "bytes list \<Rightarrow> string" where
  "dotted [] = []"
| "dotted [l] = map byte_char l"
| "dotted (l # ls) = map byte_char l @ CHR ''.'' # dotted ls"

definition wf_labels :: "bytes list \<Rightarrow> bool" where
  "wf_labels labels \<longleftrightarrow> list_all (\<lambda>l. l \<noteq> [] \<and> length l < 64) labels"

lemma label_length_plain:
  assumes "n < 64"
  shows "(of_nat n :: u8) AND 0xC0 \<noteq> 0xC0"
proof
  assume *: "(of_nat n :: u8) AND 0xC0 = 0xC0"
  have "bit (of_nat n AND 0xC0 :: u8) 7" unfolding * by (simp add: bit_numeral_rec)
  then have "bit n 7" by (simp add: bit_simps)
  moreover have "\<not> bit (take_bit 6 n) 7" by (simp add: bit_take_bit_iff)
  ultimately show False using assms by (simp add: take_bit_nat_eq_self)
qed

lemma dns_loop_labels:
  assumes "wf_labels labels" and "n = length (pre @ label_bytes labels @ 0 # q)"
  shows "dns_loop (pre @ label_bytes labels @ 0 # q) n (length pre) orig False jumps domain =
    (let d = domain @ (if domain \<noteq> [] \<and> labels \<noteq> [] then ''.'' else []) @ dotted labels
     in Inr (d \<noteq> [], length pre + length (label_bytes labels), d))"
  using assms
proof (induction labels arbitrary: pre domain)
  case Nil
  then show ?case by (subst dns_loop.simps) (simp add: label_bytes_def rd_def)
next
  case (Cons l ls)
  let ?p = "pre @ label_bytes (l # ls) @ 0 # q"
  have l: "l \<noteq> []" "length l < 64" using Cons.prems(1) by (auto simp: wf_labels_def)
  have b: "rd ?p (length pre) = Inr (of_nat (length l))" "rd_bytes ?p (length pre + 1) (length l) = Inr l"
    by (simp_all add: label_bytes_def rd_def)
  have u: "unat (of_nat (length l) :: u8) = length l" "(of_nat (length l) :: u8) \<noteq> 0"
    using l by (simp_all add: word_unat_eq_iff)
  let ?d = "(if domain \<noteq> [] then domain @ ''.'' else domain) @ map byte_char l"
  have "dns_loop ?p n (length pre) orig False jumps domain =
      dns_loop ?p n (length pre + 1 + length l) orig False jumps ?d"
    using l b u label_length_plain [of "length l"] Cons.prems(2)
    by (subst dns_loop.simps) (simp add: Let_def label_bytes_def del: unat_of_nat_u8 unsigned_of_nat)
  also have "\<dots> = dns_loop ((pre @ of_nat (length l) # l) @ label_bytes ls @ 0 # q) n
      (length (pre @ of_nat (length l) # l)) orig False jumps ?d"
    by (simp add: label_bytes_def)
  also have "\<dots> = (let d = ?d @ (if ?d \<noteq> [] \<and> ls \<noteq> [] then ''.'' else []) @ dotted ls
     in Inr (d \<noteq> [], length (pre @ of_nat (length l) # l) + length (label_bytes ls), d))"
    by (rule Cons.IH) (use Cons.prems in \<open>auto simp: wf_labels_def label_bytes_def\<close>)
  finally show ?case
    using l by (cases ls) (auto simp: Let_def label_bytes_def)
qed

lemma extractQuery_name:
  assumes "length header = 12" and "header ! 2 AND 0x80 = 0" and "be16 (header ! 4) (header ! 5) \<noteq> 0"
    and "wf_labels labels" and "labels \<noteq> []"
    and "p = header @ label_bytes labels @ 0 # q"
  shows "\<exists>r. extractQuery p (length p) = Inr (Some r) \<and> dns_query_domain r = dotted labels \<and>
    dns_transaction_id r = be16 (header ! 0) (header ! 1)"
proof -
  have loop: "dns_loop p (length p) 12 12 False 0 [] =
      Inr (dotted labels \<noteq> [], 12 + length (label_bytes labels), dotted labels)"
    using dns_loop_labels [OF assms(4) refl, of header q 12 0 "[]"] assms(1,6)
    by (simp add: Let_def)
  have "dotted labels \<noteq> []"
    using assms(4,5) by (cases labels rule: dotted.cases) (auto simp: wf_labels_def)
  moreover have "p ! k = header ! k" if "k < 12" for k
    using that assms(1,6) by (simp add: nth_append)
  ultimately show ?thesis
    using loop assms
    by (simp add: extractQuery_def isDNSQuery_def readDomainName_def word_gt_0)
qed

text \<open>
  C36. A query with a well-formed name (labels of 1 to 63 bytes) is recognised, whatever follows the
  name, and \<open>extractQuery\<close> reports the dotted name and the header's transaction id.
\<close>

theorem dns_roundtrip:
  assumes "length header = 12" and "header ! 2 AND 0x80 = 0" and "be16 (header ! 4) (header ! 5) \<noteq> 0"
    and "wf_labels labels" and "labels \<noteq> []"
    and "p = header @ label_bytes labels @ 0 # q"
  shows "\<exists>r. extractQuery p (length p) = Inr (Some r) \<and> dns_query_domain r = dotted labels \<and>
    dns_transaction_id r = be16 (header ! 0) (header ! 1)"
  using assms by (rule extractQuery_name)

theorem dns_roundtrip_witness:
  "\<exists>r. extractQuery ([0x12, 0x34, 1, 0, 0, 1, 0, 0, 0, 0, 0, 0] @ label_bytes [[0x61], [0x69, 0x6F]] @ 0 # [0, 1, 0, 1])
      (length ([0x12, 0x34, 1, 0, 0, 1, 0, 0, 0, 0, 0, 0] @ label_bytes [[0x61], [0x69, 0x6F]] @ 0 # [0, 1, 0, 1])) =
        Inr (Some r) \<and> dns_query_domain r = dotted [[0x61], [0x69, 0x6F]] \<and>
      dns_transaction_id r = be16 ([0x12, 0x34, 1, 0, 0, 1, 0, 0, 0, 0, 0, 0] ! 0)
        ([0x12, 0x34, 1, 0, 0, 1, 0, 0, 0, 0, 0, 0] ! 1)"
  by (rule dns_roundtrip [where labels = "[[0x61], [0x69, 0x6F]]" and q = "[0, 1, 0, 1]"])
    (simp_all add: wf_labels_def be16_def)

text \<open>HTTP: the first line that starts with \<open>host:\<close>, in any letter case, decides.\<close>

definition starts_with_host :: "bytes \<Rightarrow> bool" where
  "starts_with_host q \<longleftrightarrow> map (to_lower \<circ> byte_char) (take 5 q) = ''host:''"

lemma to_lower_colon: "to_lower c = CHR '':'' \<longleftrightarrow> c = CHR '':''"
  by (subst to_lower_eq_iff) simp_all

lemma host_at_iff:
  assumes "s + 5 \<le> length p"
  shows "host_at p (length p) s = Inr (starts_with_host (drop s p))"
proof -
  have t: "take 5 (drop s p) = [p ! s, p ! (s + 1), p ! (s + 2), p ! (s + 3), p ! (s + 4)]"
    using assms by (auto simp: list_eq_iff_nth_eq nth_Cons' numeral_eq_Suc less_Suc_eq)
  show ?thesis
    using assms unfolding host_at_def tolower_is_def starts_with_host_def t
    by (simp add: to_lower_colon)
qed

lemma advance_run:
  assumes "\<forall>x \<in> set xs. t x" and "\<not> t y" and "n = length (pre @ xs @ y # q)"
  shows "advance t (pre @ xs @ y # q) n (length pre) = Inr (length pre + length xs)"
  using assms
proof (induction xs arbitrary: pre)
  case Nil
  then show ?case by (subst advance.simps) (simp add: rd_def)
next
  case (Cons x xs)
  have "advance t ((pre @ [x]) @ xs @ y # q) n (length (pre @ [x])) =
      Inr (length (pre @ [x]) + length xs)"
    by (rule Cons.IH) (use Cons.prems in auto)
  then show ?case using Cons.prems by (subst advance.simps) (simp add: rd_def)
qed

lemma trim_end_run:
  assumes "\<forall>x \<in> set bl. is_blank x" and "xs \<noteq> []" and "\<not> is_blank (last xs)"
  shows "trim_end (pre @ xs @ bl @ q) (length pre) (length pre + length xs + length bl) =
         Inr (length pre + length xs)"
  using assms(1)
proof (induction bl arbitrary: q rule: rev_induct)
  case Nil
  obtain ys y where xs: "xs = ys @ [y]" using assms(2) by (cases xs rule: rev_cases) auto
  then show ?case using assms(3) by (simp add: rd_def nth_append)
next
  case (snoc b bl)
  have "length pre < length pre + length xs" using assms(2) by simp
  moreover have "rd (pre @ xs @ bl @ b # q) (length pre + length xs + length bl) = Inr b"
    by (simp add: rd_def nth_append)
  ultimately show ?case using snoc by simp
qed

definition no_host_line :: "bytes \<Rightarrow> bytes \<Rightarrow> bool" where
  "no_host_line pre q \<longleftrightarrow>
     (\<forall>i < length pre. pre ! i = 0x0A \<longrightarrow> \<not> starts_with_host (drop (Suc i) (pre @ q)))"

lemma no_host_line_Nil [simp]: "no_host_line [] q"
  by (simp add: no_host_line_def)

lemma no_host_line_Cons:
  "no_host_line (b # pre) q \<longleftrightarrow> (b = 0x0A \<longrightarrow> \<not> starts_with_host (pre @ q)) \<and> no_host_line pre q"
  by (simp add: no_host_line_def All_less_Suc2)

lemma http_scan_skip:
  assumes "no_host_line pre q" and "i \<le> length pre" and "6 < length q" and "p = pre @ q"
  shows "http_scan p (length p) i = http_scan p (length p) (length pre)"
  using assms(2)
proof (induction "length pre - i" arbitrary: i)
  case (Suc k)
  then have i: "i < length pre" by simp
  have "http_scan p (length p) i = http_scan p (length p) (Suc i)"
  proof (cases "pre ! i = 0x0A")
    case True
    then have "\<not> starts_with_host (drop (Suc i) p)" using assms(1,4) i by (auto simp: no_host_line_def)
    then show ?thesis
      using host_at_iff [of "Suc i" p] i assms(3,4)
      by (subst http_scan.simps) (simp add: rd_def nth_append)
  next
    case False
    then show ?thesis using i assms(3,4) by (subst http_scan.simps) (simp add: rd_def nth_append)
  qed
  then show ?case using Suc by simp
qed simp

lemma extract_host:
  assumes "map byte_char (take 4 p) \<in> set http_methods"
    and "p = pre @ 0x0A # name @ b1 @ val @ b2 @ eol # rest"
    and "no_host_line pre (0x0A # name @ b1 @ val @ b2 @ eol # rest)"
    and "length name = 5" and "starts_with_host name"
    and "list_all is_blank b1" and "list_all is_blank b2" and "is_eol eol"
    and "val \<noteq> []" and "\<not> is_blank (hd val)" and "\<not> is_blank (last val)"
    and "list_all (\<lambda>b. \<not> is_eol b) val"
  shows "HTTPHostExtractor_extract p (length p) =
    Inr (Some (takeWhile (\<lambda>c. c \<noteq> CHR '':'') (map byte_char val)))"
proof -
  let ?q = "0x0A # name @ b1 @ val @ b2 @ eol # rest"
  let ?i = "length pre" and ?v = "length pre + 6 + length b1"
  have blank_eol: "is_blank b \<Longrightarrow> \<not> is_eol b" for b by (auto simp: is_blank_def is_eol_def)
  obtain x xs where val: "val = x # xs" using assms(9) by (cases val) auto
  have len: "length p = ?v + length val + length b2 + 1 + length rest"
    using assms(2,4) by simp
  have "starts_with_host (drop (Suc ?i) p)"
    using assms(2,4,5) by (simp add: starts_with_host_def)
  then have host: "host_at p (length p) (Suc ?i) = Inr True"
    using host_at_iff [of "Suc ?i" p] len by simp
  have "advance is_blank ((pre @ 0x0A # name) @ b1 @ x # (xs @ b2 @ eol # rest)) (length p)
      (length (pre @ 0x0A # name)) = Inr (length (pre @ 0x0A # name) + length b1)"
    by (rule advance_run) (use assms val in \<open>auto simp: list_all_iff\<close>)
  then have a1: "advance is_blank p (length p) (Suc ?i + 5) = Inr ?v"
    using assms(2,4) by (simp add: val add.commute [of 6])
  have "advance (\<lambda>b. \<not> is_eol b) ((pre @ 0x0A # name @ b1) @ (val @ b2) @ eol # rest) (length p)
      (length (pre @ 0x0A # name @ b1)) = Inr (length (pre @ 0x0A # name @ b1) + length (val @ b2))"
    by (rule advance_run) (use assms blank_eol in \<open>auto simp: list_all_iff\<close>)
  then have a2: "advance (\<lambda>b. \<not> is_eol b) p (length p) ?v = Inr (?v + length val + length b2)"
    using assms(2,4) by (simp add: add.assoc)
  have "trim_end ((pre @ 0x0A # name @ b1) @ val @ b2 @ eol # rest) (length (pre @ 0x0A # name @ b1))
      (length (pre @ 0x0A # name @ b1) + length val + length b2) =
      Inr (length (pre @ 0x0A # name @ b1) + length val)"
    by (rule trim_end_run) (use assms in \<open>auto simp: list_all_iff\<close>)
  then have a3: "trim_end p ?v (?v + length val + length b2) = Inr (?v + length val)"
    using assms(2,4) by (simp add: add.assoc)
  have slice: "rd_bytes p ?v (length val) = Inr val"
    by (rule rd_bytes_at [where pre = "pre @ 0x0A # name @ b1"]) (use assms(2,4) in auto)
  have "host_value p (length p) (Suc ?i) = Inr (Some (takeWhile (\<lambda>c. c \<noteq> CHR '':'') (map byte_char val)))"
    unfolding host_value_def a1 rbind.simps a2 a3 using assms(9) slice by simp
  moreover have "rd p ?i = Inr 0x0A" "?i + 6 < length p"
    using assms(2,9) len by (simp_all add: rd_def)
  ultimately have "http_scan p (length p) ?i =
      Inr (Some (takeWhile (\<lambda>c. c \<noteq> CHR '':'') (map byte_char val)))"
    using host by (subst http_scan.simps) simp
  moreover have "http_scan p (length p) 0 = http_scan p (length p) ?i"
    by (rule http_scan_skip [OF assms(3)]) (use assms(2,4,9) in auto)
  moreover have "isHTTPRequest p (length p) = Inr True"
    using assms(1) len assms(9) by (simp add: isHTTPRequest_def)
  ultimately show ?thesis by (simp add: HTTPHostExtractor_extract_def)
qed

text \<open>
  C37. A request with a Host header: when the payload starts with one of the known methods and the first
  line that starts with \<open>host:\<close> is \<open>Host: value\<close>, blanks around the value allowed, then the extractor
  reports the value up to its port.
\<close>

theorem http_roundtrip:
  assumes "map byte_char (take 4 p) \<in> set http_methods"
    and "p = pre @ 0x0A # name @ b1 @ val @ b2 @ eol # rest"
    and "no_host_line pre (0x0A # name @ b1 @ val @ b2 @ eol # rest)"
    and "length name = 5" and "starts_with_host name"
    and "list_all is_blank b1" and "list_all is_blank b2" and "is_eol eol"
    and "val \<noteq> []" and "\<not> is_blank (hd val)" and "\<not> is_blank (last val)"
    and "list_all (\<lambda>b. \<not> is_eol b) val"
  shows "HTTPHostExtractor_extract p (length p) =
    Inr (Some (takeWhile (\<lambda>c. c \<noteq> CHR '':'') (map byte_char val)))"
  using assms by (rule extract_host)

lemma to_lower_byte: "to_lower (byte_char b) = byte_char (if 65 \<le> b \<and> b \<le> 90 then b + 32 else b)"
proof -
  have "(of_char (byte_char b) :: nat) = unat b" by (simp add: byte_char_def of_char_of)
  moreover have "unat (b + 32) = unat b + 32" if "b \<le> 90"
    using that by (simp add: word_le_nat_alt unat_word_ariths)
  ultimately show ?thesis
    by (auto simp: to_lower_def byte_char_def word_le_nat_alt)
qed

lemmas concrete_bytes = to_lower_byte byte_char_eq_iff char_byte_def

text \<open>\<open>GET /\<close>, a line \<open>X:1\<close>, then \<open>HoST: a.b:80\<close>.\<close>

definition sample_request :: bytes where
  "sample_request =
     [0x47, 0x45, 0x54, 0x20, 0x2F, 0x0A, 0x58, 0x3A, 0x31, 0x0D] @ 0x0A # [0x48, 0x6F, 0x53, 0x54, 0x3A] @
     [0x20] @ [0x61, 0x2E, 0x62, 0x3A, 0x38, 0x30] @ [] @ 0x0D # [0x0A]"

lemma sample_request_facts:
  "map byte_char (take 4 sample_request) \<in> set http_methods"
  "no_host_line [0x47, 0x45, 0x54, 0x20, 0x2F, 0x0A, 0x58, 0x3A, 0x31, 0x0D]
      (0x0A # [0x48, 0x6F, 0x53, 0x54, 0x3A] @ [0x20] @ [0x61, 0x2E, 0x62, 0x3A, 0x38, 0x30] @ [] @
        0x0D # [0x0A])"
  "starts_with_host [0x48, 0x6F, 0x53, 0x54, 0x3A]"
proof -
  show "map byte_char (take 4 sample_request) \<in> set http_methods"
    by (simp add: sample_request_def http_methods_def concrete_bytes)
  have *: "\<not> starts_with_host ([0x58, 0x3A, 0x31, 0x0D, 0x0A, 0x48, 0x6F, 0x53, 0x54, 0x3A, 0x20, 0x61,
      0x2E, 0x62, 0x3A, 0x38, 0x30, 0x0D, 0x0A])"
    by (simp add: starts_with_host_def concrete_bytes)
  show "no_host_line [0x47, 0x45, 0x54, 0x20, 0x2F, 0x0A, 0x58, 0x3A, 0x31, 0x0D]
      (0x0A # [0x48, 0x6F, 0x53, 0x54, 0x3A] @ [0x20] @ [0x61, 0x2E, 0x62, 0x3A, 0x38, 0x30] @ [] @
        0x0D # [0x0A])"
    using * by (simp add: no_host_line_Cons)
  show "starts_with_host [0x48, 0x6F, 0x53, 0x54, 0x3A]"
    by (simp add: starts_with_host_def concrete_bytes)
qed

theorem http_roundtrip_witness:
  "HTTPHostExtractor_extract sample_request (length sample_request) =
     Inr (Some (takeWhile (\<lambda>c. c \<noteq> CHR '':'') (map byte_char [0x61, 0x2E, 0x62, 0x3A, 0x38, 0x30])))"
  by (rule http_roundtrip [OF sample_request_facts(1) sample_request_def sample_request_facts(2) _ sample_request_facts(3)])
    (simp_all add: is_blank_def is_eol_def)

lemma extract_sample_request:
  "HTTPHostExtractor_extract sample_request (length sample_request) = Inr (Some ''a.b'')"
proof -
  have "HTTPHostExtractor_extract sample_request (length sample_request) =
     Inr (Some (takeWhile (\<lambda>c. c \<noteq> CHR '':'') (map byte_char [0x61, 0x2E, 0x62, 0x3A, 0x38, 0x30])))"
    by (rule extract_host [OF sample_request_facts(1) sample_request_def sample_request_facts(2) _ sample_request_facts(3)])
      (simp_all add: is_blank_def is_eol_def)
  then show ?thesis by (simp add: concrete_bytes)
qed

end
