(* ===== verification/Reassembler.thy ===== *)
theory Reassembler
  imports Sni
begin

text \<open>
  The TCP reassembler of \<open>include/tcp_reassembler.h\<close> and \<open>src/tcp_reassembler.cpp\<close>: bounded
  out-of-order buffering of one direction of a connection, and the scan of the contiguous buffer for a
  server name. Sequence numbers are 32-bit words, \<open>size_t\<close> arithmetic that could go below zero is
  written with its wrap-around, and all reads of the buffer are checked. The main lemmas are about
  sequences of calls from a fresh reassembler: what it holds, and that it finds the server name of a stream.
\<close>

section \<open>State\<close>

record ReassemblerConfig =
  max_buffer_bytes :: nat
  timeout_seconds :: nat

definition default_config :: ReassemblerConfig where
  "default_config = \<lparr>max_buffer_bytes = 16 * 1024, timeout_seconds = 30\<rparr>"

record Segment =
  seg_seq :: u32
  seg_data :: bytes

record TCPReassembler =
  ra_buffer :: bytes
  ra_expected_seq :: u32
  ra_has_syn :: bool
  ra_expected_seq_initialized :: bool
  ra_out_of_order :: "Segment list"
  ra_current_memory_usage :: nat
  ra_failed :: bool
  ra_last_update :: nat

definition new_reassembler :: "nat \<Rightarrow> TCPReassembler" where
  "new_reassembler now =
     \<lparr>ra_buffer = [], ra_expected_seq = 0, ra_has_syn = False, ra_expected_seq_initialized = False,
      ra_out_of_order = [], ra_current_memory_usage = 0, ra_failed = False, ra_last_update = now\<rparr>"

text \<open>\<open>a -= b\<close> on a \<open>size_t\<close>.\<close>

definition size_sub :: "nat \<Rightarrow> nat \<Rightarrow> nat" where
  "size_sub a b = (if b \<le> a then a - b else a + 2 ^ 64 - b)"

lemma size_sub_le [simp]: "b \<le> a \<Longrightarrow> size_sub a b = a - b"
  by (simp add: size_sub_def)

definition seqDiff :: "u32 \<Rightarrow> u32 \<Rightarrow> int" where
  "seqDiff s1 s2 = sint (s1 - s2)"

definition seg_less :: "Segment \<Rightarrow> Segment \<Rightarrow> bool" where
  "seg_less a b \<longleftrightarrow> seqDiff (seg_seq a) (seg_seq b) < 0"

text \<open>Time points are nanoseconds of the steady clock.\<close>

definition isTimedOut :: "ReassemblerConfig \<Rightarrow> nat \<Rightarrow> TCPReassembler \<Rightarrow> bool" where
  "isTimedOut cfg now st \<longleftrightarrow>
     \<not> ra_failed st \<and> int now - int (ra_last_update st) > int (timeout_seconds cfg) * 10 ^ 9"

definition ra_clear :: "TCPReassembler \<Rightarrow> TCPReassembler" where
  "ra_clear st = st\<lparr>ra_buffer := [], ra_out_of_order := [], ra_current_memory_usage := 0,
                    ra_failed := False\<rparr>"

text \<open>\<open>failed_ = true; clear(); failed_ = true;\<close>\<close>

definition ra_fail :: "TCPReassembler \<Rightarrow> TCPReassembler" where
  "ra_fail st = (ra_clear (st\<lparr>ra_failed := True\<rparr>))\<lparr>ra_failed := True\<rparr>"

section \<open>Merging and insertion\<close>

text \<open>\<open>-diff\<close> for a 32-bit \<open>diff\<close> is undefined for the least value.\<close>

definition negate32 :: "int \<Rightarrow> nat res" where
  "negate32 diff = (if diff = - (2 ^ 31) then Inl SignedOverflow else Inr (nat (- diff)))"

fun merge_loop :: "ReassemblerConfig \<Rightarrow> Segment list \<Rightarrow> TCPReassembler \<Rightarrow> TCPReassembler res" where
  "merge_loop cfg [] st = Inr (st\<lparr>ra_out_of_order := []\<rparr>)"
| "merge_loop cfg (seg # rest) st =
     (let diff = seqDiff (seg_seq seg) (ra_expected_seq st) in
      if diff \<le> 0 then
        rbind (negate32 diff) (\<lambda>overlap_bytes.
          if overlap_bytes < length (seg_data seg) then
            let new_bytes = length (seg_data seg) - overlap_bytes in
            if length (ra_buffer st) + new_bytes > max_buffer_bytes cfg then Inr (ra_fail st)
            else merge_loop cfg rest
                   (st\<lparr>ra_buffer := ra_buffer st @ drop overlap_bytes (seg_data seg),
                       ra_expected_seq := ra_expected_seq st + of_nat new_bytes,
                       ra_current_memory_usage :=
                         size_sub (ra_current_memory_usage st) (length (seg_data seg))\<rparr>)
          else merge_loop cfg rest
                 (st\<lparr>ra_current_memory_usage :=
                       size_sub (ra_current_memory_usage st) (length (seg_data seg))\<rparr>))
      else Inr (st\<lparr>ra_out_of_order := seg # rest\<rparr>))"

definition mergeOutOfOrder :: "ReassemblerConfig \<Rightarrow> TCPReassembler \<Rightarrow> TCPReassembler res" where
  "mergeOutOfOrder cfg st = merge_loop cfg (ra_out_of_order st) st"

text \<open>\<open>std::lower_bound\<close>: binary search between \<open>first\<close> and \<open>first + count\<close>.\<close>

function lower_bound_loop :: "Segment list \<Rightarrow> Segment \<Rightarrow> nat \<Rightarrow> nat \<Rightarrow> nat" where
  "lower_bound_loop xs v first count =
     (if 0 < count then
        let half = count div 2; mid = first + half in
        if seg_less (xs ! mid) v then lower_bound_loop xs v (mid + 1) (count - (half + 1))
        else lower_bound_loop xs v first half
      else first)"
  by pat_completeness auto
termination by (relation "measure (\<lambda>(_, _, _, n). n)") auto

declare lower_bound_loop.simps [simp del]

definition lower_bound :: "Segment list \<Rightarrow> Segment \<Rightarrow> nat" where
  "lower_bound xs v = lower_bound_loop xs v 0 (length xs)"

text \<open>
  The out-of-order branch. The flag is False for the early return on a duplicate.
\<close>

definition buffer_out_of_order :: "u32 \<Rightarrow> bytes \<Rightarrow> TCPReassembler \<Rightarrow> bool \<times> TCPReassembler" where
  "buffer_out_of_order seq data st =
     (let ooo = ra_out_of_order st; new_seg = \<lparr>seg_seq = seq, seg_data = data\<rparr>;
          it = lower_bound ooo new_seg
      in if it \<noteq> length ooo \<and> seg_seq (ooo ! it) = seq then
           (if length data \<le> length (seg_data (ooo ! it)) then (False, st)
            else (True, st\<lparr>ra_out_of_order := ooo[it := new_seg],
                           ra_current_memory_usage :=
                             size_sub (ra_current_memory_usage st) (length (seg_data (ooo ! it))) +
                             length data\<rparr>))
         else (True, st\<lparr>ra_out_of_order := take it ooo @ new_seg # drop it ooo,
                        ra_current_memory_usage := ra_current_memory_usage st + length data\<rparr>))"

section \<open>The scan for a server name\<close>

text \<open>
  Positions are indices into the buffer; \<open>remaining\<close> is a \<open>size_t\<close>.
\<close>

function scan_loop :: "bytes \<Rightarrow> nat \<Rightarrow> nat \<Rightarrow> string option res" where
  "scan_loop buf ext_end p =
     (if p + 4 \<le> ext_end then
        rbind (rd16 buf p) (\<lambda>ext_type.
        rbind (rd16 buf (p + 2)) (\<lambda>w.
          let ext_data_len = unat w; p = p + 4;
              next = (\<lambda>_ :: unit. scan_loop buf ext_end (p + ext_data_len))
          in if ext_type = 0 \<and> p + ext_data_len \<le> ext_end \<and> ext_data_len \<ge> 5 then
               rbind (rd16 buf p) (\<lambda>list_len.
               if \<not> list_len \<ge> 3 then next () else
               rbind (rd buf (p + 2)) (\<lambda>ty.
               if ty \<noteq> 0 then next () else
               rbind (rd16 buf (p + 3)) (\<lambda>name_len.
               if 5 + unat name_len \<le> ext_data_len then
                 rbind (rd_bytes buf (p + 5) (unat name_len)) (\<lambda>sni. Inr (Some (map byte_char sni)))
               else next ())))
             else next ()))
      else Inr None)"
  by pat_completeness auto
termination by (relation "measure (\<lambda>(b, e, p). e - p)") auto

declare scan_loop.simps [simp del]

definition scan_hello :: "bytes \<Rightarrow> string option res" where
  "scan_hello buf =
     (let p = 5; remaining = length buf - 5 in
      if \<not> remaining > 4 then Inr None else
      rbind (rd buf p) (\<lambda>b. if b \<noteq> 0x01 then Inr None else
      if \<not> remaining > 4 + 2 + 32 then Inr None else
      let p = p + 38; remaining = remaining - 38 in
      if \<not> remaining > 0 then Inr None else
      rbind (rd buf p) (\<lambda>sid_len.
      let p = p + (1 + unat sid_len); remaining = size_sub remaining (1 + unat sid_len) in
      if \<not> remaining > 2 then Inr None else
      rbind (rd16 buf p) (\<lambda>cs_len.
      let p = p + (2 + unat cs_len); remaining = size_sub remaining (2 + unat cs_len) in
      if \<not> remaining > 1 then Inr None else
      rbind (rd buf p) (\<lambda>cm_len.
      let p = p + (1 + unat cm_len); remaining = size_sub remaining (1 + unat cm_len) in
      if \<not> remaining > 2 then Inr None else
      rbind (rd16 buf p) (\<lambda>ext_len.
      let p = p + 2; remaining = remaining - 2 in
      scan_loop buf (p + min (unat ext_len) remaining) p))))))"

definition scan_buffer :: "bytes \<Rightarrow> string option res" where
  "scan_buffer buf =
     (if buf = [] then Inr None else
      rbind (QUICSNIExtractor_extract buf (length buf)) (\<lambda>_.
      if \<not> length buf \<ge> 5 then Inr None else
      rbind (rd buf 0) (\<lambda>b0. if b0 \<noteq> 0x16 then Inr None else
      rbind (rd buf 1) (\<lambda>b1. if b1 \<noteq> 0x03 then Inr None else
      rbind (rd16 buf 3) (\<lambda>tls_len.
      if length buf \<ge> 5 + unat tls_len then scan_hello buf else Inr None)))))"

section \<open>One segment\<close>

text \<open>
  From the memory check on: \<open>diff\<close> is zero for the expected segment and positive for a future one.
\<close>

definition accept_segment ::
  "ReassemblerConfig \<Rightarrow> u32 \<Rightarrow> bytes \<Rightarrow> int \<Rightarrow> TCPReassembler \<Rightarrow> (string option \<times> TCPReassembler) res" where
  "accept_segment cfg seq data diff st =
     (if ra_current_memory_usage st + length data > max_buffer_bytes cfg then Inr (None, ra_fail st)
      else if diff = 0 then
        rbind (mergeOutOfOrder cfg
                 (st\<lparr>ra_buffer := ra_buffer st @ data,
                     ra_current_memory_usage := ra_current_memory_usage st + length data,
                     ra_expected_seq := ra_expected_seq st + of_nat (length data)\<rparr>))
          (\<lambda>st. rbind (scan_buffer (ra_buffer st)) (\<lambda>r. Inr (r, st)))
      else
        (case buffer_out_of_order seq data st of
           (False, st) \<Rightarrow> Inr (None, st)
         | (True, st) \<Rightarrow> rbind (scan_buffer (ra_buffer st)) (\<lambda>r. Inr (r, st))))"

definition tryExtractSNI ::
  "ReassemblerConfig \<Rightarrow> nat \<Rightarrow> u32 \<Rightarrow> bytes \<Rightarrow> nat \<Rightarrow> TCPReassembler \<Rightarrow>
     (string option \<times> TCPReassembler) res" where
  "tryExtractSNI cfg now seq payload len st0 =
     (if ra_failed st0 \<or> len = 0 then Inr (None, st0) else
      let st1 = st0\<lparr>ra_last_update := now\<rparr>;
          st = (if \<not> ra_expected_seq_initialized st1 then
                  st1\<lparr>ra_expected_seq := seq, ra_expected_seq_initialized := True\<rparr>
                else st1);
          diff = seqDiff seq (ra_expected_seq st)
      in if diff < 0 then
           rbind (negate32 diff) (\<lambda>overlap_bytes.
             if overlap_bytes \<ge> len then Inr (None, st)
             else rbind (rd_bytes payload overlap_bytes (len - overlap_bytes)) (\<lambda>data.
                    accept_segment cfg (seq + of_nat overlap_bytes) data 0 st))
         else rbind (rd_bytes payload 0 len) (\<lambda>data. accept_segment cfg seq data diff st))"

text \<open>
  The calls the owner of a reassembler makes, in their order: a segment with the time at which it comes,
  or \<open>clear\<close>. The results are those of the segments.
\<close>

datatype ra_call = Try nat u32 bytes | Clear

fun ra_run :: "ReassemblerConfig \<Rightarrow> ra_call list \<Rightarrow> TCPReassembler \<Rightarrow> (string option list \<times> TCPReassembler) res" where
  "ra_run cfg [] st = Inr ([], st)"
| "ra_run cfg (Try now seq data # calls) st =
     rbind (tryExtractSNI cfg now seq data (length data) st) (\<lambda>(r, st).
     rbind (ra_run cfg calls st) (\<lambda>(rs, st). Inr (r # rs, st)))"
| "ra_run cfg (Clear # calls) st = ra_run cfg calls (ra_clear st)"

section \<open>Memory\<close>

definition ooo_bytes :: "Segment list \<Rightarrow> nat" where
  "ooo_bytes segs = sum_list (map (length \<circ> seg_data) segs)"

lemma ooo_bytes_simps [simp]:
  "ooo_bytes [] = 0" "ooo_bytes (s # ss) = length (seg_data s) + ooo_bytes ss"
  "ooo_bytes (ss @ ts) = ooo_bytes ss + ooo_bytes ts"
  by (simp_all add: ooo_bytes_def)

lemma ooo_bytes_split: "i < length ss \<Longrightarrow>
    ooo_bytes ss = ooo_bytes (take i ss) + length (seg_data (ss ! i)) + ooo_bytes (drop (Suc i) ss)"
  by (metis id_take_nth_drop ooo_bytes_simps(2,3) add.assoc)

lemma ooo_bytes_take_drop [simp]: "ooo_bytes (take i ss) + ooo_bytes (drop i ss) = ooo_bytes ss"
  using ooo_bytes_simps(3) [of "take i ss" "drop i ss"] by simp

lemma ooo_bytes_replace: "i < length ss \<Longrightarrow>
    ooo_bytes (ss[i := s]) = ooo_bytes ss - length (seg_data (ss ! i)) + length (seg_data s)"
  using ooo_bytes_split [of i ss] by (simp add: upd_conv_take_nth_drop)

text \<open>The bytes held: in the contiguous buffer and in the out-of-order segments.\<close>

definition held :: "TCPReassembler \<Rightarrow> nat" where
  "held st = length (ra_buffer st) + ooo_bytes (ra_out_of_order st)"

text \<open>
  The counter covers the out-of-order segments; what it does not cover of the buffer has been merged, and
  that is at most the limit.
\<close>

definition memory_ok :: "ReassemblerConfig \<Rightarrow> TCPReassembler \<Rightarrow> bool" where
  "memory_ok cfg st \<longleftrightarrow>
     ooo_bytes (ra_out_of_order st) \<le> ra_current_memory_usage st \<and>
     ra_current_memory_usage st \<le> max_buffer_bytes cfg \<and>
     held st \<le> ra_current_memory_usage st + max_buffer_bytes cfg \<and>
     (ra_failed st \<longrightarrow> ra_buffer st = [] \<and> ra_out_of_order st = [])"

lemma memory_last_update [simp]:
  "held (st\<lparr>ra_last_update := now\<rparr>) = held st"
  "memory_ok cfg (st\<lparr>ra_last_update := now\<rparr>) = memory_ok cfg st"
  by (simp_all add: held_def memory_ok_def)

lemma memory_ok_clear [simp]: "memory_ok cfg (ra_clear st)" "memory_ok cfg (ra_fail st)"
  by (simp_all add: memory_ok_def held_def ra_clear_def ra_fail_def)

lemma merge_loop_memory:
  assumes "merge_loop cfg segs st = Inr st'" and "\<not> ra_failed st"
    and "ooo_bytes segs \<le> ra_current_memory_usage st" and "ra_current_memory_usage st \<le> max_buffer_bytes cfg"
    and "length (ra_buffer st) + ooo_bytes segs \<le> ra_current_memory_usage st + max_buffer_bytes cfg"
  shows "memory_ok cfg st'"
  using assms
proof (induction cfg segs st rule: merge_loop.induct)
  case (1 cfg st)
  then show ?case by (auto simp: memory_ok_def held_def)
next
  case (2 cfg seg rest st)
  let ?len = "length (seg_data seg)" and ?diff = "seqDiff (seg_seq seg) (ra_expected_seq st)"
  have us: "size_sub (ra_current_memory_usage st) ?len = ra_current_memory_usage st - ?len" using 2(5) by simp
  show ?case
  proof (cases "?diff \<le> 0")
    case True
    with 2(3) obtain ov where ov: "negate32 ?diff = Inr ov" by (auto simp: rbind_Inr_iff)
    consider "ov < ?len" "length (ra_buffer st) + (?len - ov) > max_buffer_bytes cfg"
      | "ov < ?len" "\<not> length (ra_buffer st) + (?len - ov) > max_buffer_bytes cfg" | "\<not> ov < ?len" by blast
    then show ?thesis
    proof cases
      case 1
      then show ?thesis using 2(3) True ov by auto
    next
      case 2
      then show ?thesis using "2.IH"(1) [OF refl True ov _ refl] "2.prems" True ov us by auto
    next
      case 3
      then show ?thesis using "2.IH"(2) [OF refl True ov] "2.prems" True ov us by auto
    qed
  next
    case False
    then show ?thesis using "2.prems" by (auto simp: memory_ok_def held_def)
  qed
qed

lemma lower_bound_le: "lower_bound xs v \<le> length xs"
proof -
  have "lower_bound_loop xs v first n \<le> first + n" for first n
  proof (induction xs v first n rule: lower_bound_loop.induct)
    case (1 xs v first n)
    show ?case
    proof (cases "0 < n \<and> seg_less (xs ! (first + n div 2)) v")
      case True
      moreover have "0 < n \<Longrightarrow> Suc (first + n div 2 + (n - Suc (n div 2))) = first + n" by presburger
      ultimately show ?thesis
        using 1(1) [of "n div 2" "first + n div 2"] by (subst lower_bound_loop.simps) (simp add: Let_def)
    next
      case False
      then show ?thesis using 1(2) [of "n div 2" "first + n div 2"] by (subst lower_bound_loop.simps) (auto simp: Let_def)
    qed
  qed
  from this [of 0 "length xs"] show ?thesis by (simp add: lower_bound_def)
qed

lemma buffer_out_of_order_memory:
  assumes "buffer_out_of_order seq data st = (changed, st')" and "memory_ok cfg st" and "\<not> ra_failed st"
    and "ra_current_memory_usage st + length data \<le> max_buffer_bytes cfg"
  shows "memory_ok cfg st'"
proof -
  let ?new = "\<lparr>seg_seq = seq, seg_data = data\<rparr>" and ?ooo = "ra_out_of_order st"
  define it where "it = lower_bound ?ooo ?new"
  have it: "it \<le> length ?ooo" by (simp add: it_def lower_bound_le)
  show ?thesis
  proof (cases "it \<noteq> length ?ooo \<and> seg_seq (?ooo ! it) = seq")
    case True
    then have "it < length ?ooo" using it by simp
    from ooo_bytes_split [OF this] ooo_bytes_replace [OF this, of ?new] True assms show ?thesis
      by (auto simp: buffer_out_of_order_def it_def [symmetric] Let_def memory_ok_def held_def split: if_splits)
  next
    case False
    then show ?thesis
      using assms ooo_bytes_take_drop [of it ?ooo]
      by (auto simp: buffer_out_of_order_def it_def [symmetric] Let_def memory_ok_def held_def simp del: ooo_bytes_take_drop)
  qed
qed

lemma accept_segment_memory:
  assumes "accept_segment cfg seq data diff st = Inr (r, st')" and "memory_ok cfg st" and "\<not> ra_failed st"
  shows "memory_ok cfg st'"
proof (cases "ra_current_memory_usage st + length data > max_buffer_bytes cfg")
  case True
  then show ?thesis using assms(1) by (auto simp: accept_segment_def)
next
  case False
  show ?thesis
  proof (cases "diff = 0")
    case True
    with False assms(1) obtain st1 where "mergeOutOfOrder cfg (st\<lparr>ra_buffer := ra_buffer st @ data,
        ra_current_memory_usage := ra_current_memory_usage st + length data,
        ra_expected_seq := ra_expected_seq st + of_nat (length data)\<rparr>) = Inr st1" "st' = st1"
      by (auto simp: accept_segment_def rbind_Inr_iff)
    then have "merge_loop cfg (ra_out_of_order st) (st\<lparr>ra_buffer := ra_buffer st @ data,
        ra_current_memory_usage := ra_current_memory_usage st + length data,
        ra_expected_seq := ra_expected_seq st + of_nat (length data)\<rparr>) = Inr st'"
      by (simp add: mergeOutOfOrder_def)
    then show ?thesis by (rule merge_loop_memory) (use assms(2,3) False in \<open>simp_all add: memory_ok_def held_def\<close>)
  next
    case later: False
    obtain changed st1 where b: "buffer_out_of_order seq data st = (changed, st1)" by fastforce
    have "st' = st1" using assms(1) False later b by (auto simp: accept_segment_def rbind_Inr_iff split: bool.splits)
    then show ?thesis using buffer_out_of_order_memory [OF b assms(2,3)] False by simp
  qed
qed

lemma tryExtractSNI_memory:
  assumes "tryExtractSNI cfg now seq p len st = Inr (r, st')" and "memory_ok cfg st"
  shows "memory_ok cfg st'"
proof (cases "ra_failed st \<or> len = 0")
  case True
  then show ?thesis using assms by (auto simp: tryExtractSNI_def)
next
  case False
  define st1 where "st1 = (let st = st\<lparr>ra_last_update := now\<rparr> in
    if \<not> ra_expected_seq_initialized st then st\<lparr>ra_expected_seq := seq, ra_expected_seq_initialized := True\<rparr> else st)"
  have ok: "memory_ok cfg st1" "\<not> ra_failed st1"
    using assms(2) False by (auto simp: st1_def memory_ok_def held_def Let_def)
  from assms(1) False have "st' = st1 \<or> (\<exists>seq data diff. accept_segment cfg seq data diff st1 = Inr (r, st'))"
    unfolding tryExtractSNI_def st1_def Let_def by (auto simp: rbind_Inr_iff split: if_splits)
  then show ?thesis using ok accept_segment_memory by blast
qed

lemma ra_run_memory:
  assumes "ra_run cfg calls st = Inr (rs, st')" and "memory_ok cfg st"
  shows "memory_ok cfg st'"
  using assms
proof (induction calls arbitrary: st rs)
  case (Cons call calls)
  then show ?case by (cases call) (auto simp: rbind_Inr_iff dest: tryExtractSNI_memory)
qed simp

section \<open>Binary search\<close>

text \<open>
  On a list that is partitioned by \<open>seg_less _ v\<close>, which a sorted list is, the binary search finds the
  partition point, as the linear search from the left does.
\<close>

lemma lower_bound_loop_partition:
  assumes "\<forall>i < k. seg_less (xs ! i) v" and "\<forall>i. k \<le> i \<and> i < length xs \<longrightarrow> \<not> seg_less (xs ! i) v"
    and "first \<le> k" and "k \<le> first + count" and "first + count \<le> length xs"
  shows "lower_bound_loop xs v first count = k"
  using assms
proof (induction xs v first count rule: lower_bound_loop.induct)
  case (1 xs v first count)
  let ?mid = "first + count div 2"
  consider "count = 0" | "count \<noteq> 0" "?mid < k" | "count \<noteq> 0" "\<not> ?mid < k" by blast
  then show ?case
  proof cases
    case 1
    then show ?thesis using "1.prems" by (simp add: lower_bound_loop.simps)
  next
    case 2
    then have "seg_less (xs ! ?mid) v" using "1.prems"(1) by blast
    then show ?thesis
      using 2 "1.prems" "1.IH"(1) [of "count div 2" ?mid]
      by (subst lower_bound_loop.simps) (simp add: Let_def)
  next
    case 3
    then have "\<not> seg_less (xs ! ?mid) v" using "1.prems"(2,5) by auto
    then show ?thesis
      using 3 "1.prems" "1.IH"(2) [of "count div 2" ?mid]
      by (subst lower_bound_loop.simps) (simp add: Let_def)
  qed
qed

lemma lower_bound_partition:
  assumes "\<forall>i < k. seg_less (xs ! i) v" and "\<forall>i. k \<le> i \<and> i < length xs \<longrightarrow> \<not> seg_less (xs ! i) v"
    and "k \<le> length xs"
  shows "lower_bound xs v = k"
  unfolding lower_bound_def by (rule lower_bound_loop_partition) (use assms in auto)

section \<open>The reassembled stream\<close>

text \<open>
  The sender's byte stream \<open>S\<close> starts at sequence number \<open>b\<close>. A segment lies at offset \<open>off\<close> when its
  sequence number is \<open>b + off\<close> modulo \<open>2 ^ 32\<close> and it holds the bytes of \<open>S\<close> from there.
\<close>

definition stream :: "(nat \<Rightarrow> u8) \<Rightarrow> nat \<Rightarrow> nat \<Rightarrow> bytes" where
  "stream S i j = map S [i..<j]"

lemma length_stream [simp]: "length (stream S i j) = j - i"
  by (simp add: stream_def)

lemma stream_append: "i \<le> j \<Longrightarrow> j \<le> k \<Longrightarrow> stream S i j @ stream S j k = stream S i k"
  unfolding stream_def by (metis map_append upt_add_eq_append le_add_diff_inverse)

lemma drop_stream: "drop n (stream S i j) = stream S (i + n) j"
  by (simp add: stream_def drop_map)

lemma take_stream: "i + n \<le> j \<Longrightarrow> take n (stream S i j) = stream S i (i + n)"
  by (simp add: stream_def take_map)

definition seg_at :: "(nat \<Rightarrow> u8) \<Rightarrow> u32 \<Rightarrow> nat \<Rightarrow> Segment \<Rightarrow> bool" where
  "seg_at S b off seg \<longleftrightarrow>
     seg_seq seg = b + of_nat off \<and> seg_data seg = stream S off (off + length (seg_data seg))"

lemma seqDiff_offsets:
  assumes "- (2 ^ 31) \<le> int i - int j" and "int i - int j < 2 ^ 31"
  shows "seqDiff (b + of_nat i) (b + of_nat j) = int i - int j"
proof -
  have "b + of_nat i - (b + of_nat j) = (of_int (int i - int j) :: u32)" by simp
  then show ?thesis
    unfolding seqDiff_def using assms by (simp only: signed_of_int) (simp add: signed_take_bit_int_eq_self)
qed

definition segs_at :: "(nat \<Rightarrow> u8) \<Rightarrow> u32 \<Rightarrow> nat list \<Rightarrow> Segment list \<Rightarrow> bool" where
  "segs_at S b offs segs \<longleftrightarrow> list_all2 (seg_at S b) offs segs \<and> sorted_wrt (<) offs"

text \<open>The positions of the stream that segments at given offsets cover.\<close>

fun cover :: "nat list \<Rightarrow> Segment list \<Rightarrow> nat set" where
  "cover (off # offs) (seg # segs) = {off..<off + length (seg_data seg)} \<union> cover offs segs"
| "cover _ _ = {}"

lemma cover_append:
  "length offs = length segs \<Longrightarrow> cover (offs @ offs') (segs @ segs') = cover offs segs \<union> cover offs' segs'"
  by (induction offs segs rule: list_induct2) auto

lemma cover_insert:
  assumes "length offs = length segs" and "i \<le> length segs"
  shows "cover (take i offs @ off # drop i offs) (take i segs @ seg # drop i segs) =
    cover offs segs \<union> {off..<off + length (seg_data seg)}"
  using cover_append [of "take i offs" "take i segs" "drop i offs" "drop i segs"] assms
  by (auto simp: cover_append)

lemma cover_nth:
  assumes "length offs = length segs" and "i < length segs"
  shows "cover offs (segs[i := seg]) = cover (take i offs) (take i segs) \<union>
    {offs ! i..<offs ! i + length (seg_data seg)} \<union> cover (drop (Suc i) offs) (drop (Suc i) segs)"
proof -
  have "offs = take i offs @ offs ! i # drop (Suc i) offs" by (rule id_take_nth_drop) (use assms in simp)
  then have "cover offs (segs[i := seg]) =
      cover (take i offs @ offs ! i # drop (Suc i) offs) (take i segs @ seg # drop (Suc i) segs)"
    using assms(2) by (metis upd_conv_take_nth_drop)
  then show ?thesis using assms by (auto simp: cover_append)
qed

text \<open>A longer segment in the place of another at its offset.\<close>

lemma cover_replace:
  assumes "length offs = length segs" and "i < length segs" and "length (seg_data (segs ! i)) \<le> length (seg_data seg)"
  shows "cover offs (segs[i := seg]) = cover offs segs \<union> {offs ! i..<offs ! i + length (seg_data seg)}"
  using cover_nth [OF assms(1,2), of seg] cover_nth [OF assms(1,2), of "segs ! i"] assms(3) by auto

lemma cover_member:
  assumes "length offs = length segs" and "i < length segs"
  shows "{offs ! i..<offs ! i + length (seg_data (segs ! i))} \<subseteq> cover offs segs"
  using cover_nth [OF assms, of "segs ! i"] by auto

lemma cover_behind: "\<forall>off \<in> set offs. n < off \<Longrightarrow> p \<in> cover offs segs \<Longrightarrow> n < p"
  by (induction offs segs rule: cover.induct) auto

text \<open>
  The state after the positions \<open>R\<close> of the stream have come in: the buffer is the prefix of \<open>n\<close> bytes, the
  buffered segments lie behind it in strictly increasing order within half the sequence space, and together
  they cover \<open>R\<close>.
\<close>

definition stream_inv :: "(nat \<Rightarrow> u8) \<Rightarrow> u32 \<Rightarrow> ReassemblerConfig \<Rightarrow> nat set \<Rightarrow> nat \<Rightarrow> TCPReassembler \<Rightarrow> bool" where
  "stream_inv S b cfg R n st \<longleftrightarrow>
     ra_expected_seq_initialized st \<and> \<not> ra_failed st \<and>
     ra_buffer st = stream S 0 n \<and> ra_expected_seq st = b + of_nat n \<and>
     (\<exists>offs. segs_at S b offs (ra_out_of_order st) \<and> (\<forall>o' \<in> set offs. n < o' \<and> o' < n + 2 ^ 31) \<and>
       {..<n} \<union> cover offs (ra_out_of_order st) = R) \<and>
     memory_ok cfg st \<and> ra_current_memory_usage st \<le> held st"

lemma stream_inv_init:
  assumes "\<not> ra_failed st" and "ra_buffer st = []" and "ra_out_of_order st = []"
    and "ra_current_memory_usage st = 0"
  shows "stream_inv S b cfg {} 0 (st\<lparr>ra_expected_seq := b, ra_expected_seq_initialized := True\<rparr>)"
  using assms by (auto simp: stream_inv_def stream_def segs_at_def memory_ok_def held_def intro!: exI [of _ "[]"])

text \<open>The buffer is the longest prefix of the stream that has come in.\<close>

lemma stream_inv_least:
  assumes "stream_inv S b cfg R n st"
  shows "n = (LEAST p. p \<notin> R)"
proof -
  obtain offs where o: "\<forall>o' \<in> set offs. n < o'" "{..<n} \<union> cover offs (ra_out_of_order st) = R"
    using assms by (auto simp: stream_inv_def)
  have "n \<notin> R" using o cover_behind [OF o(1), of n] by auto
  moreover have "n \<le> p" if "p \<notin> R" for p using that o(2) by auto
  ultimately show ?thesis by (metis (mono_tags, lifting) Least_equality)
qed

lemma stream_inv_size:
  assumes "stream_inv S b cfg R n st"
  shows "n \<le> 2 * max_buffer_bytes cfg" and "held st = n + ooo_bytes (ra_out_of_order st)"
proof -
  have "length (ra_buffer st) = n" using assms by (simp add: stream_inv_def)
  then show "n \<le> 2 * max_buffer_bytes cfg" "held st = n + ooo_bytes (ra_out_of_order st)"
    using assms unfolding stream_inv_def memory_ok_def held_def by linarith+
qed

lemma merge_loop_wp:
  assumes "segs_at S b offs segs" and "\<forall>o' \<in> set offs. o' < n + 2 ^ 31"
    and "2 * max_buffer_bytes cfg < 2 ^ 31"
    and "ra_expected_seq_initialized st" and "\<not> ra_failed st"
    and "ra_buffer st = stream S 0 n" and "ra_expected_seq st = b + of_nat n"
    and "ooo_bytes segs \<le> ra_current_memory_usage st"
    and "ra_current_memory_usage st \<le> max_buffer_bytes cfg"
    and "n + ooo_bytes segs \<le> ra_current_memory_usage st + max_buffer_bytes cfg"
    and "ra_current_memory_usage st \<le> n + ooo_bytes segs"
  shows "wp (merge_loop cfg segs st) (\<lambda>st'.
    ra_failed st' \<and> ra_buffer st' = [] \<and> max_buffer_bytes cfg < n + ooo_bytes segs \<or>
    (\<exists>n' \<ge> n. stream_inv S b cfg ({..<n} \<union> cover offs segs) n' st' \<and> held st' \<le> n + ooo_bytes segs))"
  using assms
proof (induction segs arbitrary: offs n st)
  case Nil
  then show ?case
    by (auto simp: wp_simps stream_inv_def segs_at_def memory_ok_def held_def intro!: exI [of _ n])
next
  case (Cons seg segs)
  obtain off offs' where offs: "offs = off # offs'" "seg_at S b off seg" "segs_at S b offs' segs"
    "\<forall>o' \<in> set offs'. off < o'"
    using Cons.prems(1) by (auto simp: segs_at_def list_all2_Cons2)
  have win: "off < n + 2 ^ 31" using Cons.prems(2) offs(1) by simp
  have small: "n < 2 ^ 31" using Cons.prems(3,9,10) by linarith
  have diff: "seqDiff (seg_seq seg) (ra_expected_seq st) = int off - int n"
    using offs(2) win small Cons.prems(7) by (simp add: seg_at_def seqDiff_offsets)
  show ?case
  proof (cases "off \<le> n")
    case gap: False
    have "stream_inv S b cfg ({..<n} \<union> cover offs (seg # segs)) n (st\<lparr>ra_out_of_order := seg # segs\<rparr>)"
    proof -
      have "\<forall>o' \<in> set offs. n < o'" using offs(1,4) gap by auto
      then show ?thesis
        unfolding stream_inv_def using Cons.prems gap by (auto simp: memory_ok_def held_def intro!: exI [of _ offs])
    qed
    moreover have "held (st\<lparr>ra_out_of_order := seg # segs\<rparr>) = n + ooo_bytes (seg # segs)"
      by (simp add: held_def Cons.prems(6))
    ultimately show ?thesis using diff gap by (auto simp: wp_simps)
  next
    case True
    let ?ov = "n - off" and ?len = "length (seg_data seg)"
    have neg: "negate32 (int off - int n) = Inr ?ov"
      using True small by (auto simp: negate32_def)
    let ?usage = "ra_current_memory_usage st - ?len"
    have us: "size_sub (ra_current_memory_usage st) ?len = ?usage"
      using Cons.prems(8) by simp
    show ?thesis
    proof (cases "?ov < ?len")
      case new: True
      let ?n = "off + ?len"
      show ?thesis
      proof (cases "length (ra_buffer st) + (?len - ?ov) > max_buffer_bytes cfg")
        case over: True
        then show ?thesis
          using diff True new neg Cons.prems(6) by (simp add: wp_simps Let_def ra_fail_def ra_clear_def)
      next
        case fit: False
        have buf: "ra_buffer st @ drop ?ov (seg_data seg) = stream S 0 ?n"
        proof -
          have "drop ?ov (seg_data seg) = stream S n ?n"
          proof -
            have "seg_data seg = stream S off ?n" using offs(2) unfolding seg_at_def by (rule conjunct2)
            then have "drop ?ov (seg_data seg) = drop ?ov (stream S off ?n)" by (rule arg_cong)
            also have "\<dots> = stream S n ?n" unfolding drop_stream using True by simp
            finally show ?thesis .
          qed
          then show ?thesis using Cons.prems(6) True new by (simp add: stream_append)
        qed
        have seq: "ra_expected_seq st + of_nat (?len - ?ov) = b + of_nat ?n"
        proof -
          have "?n = n + (?len - ?ov)" using True new by simp
          then show ?thesis using Cons.prems(7) by (metis add.assoc of_nat_add)
        qed
        have nle: "?n \<le> max_buffer_bytes cfg" "n \<le> ?n" "?n \<le> n + ?len"
          using fit Cons.prems(6) True new by simp_all
        define st2 where "st2 = st\<lparr>ra_buffer := ra_buffer st @ drop ?ov (seg_data seg),
             ra_expected_seq := ra_expected_seq st + of_nat (?len - ?ov),
             ra_current_memory_usage := ?usage\<rparr>"
        have st2: "ra_buffer st2 = stream S 0 ?n" "ra_expected_seq st2 = b + of_nat ?n"
          "ra_current_memory_usage st2 = ?usage" "ra_expected_seq_initialized st2" "\<not> ra_failed st2"
          unfolding st2_def buf seq using Cons.prems(4,5) by simp_all
        have w: "\<forall>o' \<in> set offs'. o' < ?n + 2 ^ 31"
          using Cons.prems(2) offs(1) nle(2) by fastforce
        have u: "ooo_bytes segs \<le> ra_current_memory_usage st2"
          "ra_current_memory_usage st2 \<le> max_buffer_bytes cfg"
          "?n + ooo_bytes segs \<le> ra_current_memory_usage st2 + max_buffer_bytes cfg"
          "ra_current_memory_usage st2 \<le> ?n + ooo_bytes segs"
          unfolding st2 using Cons.prems(8,9,11) nle(1,2) by simp_all
        have R: "{..<?n} \<union> cover offs' segs = {..<n} \<union> cover offs (seg # segs)"
          using True nle(2) by (auto simp: offs(1))
        have "wp (merge_loop cfg segs st2) (\<lambda>st'.
            ra_failed st' \<and> ra_buffer st' = [] \<and> max_buffer_bytes cfg < ?n + ooo_bytes segs \<or>
            (\<exists>n' \<ge> ?n. stream_inv S b cfg ({..<n} \<union> cover offs (seg # segs)) n' st' \<and> held st' \<le> ?n + ooo_bytes segs))"
          using Cons.IH [OF offs(3) w Cons.prems(3) st2(4,5,1,2) u] unfolding R .
        then have "wp (merge_loop cfg segs st2) (\<lambda>st'.
            ra_failed st' \<and> ra_buffer st' = [] \<and> max_buffer_bytes cfg < n + ooo_bytes (seg # segs) \<or>
            (\<exists>n' \<ge> n. stream_inv S b cfg ({..<n} \<union> cover offs (seg # segs)) n' st' \<and> held st' \<le> n + ooo_bytes (seg # segs)))"
          by (rule wp_mono) (use nle(2,3) order_trans in fastforce)
        then show ?thesis
          using diff True new fit neg us by (simp add: Let_def st2_def)
      qed
    next
      case dup: False
      have R: "{..<n} \<union> cover offs' segs = {..<n} \<union> cover offs (seg # segs)"
        using True dup by (auto simp: offs(1))
      have "wp (merge_loop cfg segs (st\<lparr>ra_current_memory_usage := ?usage\<rparr>)) (\<lambda>st'.
            ra_failed st' \<and> ra_buffer st' = [] \<and> max_buffer_bytes cfg < n + ooo_bytes segs \<or>
            (\<exists>n' \<ge> n. stream_inv S b cfg ({..<n} \<union> cover offs (seg # segs)) n' st' \<and> held st' \<le> n + ooo_bytes segs))"
        unfolding R [symmetric] by (rule Cons.IH [OF offs(3)]) (use Cons.prems offs(1) in auto)
      then have "wp (merge_loop cfg segs (st\<lparr>ra_current_memory_usage := ?usage\<rparr>)) (\<lambda>st'.
            ra_failed st' \<and> ra_buffer st' = [] \<and> max_buffer_bytes cfg < n + ooo_bytes (seg # segs) \<or>
            (\<exists>n' \<ge> n. stream_inv S b cfg ({..<n} \<union> cover offs (seg # segs)) n' st' \<and> held st' \<le> n + ooo_bytes (seg # segs)))"
        by (rule wp_mono) auto
      then show ?thesis using diff True dup neg us by (simp add: wp_simps Let_def)
    qed
  qed
qed

lemma seg_less_offsets:
  assumes "seg_at S b o1 s1" and "seg_at S b o2 s2"
    and "n < o1" "o1 < n + 2 ^ 31" "n < o2" "o2 < n + 2 ^ 31"
  shows "seg_less s1 s2 \<longleftrightarrow> o1 < o2" and "seg_seq s1 = seg_seq s2 \<longleftrightarrow> o1 = o2"
proof -
  have d: "seqDiff (seg_seq s1) (seg_seq s2) = int o1 - int o2"
    using assms by (simp add: seg_at_def seqDiff_offsets)
  then show "seg_less s1 s2 \<longleftrightarrow> o1 < o2" by (simp add: seg_less_def)
  show "seg_seq s1 = seg_seq s2 \<longleftrightarrow> o1 = o2"
    using d assms by (auto simp: seqDiff_def seg_at_def)
qed

lemma sorted_wrt_insert:
  assumes "sorted_wrt (<) (xs @ ys)" and "\<forall>x \<in> set xs. x < (y :: nat)" and "\<forall>x \<in> set ys. y < x"
  shows "sorted_wrt (<) (xs @ y # ys)"
  using assms by (auto simp: sorted_wrt_append)

lemma buffer_out_of_order_inv:
  assumes "stream_inv S b cfg R n st" and "data = stream S off (off + length data)"
    and "n < off" and "off < n + 2 ^ 31"
    and "ra_current_memory_usage st + length data \<le> max_buffer_bytes cfg"
    and "buffer_out_of_order (b + of_nat off) data st = (changed, st')"
  shows "stream_inv S b cfg (R \<union> {off..<off + length data}) n st' \<and> held st' \<le> held st + length data"
proof -
  let ?ooo = "ra_out_of_order st" and ?new = "\<lparr>seg_seq = b + of_nat off, seg_data = data\<rparr>"
  from assms(1) obtain offs where offs: "list_all2 (seg_at S b) offs ?ooo" "sorted_wrt (<) offs"
    "\<forall>o' \<in> set offs. n < o' \<and> o' < n + 2 ^ 31" "{..<n} \<union> cover offs ?ooo = R"
    by (auto simp: stream_inv_def segs_at_def)
  have len: "length offs = length ?ooo" using offs(1) by (rule list_all2_lengthD)
  have new: "seg_at S b off ?new" using assms(2) by (simp add: seg_at_def)
  have cmp: "seg_less (?ooo ! i) ?new \<longleftrightarrow> offs ! i < off"
    "seg_seq (?ooo ! i) = b + of_nat off \<longleftrightarrow> offs ! i = off" if "i < length ?ooo" for i
  proof -
    have "seg_at S b (offs ! i) (?ooo ! i)" using offs(1) len that by (simp add: list_all2_nthD)
    moreover have "n < offs ! i \<and> offs ! i < n + 2 ^ 31" using offs(3) len that by simp
    ultimately show "seg_less (?ooo ! i) ?new \<longleftrightarrow> offs ! i < off"
      "seg_seq (?ooo ! i) = b + of_nat off \<longleftrightarrow> offs ! i = off"
      using seg_less_offsets [OF _ new, of "offs ! i" "?ooo ! i" n] assms(3,4) by auto
  qed
  define k where "k = length (takeWhile (\<lambda>o'. o' < off) offs)"
  have k: "k \<le> length ?ooo" using length_takeWhile_le [of _ offs] len by (simp add: k_def)
  have below: "offs ! i < off" if "i < k" for i
    using that nth_mem [of i "takeWhile (\<lambda>o'. o' < off) offs"]
    by (auto simp: k_def takeWhile_nth dest: set_takeWhileD)
  have above: "off \<le> offs ! i" if "k \<le> i" "i < length offs" for i
  proof -
    have "\<not> offs ! k < off" using nth_length_takeWhile [of "\<lambda>o'. o' < off" offs] that by (simp add: k_def)
    moreover have "k = i \<or> offs ! k < offs ! i"
      using that offs(2) by (auto simp: sorted_wrt_iff_nth_less le_less)
    ultimately show ?thesis by auto
  qed
  have it: "lower_bound ?ooo ?new = k"
    by (rule lower_bound_partition) (use cmp below above k len in \<open>auto simp: not_less\<close>)
  have state: "ra_expected_seq_initialized st" "\<not> ra_failed st" "ra_buffer st = stream S 0 n"
    "ra_expected_seq st = b + of_nat n" "memory_ok cfg st" "ra_current_memory_usage st \<le> held st"
    using assms(1) by (auto simp: stream_inv_def)
  have mem: "memory_ok cfg st'" by (rule buffer_out_of_order_memory [OF assms(6) state(5,2) assms(5)])
  show ?thesis
  proof (cases "k \<noteq> length ?ooo \<and> seg_seq (?ooo ! k) = b + of_nat off")
    case True
    then have kl: "k < length ?ooo" and koff: "offs ! k = off" using k cmp by auto
    have at: "list_all2 (seg_at S b) offs (?ooo[k := ?new])"
      using list_all2_update_cong [OF offs(1) new, of k] koff list_update_id [of offs k] by simp
    show ?thesis
    proof (cases "length data \<le> length (seg_data (?ooo ! k))")
      case True
      moreover have "R \<union> {off..<off + length data} = R"
      proof -
        have "{off..<off + length data} \<subseteq> {off..<off + length (seg_data (?ooo ! k))}" using True by auto
        then show ?thesis using cover_member [OF len kl] offs(4) unfolding koff by blast
      qed
      ultimately show ?thesis
        using assms(1,6) kl koff cmp by (auto simp: buffer_out_of_order_def it Let_def)
    next
      case longer: False
      have "{..<n} \<union> cover offs (?ooo[k := ?new]) = R \<union> {off..<off + length data}"
        using cover_replace [OF len kl, of ?new] longer offs(4) by (auto simp: koff)
      then have segs: "\<exists>offs. segs_at S b offs (?ooo[k := ?new]) \<and> (\<forall>o' \<in> set offs. n < o' \<and> o' < n + 2 ^ 31) \<and>
          {..<n} \<union> cover offs (?ooo[k := ?new]) = R \<union> {off..<off + length data}"
        using at offs(2,3) unfolding segs_at_def by blast
      have st': "st' = st\<lparr>ra_out_of_order := ?ooo[k := ?new], ra_current_memory_usage :=
          size_sub (ra_current_memory_usage st) (length (seg_data (?ooo ! k))) + length data\<rparr>"
        using assms(6) True longer by (simp add: buffer_out_of_order_def it Let_def)
      have least: "length (seg_data (?ooo ! k)) \<le> ooo_bytes ?ooo" using ooo_bytes_split [OF kl] by linarith
      then have "held st' = held st - length (seg_data (?ooo ! k)) + length data"
        using ooo_bytes_replace [OF kl, of ?new] by (simp add: held_def st')
      moreover have "ra_current_memory_usage st' = ra_current_memory_usage st - length (seg_data (?ooo ! k)) + length data"
        using least state(5) by (simp add: st' memory_ok_def)
      moreover have "length (seg_data (?ooo ! k)) \<le> ra_current_memory_usage st" "length (seg_data (?ooo ! k)) \<le> held st"
        using least state(5) by (simp_all add: memory_ok_def held_def)
      ultimately have "held st' \<le> held st + length data \<and> ra_current_memory_usage st' \<le> held st'"
        using state(6) by linarith
      then show ?thesis using state segs mem unfolding stream_inv_def by (simp add: st')
    qed
  next
    case False
    let ?offs = "take k offs @ off # drop k offs"
    have "\<forall>x \<in> set (take k offs). x < off" using below by (auto simp: in_set_conv_nth)
    moreover have "\<forall>x \<in> set (drop k offs). off < x"
    proof
      fix x assume "x \<in> set (drop k offs)"
      then obtain j where "j < length (drop k offs)" "x = drop k offs ! j"
        by (auto simp: in_set_conv_nth)
      then have j: "k + j < length offs" "x = offs ! (k + j)" by simp_all
      have "off \<noteq> offs ! k" using False cmp [of k] j len by auto
      moreover have "off \<le> offs ! k" using above [of k] j by simp
      moreover have "offs ! k \<le> x"
        using offs(2) j by (cases j) (auto simp: sorted_wrt_iff_nth_less intro: less_imp_le)
      ultimately show "off < x" by simp
    qed
    ultimately have "sorted_wrt (<) ?offs"
      using offs(2) by (intro sorted_wrt_insert) simp_all
    moreover have "list_all2 (seg_at S b) ?offs (take k ?ooo @ ?new # drop k ?ooo)"
      using offs(1) new by (intro list_all2_appendI list_all2_takeI list.rel_intros list_all2_dropI)
    moreover have "\<forall>o' \<in> set ?offs. n < o' \<and> o' < n + 2 ^ 31"
      using offs(3) assms(3,4) by (auto dest: in_set_takeD in_set_dropD)
    moreover have "{..<n} \<union> cover ?offs (take k ?ooo @ ?new # drop k ?ooo) = R \<union> {off..<off + length data}"
      using cover_insert [OF len k, of off ?new] offs(4) by auto
    ultimately have segs: "\<exists>offs. segs_at S b offs (take k ?ooo @ ?new # drop k ?ooo) \<and>
        (\<forall>o' \<in> set offs. n < o' \<and> o' < n + 2 ^ 31) \<and>
        {..<n} \<union> cover offs (take k ?ooo @ ?new # drop k ?ooo) = R \<union> {off..<off + length data}"
      unfolding segs_at_def by blast
    have "ooo_bytes (take k ?ooo @ ?new # drop k ?ooo) = ooo_bytes ?ooo + length data"
      using ooo_bytes_simps(3) [of "take k ?ooo" "drop k ?ooo"] by simp
    then show ?thesis
      using assms(6) False state segs mem
      by (auto simp: buffer_out_of_order_def it Let_def stream_inv_def held_def simp del: ooo_bytes_simps(3))
  qed
qed

lemma scan_loop_wp: "e \<le> length buf \<Longrightarrow> wp (scan_loop buf e p) (name_from buf)"
proof (induction "e - p" arbitrary: p rule: less_induct)
  case less
  have step: "wp (scan_loop buf e j) (name_from buf)" if "p < j" "p < e" for j
    by (rule less) (use that less.prems in simp_all)
  show ?case
    by (subst scan_loop.simps)
      (use less.prems in \<open>auto simp: wp_simps Let_def name_from_slice simp del: name_from_Some
        intro!: step\<close>)
qed

text \<open>Where the reassembler's scan finds what the careful extractor finds.\<close>

lemma scan_extensions_SomeD:
  assumes "scan_extensions buf e i = Inr (Some s)"
  obtains ty w where "i + 4 \<le> e" "rd16 buf i = Inr ty" "rd16 buf (i + 2) = Inr w"
    "i + 4 + unat w \<le> e" "ty \<noteq> 0" "scan_extensions buf e (i + 4 + unat w) = Inr (Some s)"
  | w ll nl bs where "i + 4 \<le> e" "rd16 buf i = Inr 0" "rd16 buf (i + 2) = Inr w"
    "i + 4 + unat w \<le> e" "5 \<le> unat w" "rd16 buf (i + 4) = Inr ll" "3 \<le> ll"
    "rd buf (i + 4 + 2) = Inr 0" "rd16 buf (i + 4 + 3) = Inr nl" "5 + unat nl \<le> unat w"
    "rd_bytes buf (i + 4 + 5) (unat nl) = Inr bs" "s = map byte_char bs"
proof -
  from assms have "i + 4 \<le> e" by (subst (asm) scan_extensions.simps) (simp split: if_splits)
  moreover obtain ty w where r: "rd16 buf i = Inr ty" "rd16 buf (i + 2) = Inr w"
    using assms \<open>i + 4 \<le> e\<close>
    by (subst (asm) scan_extensions.simps) (simp add: rbind_Inr_iff, blast)
  moreover have fits: "i + 4 + unat w \<le> e"
    using assms r \<open>i + 4 \<le> e\<close> by (subst (asm) scan_extensions.simps) (simp add: Let_def split: if_splits)
  ultimately show thesis
  proof (cases "ty = 0")
    case True
    have "5 \<le> unat w \<and> (\<exists>ll nl bs. rd16 buf (i + 4) = Inr ll \<and> 3 \<le> ll \<and> rd buf (i + 4 + 2) = Inr 0 \<and>
        rd16 buf (i + 4 + 3) = Inr nl \<and> 5 + unat nl \<le> unat w \<and>
        rd_bytes buf (i + 4 + 5) (unat nl) = Inr bs \<and> s = map byte_char bs)"
      using assms r \<open>i + 4 \<le> e\<close> fits True
      by (subst (asm) scan_extensions.simps) (auto simp: Let_def rbind_Inr_iff not_less split: if_splits)
    with that(2) r True \<open>i + 4 \<le> e\<close> fits show thesis by blast
  next
    case False
    then have "scan_extensions buf e (i + 4 + unat w) = Inr (Some s)"
      using assms r \<open>i + 4 \<le> e\<close> fits by (subst (asm) scan_extensions.simps) (simp add: Let_def)
    with that(1) r False \<open>i + 4 \<le> e\<close> fits show thesis by blast
  qed
qed

lemma scan_extensions_scan_loop:
  "scan_extensions buf e i = Inr (Some s) \<Longrightarrow> scan_loop buf e i = Inr (Some s)"
proof (induction "e - i" arbitrary: i rule: less_induct)
  case less
  from less.prems show ?case
  proof (cases rule: scan_extensions_SomeD)
    case (1 ty w)
    then have "scan_loop buf e (i + 4 + unat w) = Inr (Some s)" by (intro less.hyps) simp_all
    with 1 show ?thesis by (subst scan_loop.simps) (simp add: Let_def)
  next
    case (2 w ll nl bs)
    then show ?thesis by (subst scan_loop.simps) (simp add: Let_def)
  qed
qed

lemma scan_extensions_nonempty:
  "scan_extensions buf e i = Inr (Some s) \<Longrightarrow> i + 4 \<le> e"
  by (subst (asm) scan_extensions.simps) (simp split: if_splits)

lemma SNIExtractor_extract_SomeD:
  assumes "SNIExtractor_extract buf n = Inr (Some s)"
  obtains sl cs cm el p1 p2 p3 where "isTLSClientHello buf n = Inr True" "43 < n" "rd buf 43 = Inr sl"
    "p1 = 44 + unat sl" "p1 + 2 \<le> n" "rd16 buf p1 = Inr cs"
    "p2 = p1 + (2 + unat cs)" "p2 < n" "rd buf p2 = Inr cm"
    "p3 = p2 + (1 + unat cm)" "p3 + 2 \<le> n" "rd16 buf p3 = Inr el" "p3 + 2 + unat el \<le> n"
    "scan_extensions buf (p3 + 2 + unat el) (p3 + 2) = Inr (Some s)"
  using assms unfolding SNIExtractor_extract_def
  by (auto simp: rbind_Inr_iff Let_def not_less not_le split: if_splits
      simp del: rd_in rd_out rd16_in rd24_in)

lemma scan_hello_accepts:
  assumes "43 < length buf" "buf ! 5 = 0x01" "rd buf 43 = Inr sl"
    and "p1 = 44 + unat sl" "rd16 buf p1 = Inr cs"
    and "p2 = p1 + (2 + unat cs)" "rd buf p2 = Inr cm"
    and "p3 = p2 + (1 + unat cm)" "rd16 buf p3 = Inr el" "p3 + 2 + unat el \<le> length buf"
    and "0 < unat el"
  shows "scan_hello buf = scan_loop buf (p3 + 2 + unat el) (p3 + 2)"
  using assms unfolding scan_hello_def
  by (simp add: Let_def not_less min_def le_diff_conv diff_le_mono2) (intro conjI impI; arith)

lemma extract_imp_scan:
  assumes "SNIExtractor_extract buf (length buf) = Inr (Some s)"
  shows "scan_buffer buf = Inr (Some s)"
proof -
  obtain q where q: "QUICSNIExtractor_extract buf (length buf) = Inr q"
    using quic.total by blast
  have hello: "isTLSClientHello buf (length buf) = Inr True"
    using assms unfolding SNIExtractor_extract_def by (auto simp: rbind_Inr_iff split: if_splits)
  then have len: "9 \<le> length buf" and b0: "buf ! 0 = 0x16" and b5: "buf ! 5 = 0x01"
    and ver: "\<not> be16 (buf ! 1) (buf ! 2) < 0x0300" "\<not> be16 (buf ! 1) (buf ! 2) > 0x0304"
    and rec: "unat (be16 (buf ! 3) (buf ! 4)) \<le> length buf - 5"
    unfolding isTLSClientHello_def
    by (auto simp: rbind_Inr_iff rd_def numeral_2_eq_2 split: if_splits)
  have b1: "buf ! 1 = 0x03"
  proof -
    have "768 \<le> unat (buf ! 1) * 256 + unat (buf ! 2)" "unat (buf ! 1) * 256 + unat (buf ! 2) \<le> 772"
      using ver by (simp_all add: word_less_nat_alt byte_order)
    then have "unat (buf ! 1) = 3" using unat_u8_less [of "buf ! 2"] by presburger
    then show ?thesis by (simp add: word_unat_eq_iff)
  qed
  have "scan_hello buf = Inr (Some s)"
    using assms
  proof (rule SNIExtractor_extract_SomeD)
    fix sl cs cm el p1 p2 p3
    assume a: "43 < length buf" "rd buf 43 = Inr sl" "p1 = 44 + unat sl" "rd16 buf p1 = Inr cs"
      "p2 = p1 + (2 + unat cs)" "rd buf p2 = Inr cm" "p3 = p2 + (1 + unat cm)" "rd16 buf p3 = Inr el"
      "p3 + 2 + unat el \<le> length buf"
      and scan: "scan_extensions buf (p3 + 2 + unat el) (p3 + 2) = Inr (Some s)"
    have "0 < unat el" using scan_extensions_nonempty [OF scan] by simp
    from scan_hello_accepts [OF a(1) b5 a(2-9) this] scan_extensions_scan_loop [OF scan]
    show ?thesis by simp
  qed
  then show ?thesis
    using q len b0 b1 rec by (auto simp: scan_buffer_def)
qed

section \<open>Calls on a consistent stream\<close>

text \<open>
  What a call that brings the positions up to \<open>R\<close> does to the stream state: it gives up only when the bytes
  held before it and those of the segment, \<open>lim\<close> together, exceed the limit; \<open>F m\<close> is what the scan says of the
  first \<open>m\<close> bytes.
\<close>

definition after_call ::
  "(nat \<Rightarrow> u8) \<Rightarrow> u32 \<Rightarrow> ReassemblerConfig \<Rightarrow> nat set \<Rightarrow> nat \<Rightarrow> nat \<Rightarrow> (nat \<Rightarrow> string option) \<Rightarrow>
     string option \<times> TCPReassembler \<Rightarrow> bool" where
  "after_call S b cfg R n lim F = (\<lambda>(r, st').
     (ra_failed st' \<and> r = None \<and> max_buffer_bytes cfg < lim) \<or>
     (\<exists>n' \<ge> n. stream_inv S b cfg R n' st' \<and> held st' \<le> lim \<and> (r = F n' \<or> (r = None \<and> n' = n))))"

lemma after_call_mono: "after_call S b cfg R n lim F x \<Longrightarrow> lim \<le> lim' \<Longrightarrow> after_call S b cfg R n lim' F x"
  by (force simp: after_call_def)

lemma accept_segment_stream:
  assumes "stream_inv S b cfg R n st" and "2 * max_buffer_bytes cfg < 2 ^ 31"
    and "data = stream S off (off + length data)"
    and "off = n \<and> diff = 0 \<or> n < off \<and> off < n + 2 ^ 31 \<and> diff \<noteq> 0"
    and scan: "\<And>m. scan_buffer (stream S 0 m) = Inr (F m)"
  shows "wp (accept_segment cfg (b + of_nat off) data diff st)
     (after_call S b cfg (R \<union> {off..<off + length data}) n (held st + length data) F)"
proof (cases "ra_current_memory_usage st + length data > max_buffer_bytes cfg")
  case True
  moreover have "ra_current_memory_usage st \<le> held st" using assms(1) by (simp add: stream_inv_def)
  ultimately show ?thesis by (simp add: accept_segment_def wp_simps after_call_def ra_fail_def)
next
  case fits: False
  from assms(4) show ?thesis
  proof
    assume now: "off = n \<and> diff = 0"
    define st1 where "st1 = st\<lparr>ra_buffer := ra_buffer st @ data,
                     ra_current_memory_usage := ra_current_memory_usage st + length data,
                     ra_expected_seq := ra_expected_seq st + of_nat (length data)\<rparr>"
    from assms(1) obtain offs where inv: "segs_at S b offs (ra_out_of_order st)"
      "\<forall>o' \<in> set offs. n < o' \<and> o' < n + 2 ^ 31" "ra_buffer st = stream S 0 n"
      "ra_expected_seq st = b + of_nat n" "{..<n} \<union> cover offs (ra_out_of_order st) = R"
      "ra_expected_seq_initialized st" "\<not> ra_failed st"
      "memory_ok cfg st" "ra_current_memory_usage st \<le> held st"
      unfolding stream_inv_def by blast
    have held: "held st = n + ooo_bytes (ra_out_of_order st)" by (rule stream_inv_size(2) [OF assms(1)])
    let ?n = "n + length data"
    have buf: "ra_buffer st @ data = stream S 0 ?n"
    proof -
      have "ra_buffer st @ data = stream S 0 n @ stream S n ?n"
        using inv(3) assms(3) now by metis
      then show ?thesis by (simp add: stream_append)
    qed
    have seq: "ra_expected_seq st + of_nat (length data) = b + of_nat ?n"
      using inv(4) by (simp add: add.assoc)
    have R: "{..<?n} \<union> cover offs (ra_out_of_order st) = R \<union> {off..<off + length data}"
      using inv(5) now by auto
    have "wp (merge_loop cfg (ra_out_of_order st) st1) (\<lambda>st'.
        ra_failed st' \<and> ra_buffer st' = [] \<and> max_buffer_bytes cfg < ?n + ooo_bytes (ra_out_of_order st) \<or>
        (\<exists>n' \<ge> ?n. stream_inv S b cfg ({..<?n} \<union> cover offs (ra_out_of_order st)) n' st' \<and>
          held st' \<le> ?n + ooo_bytes (ra_out_of_order st)))"
    proof (rule merge_loop_wp [OF inv(1) _ assms(2)])
      show "\<forall>o' \<in> set offs. o' < ?n + 2 ^ 31" using inv(2) by auto
      show "ra_buffer st1 = stream S 0 ?n" unfolding st1_def buf by simp
      show "ra_expected_seq st1 = b + of_nat ?n" unfolding st1_def seq by simp
    qed (use fits inv held in \<open>auto simp: st1_def memory_ok_def\<close>)
    moreover have "mergeOutOfOrder cfg st1 = merge_loop cfg (ra_out_of_order st) st1"
      by (simp add: mergeOutOfOrder_def st1_def)
    moreover have "scan_buffer [] = Inr None" by (simp add: scan_buffer_def)
    moreover have "ra_buffer st' = stream S 0 n'" if "stream_inv S b cfg R' n' st'" for R' n' st'
      using that by (simp add: stream_inv_def)
    moreover have "held st + length data = ?n + ooo_bytes (ra_out_of_order st)" using held by simp
    ultimately show ?thesis
      using fits now scan unfolding accept_segment_def st1_def [symmetric] R
      by (fastforce simp: wp_iff rbind_Inr_iff after_call_def)
  next
    assume later: "n < off \<and> off < n + 2 ^ 31 \<and> diff \<noteq> 0"
    obtain changed st' where c: "buffer_out_of_order (b + of_nat off) data st = (changed, st')"
      by fastforce
    have inv: "stream_inv S b cfg (R \<union> {off..<off + length data}) n st'" "held st' \<le> held st + length data"
      using buffer_out_of_order_inv [OF assms(1,3) _ _ _ c] later fits by simp_all
    then have "scan_buffer (ra_buffer st') = Inr (F n)" using scan by (simp add: stream_inv_def)
    then show ?thesis
      using fits later inv c by (auto simp: accept_segment_def wp_simps after_call_def split: bool.split)
  qed
qed

lemma tryExtractSNI_stream:
  assumes "stream_inv S b cfg R n st" and "2 * max_buffer_bytes cfg < 2 ^ 31"
    and "payload = stream S off (off + length payload)" and "payload \<noteq> []" and "off < 2 ^ 31"
    and scan: "\<And>m. scan_buffer (stream S 0 m) = Inr (F m)"
  shows "wp (tryExtractSNI cfg now (b + of_nat off) payload (length payload) st)
     (after_call S b cfg (R \<union> {off..<off + length payload}) n (held st + length payload) F)"
proof -
  let ?st = "st\<lparr>ra_last_update := now\<rparr>" and ?len = "length payload"
  have inv: "stream_inv S b cfg R n ?st" and held: "held ?st = held st"
    using assms(1) by (simp_all add: stream_inv_def)
  have init: "ra_expected_seq_initialized st" "\<not> ra_failed st" "ra_expected_seq st = b + of_nat n"
    and R: "{..<n} \<subseteq> R" using assms(1) by (auto simp: stream_inv_def)
  have n: "n < 2 ^ 31" using stream_inv_size(1) [OF assms(1)] assms(2) by linarith
  then have diff: "seqDiff (b + of_nat off) (ra_expected_seq st) = int off - int n"
    unfolding init by (intro seqDiff_offsets) (use assms(5) in auto)
  consider "off < n" "?len \<le> n - off" | "off < n" "n - off < ?len" | "off = n" | "n < off" by linarith
  then show ?thesis
  proof cases
    case 1
    then have "{off..<off + ?len} \<subseteq> {..<n}" by auto
    then have "R \<union> {off..<off + ?len} = R" using R by blast
    then show ?thesis
      using init diff inv held assms(4) n 1
      by (auto simp: tryExtractSNI_def Let_def negate32_def wp_simps after_call_def intro!: exI [of _ n])
  next
    case 2
    let ?ov = "n - off"
    have data: "drop ?ov payload = stream S n (n + length (drop ?ov payload))"
    proof -
      have "drop ?ov payload = drop ?ov (stream S off (off + ?len))" using assms(3) by (rule arg_cong)
      also have "\<dots> = stream S n (off + ?len)" unfolding drop_stream using 2 by simp
      finally show ?thesis using 2 by simp
    qed
    have seq: "b + of_nat off + of_nat ?ov = b + of_nat n"
      using 2(1) by (metis add.assoc le_add_diff_inverse less_imp_le_nat of_nat_add)
    have "R \<union> {n..<n + length (drop ?ov payload)} = R \<union> {off..<off + ?len}" using R 2 by auto
    then have "wp (accept_segment cfg (b + of_nat n) (drop ?ov payload) 0 ?st)
        (after_call S b cfg (R \<union> {off..<off + ?len}) n (held st + length (drop ?ov payload)) F)"
      using accept_segment_stream [OF inv assms(2) data _ scan, of 0] held by simp
    then have "wp (accept_segment cfg (b + of_nat n) (drop ?ov payload) 0 ?st)
        (after_call S b cfg (R \<union> {off..<off + ?len}) n (held st + ?len) F)"
      by (rule wp_mono) (erule after_call_mono, simp)
    moreover have "take (?len - ?ov) (drop ?ov payload) = drop ?ov payload" "nat (int n - int off) = ?ov"
      by simp_all
    ultimately show ?thesis
      using init(1,2) diff 2 assms(4) n seq
      by (simp add: tryExtractSNI_def Let_def negate32_def wp_simps)
  next
    case 3
    then show ?thesis
      using accept_segment_stream [OF inv assms(2,3) _ scan, of 0] init diff assms(4) held
      by (simp add: tryExtractSNI_def Let_def wp_simps)
  next
    case 4
    then show ?thesis
      using accept_segment_stream [OF inv assms(2,3) _ scan, of "int off - int n"] init diff assms(4,5) held
      by (simp add: tryExtractSNI_def Let_def wp_simps)
  qed
qed

text \<open>
  Segments of a stream, each with the time at which it comes, its offset and its length, as calls; the
  positions they bring, and their bytes counted with repetitions.
\<close>

definition segment_calls :: "(nat \<Rightarrow> u8) \<Rightarrow> u32 \<Rightarrow> (nat \<times> nat \<times> nat) list \<Rightarrow> ra_call list" where
  "segment_calls S b segs = map (\<lambda>(now, off, len). Try now (b + of_nat off) (stream S off (off + len))) segs"

definition received :: "(nat \<times> nat \<times> nat) list \<Rightarrow> nat set" where
  "received segs = (\<Union>(now, off, len) \<in> set segs. {off..<off + len})"

definition sent_bytes :: "(nat \<times> nat \<times> nat) list \<Rightarrow> nat" where
  "sent_bytes segs = (\<Sum>(now, off, len) \<leftarrow> segs. len)"

lemma segment_calls_simps [simp]:
  "segment_calls S b [] = []"
  "segment_calls S b ((now, off, len) # segs) =
     Try now (b + of_nat off) (stream S off (off + len)) # segment_calls S b segs"
  "received [] = {}" "received ((now, off, len) # segs) = {off..<off + len} \<union> received segs"
  "sent_bytes [] = 0" "sent_bytes ((now, off, len) # segs) = len + sent_bytes segs"
  by (simp_all add: segment_calls_def received_def sent_bytes_def)

lemma ra_run_failed: "ra_failed st \<Longrightarrow> ra_run cfg (segment_calls S b segs) st = Inr (map (\<lambda>_. None) segs, st)"
  by (induction segs) (auto simp: tryExtractSNI_def)

text \<open>A fresh reassembler takes the sequence number of its first payload as the start of the stream.\<close>

lemma tryExtractSNI_fresh:
  assumes "\<not> ra_failed st" and "len \<noteq> 0" and "\<not> ra_expected_seq_initialized st"
  shows "tryExtractSNI cfg now seq payload len st =
    tryExtractSNI cfg now seq payload len (st\<lparr>ra_expected_seq := seq, ra_expected_seq_initialized := True\<rparr>)"
proof -
  have updates: "st\<lparr>ra_last_update := now, ra_expected_seq := seq, ra_expected_seq_initialized := True\<rparr> =
      st\<lparr>ra_expected_seq := seq, ra_expected_seq_initialized := True, ra_last_update := now\<rparr>" by simp
  have "seqDiff seq seq = 0" by (simp add: seqDiff_def)
  then show ?thesis
    using assms by (simp add: tryExtractSNI_def Let_def)
      (intro arg_cong [of _ _ "rbind _"] ext arg_cong [of _ _ "accept_segment _ _ _ _"], rule updates)
qed

lemma ra_run_stream:
  assumes "stream_inv S b cfg R n st" and "2 * max_buffer_bytes cfg < 2 ^ 31"
    and "\<forall>(now, off, len) \<in> set segs. 0 < len \<and> off < 2 ^ 31"
    and scan: "\<And>m. scan_buffer (stream S 0 m) = Inr (if L \<le> m then Some x else None)"
  shows "wp (ra_run cfg (segment_calls S b segs) st) (\<lambda>(rs, st'). set rs \<subseteq> {None, Some x} \<and>
    (if ra_failed st' then max_buffer_bytes cfg < held st + sent_bytes segs
     else \<exists>n' \<ge> n. stream_inv S b cfg (R \<union> received segs) n' st' \<and> (n < L \<longrightarrow> (Some x \<in> set rs \<longleftrightarrow> L \<le> n'))))"
  using assms(1,3)
proof (induction segs arbitrary: R n st)
  case Nil
  then have "\<not> ra_failed st" by (simp add: stream_inv_def)
  then show ?case using Nil by (auto simp: wp_simps intro!: exI [of _ n])
next
  case (Cons seg segs)
  obtain now off len where seg: "seg = (now, off, len)" by (cases seg)
  let ?F = "\<lambda>m. if L \<le> m then Some x else None"
  have len: "0 < len" "off < 2 ^ 31" "\<forall>(now, off, len) \<in> set segs. 0 < len \<and> off < 2 ^ 31"
    using Cons.prems(2) by (auto simp: seg)
  have "stream S off (off + len) \<noteq> []" using len(1) by (simp add: stream_def)
  then have "wp (tryExtractSNI cfg now (b + of_nat off) (stream S off (off + len)) len st)
      (after_call S b cfg (R \<union> {off..<off + len}) n (held st + len) ?F)"
    using tryExtractSNI_stream [OF Cons.prems(1) assms(2) _ _ len(2) scan, of "stream S off (off + len)"] by simp
  then obtain r st1 where call: "tryExtractSNI cfg now (b + of_nat off) (stream S off (off + len)) len st = Inr (r, st1)"
    and after: "after_call S b cfg (R \<union> {off..<off + len}) n (held st + len) ?F (r, st1)"
    by (auto simp: wp_iff)
  show ?case
  proof (cases "ra_failed st1")
    case True
    then have "r = None \<and> max_buffer_bytes cfg < held st + len"
      using after by (auto simp: after_call_def stream_inv_def)
    then show ?thesis using call True ra_run_failed [OF True] by (auto simp: seg wp_simps)
  next
    case False
    then obtain n1 where n1: "n \<le> n1" "stream_inv S b cfg (R \<union> {off..<off + len}) n1 st1"
      "held st1 \<le> held st + len" "r = ?F n1 \<or> r = None \<and> n1 = n"
      using after by (auto simp: after_call_def)
    obtain rs st' where run: "ra_run cfg (segment_calls S b segs) st1 = Inr (rs, st')"
      "set rs \<subseteq> {None, Some x}"
      "if ra_failed st' then max_buffer_bytes cfg < held st1 + sent_bytes segs
       else \<exists>n' \<ge> n1. stream_inv S b cfg (R \<union> {off..<off + len} \<union> received segs) n' st' \<and>
         (n1 < L \<longrightarrow> (Some x \<in> set rs \<longleftrightarrow> L \<le> n'))"
      using Cons.IH [OF n1(2) len(3)] by (auto simp: wp_iff)
    have "if ra_failed st' then max_buffer_bytes cfg < held st + sent_bytes (seg # segs)
       else \<exists>n' \<ge> n. stream_inv S b cfg (R \<union> received (seg # segs)) n' st' \<and>
         (n < L \<longrightarrow> (Some x \<in> set (r # rs) \<longleftrightarrow> L \<le> n'))"
    proof (cases "ra_failed st'")
      case True
      then show ?thesis using run(3) n1(3) by (simp add: seg)
    next
      case False
      then obtain n' where n': "n1 \<le> n'" "stream_inv S b cfg (R \<union> {off..<off + len} \<union> received segs) n' st'"
        "n1 < L \<longrightarrow> (Some x \<in> set rs \<longleftrightarrow> L \<le> n')" using run(3) by auto
      have "n < L \<longrightarrow> (Some x \<in> set (r # rs) \<longleftrightarrow> L \<le> n')"
        using n1(1,4) n'(1,3) by (cases "L \<le> n1") auto
      moreover have "n \<le> n'" "stream_inv S b cfg (R \<union> received (seg # segs)) n' st'"
        using n'(1,2) n1(1) by (simp_all add: seg Un_assoc)
      ultimately show ?thesis using False by auto
    qed
    moreover have "r \<in> {None, Some x}" using n1(4) by (auto split: if_splits)
    ultimately show ?thesis using call run(1,2) by (auto simp: seg wp_simps)
  qed
qed

text \<open>The prefixes of a stream that starts with a ClientHello, as the scan sees them.\<close>

lemma stream_prefix: "m \<le> n \<Longrightarrow> stream S 0 n = stream S 0 m @ stream S m n"
  by (simp add: stream_append)

lemma scan_buffer_hello_prefix:
  assumes "wf_client_hello ch" and "stream S 0 (length (client_hello_bytes ch)) = client_hello_bytes ch"
  shows "scan_buffer (stream S 0 m) =
    Inr (if length (client_hello_bytes ch) \<le> m then Some (map byte_char (ch_host ch)) else None)"
proof (cases "length (client_hello_bytes ch) \<le> m")
  case True
  have p: "stream S 0 m = client_hello_bytes ch @ stream S (length (client_hello_bytes ch)) m"
    unfolding stream_prefix [OF True] assms(2) ..
  have "SNIExtractor_extract (stream S 0 m) (length (stream S 0 m)) = Inr (Some (map byte_char (ch_host ch)))"
    unfolding p by (rule extract_client_hello [OF assms(1)])
  then have "scan_buffer (stream S 0 m) = Inr (Some (map byte_char (ch_host ch)))"
    by (rule extract_imp_scan)
  then show ?thesis using True by simp
next
  case False
  let ?p = "stream S 0 m" and ?n = "length (hello_body ch)"
  obtain q where q: "QUICSNIExtractor_extract ?p (length ?p) = Inr q" using quic.total by blast
  have hello: "client_hello_bytes ch =
      [0x16, fst (ch_record_version ch), snd (ch_record_version ch)] @ put16 (?n + 4) @ [0x01] @ put24 ?n @
      hello_body ch"
    by (simp add: client_hello_bytes_def record_start_def)
  have n: "?n + 4 < 65536" using assms(1) by (simp add: wf_client_hello_def)
  have "5 + unat (be16 (?p ! 3) (?p ! 4)) > m" if "5 \<le> m"
  proof -
    have "client_hello_bytes ch = ?p @ stream S m (length (client_hello_bytes ch))"
      using stream_prefix [of m "length (client_hello_bytes ch)" S] False assms(2) by simp
    then have p: "?p ! k = client_hello_bytes ch ! k" if "k < m" for k
      using that nth_append [of ?p "stream S m (length (client_hello_bytes ch))" k]
      by (metis length_stream diff_zero)
    have "?p ! 3 = of_nat ((?n + 4) div 256)" "?p ! 4 = of_nat (?n + 4)"
      using that by (subst p; simp add: hello put16_def)+
    then have "unat (be16 (?p ! 3) (?p ! 4)) = ?n + 4" using unat_be16_of_nat [OF n] by metis
    then show ?thesis using False by (simp add: hello)
  qed
  then show ?thesis
    using False q by (auto simp: scan_buffer_def rd_def rd16_def not_le)
qed

section \<open>Which faults can arise\<close>

text \<open>\<open>faults E m\<close>: if the computation faults, then with one of \<open>E\<close>.\<close>

definition faults :: "cxx_fault set \<Rightarrow> 'a res \<Rightarrow> bool" where
  "faults E m \<longleftrightarrow> (\<forall>e. m = Inl e \<longrightarrow> e \<in> E)"

lemma faults_simps [simp]: "faults E (Inr x)" "faults E (Inl e) \<longleftrightarrow> e \<in> E"
  by (simp_all add: faults_def)

lemma faults_rbind [intro!]: "faults E m \<Longrightarrow> (\<And>x. m = Inr x \<Longrightarrow> faults E (f x)) \<Longrightarrow> faults E (rbind m f)"
  by (cases m) auto

lemma faults_if [intro!]: "(c \<Longrightarrow> faults E m) \<Longrightarrow> (\<not> c \<Longrightarrow> faults E m') \<Longrightarrow> faults E (if c then m else m')"
  by simp

lemma faults_reads [intro!]:
  "OutOfBounds \<in> E \<Longrightarrow> faults E (rd p i)" "OutOfBounds \<in> E \<Longrightarrow> faults E (rd_bytes p i n)"
  "OutOfBounds \<in> E \<Longrightarrow> faults E (rd16 p i)"
  by (auto simp: rd_def rd_bytes_def rd16_def)

lemma faults_total: "\<exists>x. m = Inr x \<Longrightarrow> faults E m"
  by auto

lemma scan_loop_faults: "faults {OutOfBounds, SignedOverflow} (scan_loop buf e p)"
proof (induction buf e p rule: scan_loop.induct)
  case (1 buf e p)
  show ?case
    by (subst scan_loop.simps) (auto simp: Let_def intro!: 1)
qed

lemma scan_buffer_faults: "faults {OutOfBounds, SignedOverflow} (scan_buffer buf)"
proof -
  have "faults {OutOfBounds, SignedOverflow} (scan_hello buf)"
    unfolding scan_hello_def Let_def by (auto intro!: scan_loop_faults)
  then show ?thesis
    unfolding scan_buffer_def by (auto intro!: faults_total [OF quic.total])
qed

lemma merge_loop_faults: "faults {OutOfBounds, SignedOverflow} (merge_loop cfg segs st)"
  by (induction segs arbitrary: st) (auto simp: Let_def negate32_def)

lemma accept_segment_faults: "faults {OutOfBounds, SignedOverflow} (accept_segment cfg seq data diff st)"
  unfolding accept_segment_def mergeOutOfOrder_def
  by (auto intro!: merge_loop_faults scan_buffer_faults split: prod.split bool.split)

lemma tryExtractSNI_faults: "faults {OutOfBounds, SignedOverflow} (tryExtractSNI cfg now seq p n st)"
  unfolding tryExtractSNI_def Let_def negate32_def
  by (auto intro!: accept_segment_faults)

lemma ra_run_faults: "faults {OutOfBounds, SignedOverflow} (ra_run cfg calls st)"
proof (induction calls arbitrary: st)
  case (Cons call calls)
  then show ?case by (cases call) (auto intro!: tryExtractSNI_faults)
qed simp

text \<open>
  C6. From a fresh reassembler to the server name. The calls bring segments of a stream that starts with a
  well-formed ClientHello: in any order, with gaps, duplicates and overlaps, and across the wrap-around of
  sequence numbers; only the first is the first of the stream, because a fresh reassembler takes the sequence
  number of its first payload as the start. No call reads outside the buffer, and none reports a name other than
  the client's. Afterwards the reassembler has given up only if the segments amount to more bytes than
  \<open>max_buffer_bytes\<close>; otherwise its buffer is the longest prefix of the stream that the segments contain, and
  the client's name has been reported exactly when that prefix contains the whole hello. Offsets are below
  \<open>2 ^ 31\<close>, half the sequence space, as is twice the limit.
\<close>

theorem reassembler_finds_server_name:
  assumes "wf_client_hello ch" and "stream S 0 (length (client_hello_bytes ch)) = client_hello_bytes ch"
    and "2 * max_buffer_bytes cfg < 2 ^ 31"
    and "segs \<noteq> []" and "fst (snd (hd segs)) = 0"
    and "\<forall>(now, off, len) \<in> set segs. 0 < len \<and> off < 2 ^ 31"
  shows "\<exists>rs st'. ra_run cfg (segment_calls S b segs) (new_reassembler t) = Inr (rs, st') \<and>
    set rs \<subseteq> {None, Some (map byte_char (ch_host ch))} \<and>
    (if ra_failed st' then max_buffer_bytes cfg < sent_bytes segs
     else let n = (LEAST p. p \<notin> received segs) in
       ra_buffer st' = stream S 0 n \<and>
       (Some (map byte_char (ch_host ch)) \<in> set rs \<longleftrightarrow> length (client_hello_bytes ch) \<le> n))"
proof -
  let ?st = "new_reassembler t\<lparr>ra_expected_seq := b, ra_expected_seq_initialized := True\<rparr>"
  obtain now len rest where segs: "segs = (now, 0, len) # rest" "0 < len"
    using assms(4-6) by (cases segs) auto
  have inv: "stream_inv S b cfg {} 0 ?st" by (rule stream_inv_init) (simp_all add: new_reassembler_def)
  have start: "ra_run cfg (segment_calls S b segs) (new_reassembler t) = ra_run cfg (segment_calls S b segs) ?st"
    using tryExtractSNI_fresh [of "new_reassembler t" len cfg now b "stream S 0 len"] segs
    by (simp add: new_reassembler_def)
  have "held ?st = 0" by (simp add: held_def new_reassembler_def)
  moreover have "0 < length (client_hello_bytes ch)" by (simp add: client_hello_bytes_def record_start_def)
  moreover have "n = (LEAST p. p \<notin> received segs) \<and> ra_buffer st' = stream S 0 n"
    if "stream_inv S b cfg (received segs) n st'" for n st'
    using that stream_inv_least [OF that] by (simp add: stream_inv_def)
  ultimately show ?thesis
    using ra_run_stream [OF inv assms(3,6) scan_buffer_hello_prefix [OF assms(1,2)]]
    by (force simp: start wp_iff Let_def)
qed

text \<open>
  C39. The memory of a reassembler, over any sequence of its calls: segments with any sequence numbers and
  contents at any times, also after it has given up, and \<open>clear\<close>. From a fresh reassembler the calls end with one
  of two faults, a read outside the buffer (\<open>reassembler_scan_out_of_bounds\<close>) or the undefined negation
  (\<open>reassembler_signed_overflow\<close>), or the counter is at most the configured limit, the bytes held (contiguous buffer
  and out-of-order segments) are at most twice the limit, and a reassembler that has given up holds nothing. The
  limit itself does not bound the bytes held, because merging a segment subtracts it from the counter although
  its bytes stay, in the buffer: \<open>reassembler_limit_exceeded\<close> reaches two bytes below twice the limit.
\<close>

theorem reassembler_memory_bound:
  "case ra_run cfg calls (new_reassembler t) of
     Inl e \<Rightarrow> e = OutOfBounds \<or> e = SignedOverflow
   | Inr (rs, st') \<Rightarrow> ra_current_memory_usage st' \<le> max_buffer_bytes cfg \<and>
       length (ra_buffer st') + (\<Sum>s \<leftarrow> ra_out_of_order st'. length (seg_data s)) \<le> 2 * max_buffer_bytes cfg \<and>
       (ra_failed st' \<longrightarrow> ra_buffer st' = [] \<and> ra_out_of_order st' = [])"
proof -
  have "memory_ok cfg (new_reassembler t)" by (simp add: memory_ok_def held_def new_reassembler_def)
  moreover have "(\<Sum>s \<leftarrow> segs. length (seg_data s)) = ooo_bytes segs" for segs
    by (simp add: ooo_bytes_def comp_def)
  ultimately show ?thesis
    using ra_run_faults [of cfg calls "new_reassembler t"]
    by (auto simp: faults_def memory_ok_def held_def split: sum.split dest: ra_run_memory)
qed

definition hello_stream :: "nat \<Rightarrow> u8" where
  "hello_stream i = (if i < length (client_hello_bytes sample_hello)
                     then client_hello_bytes sample_hello ! i else 0)"

lemma hello_stream_prefix:
  "stream hello_stream 0 (length (client_hello_bytes sample_hello)) = client_hello_bytes sample_hello"
  by (rule nth_equalityI) (simp_all add: stream_def hello_stream_def)

text \<open>Three segments around the wrap-around of sequence numbers, the last of which closes the gap.\<close>

theorem reassembler_finds_server_name_witness:
  "\<exists>rs st'. ra_run default_config (segment_calls hello_stream 0xFFFFFFFE [(1, 0, 4), (2, 10, 200), (3, 4, 6)])
      (new_reassembler 3) = Inr (rs, st') \<and>
    \<not> ra_failed st' \<and> Some (map byte_char (ch_host sample_hello)) \<in> set rs"
proof -
  let ?segs = "[(1, 0, 4), (2, 10, 200), (3, 4, 6)] :: (nat \<times> nat \<times> nat) list"
  have wf: "wf_client_hello sample_hello"
    by (simp add: wf_client_hello_def sample_hello_def hello_body_def hello_prefix_def
        hello_extensions_def extension_bytes_def server_name_extension_def)
  have lim: "2 * max_buffer_bytes default_config < 2 ^ 31" by (simp add: default_config_def)
  have "210 \<notin> received ?segs" by simp
  then have "(LEAST p. p \<notin> received ?segs) \<notin> received ?segs" by (rule LeastI)
  then have least: "210 \<le> (LEAST p. p \<notin> received ?segs)" by auto
  have len: "length (client_hello_bytes sample_hello) \<le> 210"
    by (simp add: client_hello_bytes_def record_start_def sample_hello_def hello_body_def hello_prefix_def
        hello_extensions_def extension_bytes_def server_name_extension_def)
  obtain rs st' where run: "ra_run default_config (segment_calls hello_stream 0xFFFFFFFE ?segs)
      (new_reassembler 3) = Inr (rs, st')"
    "if ra_failed st' then max_buffer_bytes default_config < sent_bytes ?segs
     else let n = (LEAST p. p \<notin> received ?segs) in ra_buffer st' = stream hello_stream 0 n \<and>
       (Some (map byte_char (ch_host sample_hello)) \<in> set rs \<longleftrightarrow> length (client_hello_bytes sample_hello) \<le> n)"
    using reassembler_finds_server_name [OF wf hello_stream_prefix lim, where segs = ?segs and b = "0xFFFFFFFE" and t = 3] by auto
  have "\<not> ra_failed st'" using run(2) by (auto simp: default_config_def)
  moreover have "Some (map byte_char (ch_host sample_hello)) \<in> set rs"
    using run(2) \<open>\<not> ra_failed st'\<close> order_trans [OF len least] by (simp add: Let_def)
  ultimately show ?thesis using run(1) by blast
qed

theorem reassembler_memory_bound_witness:
  "case ra_run default_config [Try 1 5 [22], Try 2 7 [3, 1], Clear, Try 3 0 (replicate 20000 7)] (new_reassembler 0) of
     Inl e \<Rightarrow> e = OutOfBounds \<or> e = SignedOverflow
   | Inr (rs, st') \<Rightarrow> ra_current_memory_usage st' \<le> max_buffer_bytes default_config \<and>
       length (ra_buffer st') + (\<Sum>s \<leftarrow> ra_out_of_order st'. length (seg_data s)) \<le> 2 * max_buffer_bytes default_config \<and>
       (ra_failed st' \<longrightarrow> ra_buffer st' = [] \<and> ra_out_of_order st' = [])"
  by (rule reassembler_memory_bound)

section \<open>Where the code falls short\<close>

definition crafted_hello :: "bytes \<Rightarrow> u8 \<Rightarrow> bytes" where
  "crafted_hello mid sid_len = [0x16, 3, 1, 0, 39, 1] @ mid @ [sid_len]"

text \<open>
  The scan trusts the length fields inside the ClientHello: a record of 44 bytes whose session id
  claims more bytes than are left makes \<open>remaining\<close> wrap below zero, and the next read is outside the
  buffer. One packet to a fresh reassembler is enough.
\<close>

theorem reassembler_scan_out_of_bounds:
  assumes "length mid = 37" and "sid_len \<noteq> 0"
  shows "tryExtractSNI default_config now seq (crafted_hello mid sid_len) 44 (new_reassembler t) =
    Inl OutOfBounds"
proof -
  let ?p = "crafted_hello mid sid_len"
  have len: "length ?p = 44" using assms(1) by (simp add: crafted_hello_def)
  have r: "rd ?p 0 = Inr 0x16" "rd ?p 1 = Inr 3" "rd16 ?p 3 = Inr 39" "rd ?p 5 = Inr 1"
    "rd ?p 43 = Inr sid_len"
    using assms(1) by (simp_all add: crafted_hello_def rd_def rd16_def be16_def nth_append)
  obtain q where q: "QUICSNIExtractor_extract ?p (length ?p) = Inr q" using quic.total by blast
  have sid: "0 < unat sid_len" using assms(2) by (simp add: unat_gt_0)
  then have "2 < size_sub 1 (Suc (unat sid_len))" "1 < Suc (unat sid_len)"
    using unat_u8_less [of sid_len] by (simp_all add: size_sub_def del: unat_u8_less)
  moreover have "rd16 ?p (44 + unat sid_len) = Inl OutOfBounds" by (simp add: rd16_def len)
  ultimately have "scan_hello ?p = Inl OutOfBounds"
    using r len by (simp add: scan_hello_def Let_def)
  then have "scan_buffer ?p = Inl OutOfBounds"
    using r len q by (auto simp: scan_buffer_def)
  then show ?thesis
    using len by (simp add: tryExtractSNI_def new_reassembler_def default_config_def accept_segment_def
        seqDiff_def mergeOutOfOrder_def Let_def)
qed

theorem reassembler_scan_out_of_bounds_witness:
  "tryExtractSNI default_config 0 1000 (crafted_hello (replicate 37 0) 255) 44 (new_reassembler 0) =
     Inl OutOfBounds"
  by (rule reassembler_scan_out_of_bounds) simp_all

definition segment_call ::
  "ReassemblerConfig \<Rightarrow> u32 \<Rightarrow> bytes \<Rightarrow> TCPReassembler res \<Rightarrow> TCPReassembler res" where
  "segment_call cfg seq data m =
     rbind m (\<lambda>st. rbind (tryExtractSNI cfg 0 seq data (length data) st) (\<lambda>(_, st'). Inr st'))"

lemma scan_buffer_other: "b \<noteq> 0x16 \<Longrightarrow> scan_buffer (b # bs) = Inr None"
  using quic.total [of "b # bs"] by (auto simp: scan_buffer_def rd_def)

text \<open>
  The configured limit is not a limit of the bytes held: with any limit \<open>M\<close>, four segments (one
  byte, \<open>M - 2\<close> bytes behind a gap of one, the missing byte, and \<open>M - 2\<close> more) are all accepted and
  leave \<open>2 * M - 2\<close> bytes in the buffer.
\<close>

theorem reassembler_limit_exceeded:
  assumes "3 \<le> M" and "M < 2 ^ 31" and "max_buffer_bytes cfg = M"
    and "d1 = replicate (M - 2) x" and "a \<noteq> 0x16"
  shows "\<exists>st. segment_call cfg (of_nat M) d1 (segment_call cfg 1 [c] (segment_call cfg 2 d1
      (segment_call cfg 0 [a] (Inr (new_reassembler 0))))) = Inr st \<and>
    \<not> ra_failed st \<and> length (ra_buffer st) = 2 * M - 2"
proof -
  have d: "seqDiff (of_nat i) (of_nat j) = int i - int j"
    if "i < 2 ^ 31" "j < 2 ^ 31" for i j
    using seqDiff_offsets [of i j 0] that by simp
  have d0: "seqDiff 2 1 = 1" "seqDiff 1 1 = 0" "seqDiff 0 0 = 0" "seqDiff 2 2 = 0"
    using d [of 2 1] by (simp_all add: seqDiff_def)
  obtain k where k: "M = k + 2" "0 < k" using assms(1) that [of "M - 2"] by auto
  have len: "length d1 = k" "d1 \<noteq> []" using assms(4) k by auto
  have e: "(of_nat M :: u32) = 2 + of_nat k" using k by simp
  have d00: "seqDiff (2 + of_nat k) (2 + of_nat k) = 0" by (simp add: seqDiff_def)
  note scan = scan_buffer_other [OF assms(5)]
  let ?st = "\<lambda>buf e ooo u. \<lparr>ra_buffer = buf, ra_expected_seq = e, ra_has_syn = False,
     ra_expected_seq_initialized = True, ra_out_of_order = ooo, ra_current_memory_usage = u,
     ra_failed = False, ra_last_update = 0\<rparr>"
  let ?seg = "\<lparr>seg_seq = 2, seg_data = d1\<rparr>"
  have lb: "lower_bound [] v = 0" for v by (simp add: lower_bound_def lower_bound_loop.simps)
  have s1: "segment_call cfg 0 [a] (Inr (new_reassembler 0)) = Inr (?st [a] 1 [] 1)"
    using k assms(3) scan d0
    by (simp add: segment_call_def tryExtractSNI_def new_reassembler_def accept_segment_def
        mergeOutOfOrder_def Let_def)
  have s2: "segment_call cfg 2 d1 (Inr (?st [a] 1 [] 1)) = Inr (?st [a] 1 [?seg] (1 + k))"
    using k len assms(3) scan d0
    by (simp add: segment_call_def tryExtractSNI_def accept_segment_def Let_def buffer_out_of_order_def lb)
  have s3: "segment_call cfg 1 [c] (Inr (?st [a] 1 [?seg] (1 + k))) =
      Inr (?st (a # c # d1) (2 + of_nat k) [] 2)"
    using k len assms(3) scan d0
    by (simp add: segment_call_def tryExtractSNI_def accept_segment_def mergeOutOfOrder_def Let_def
        negate32_def)
  have s4: "segment_call cfg (2 + of_nat k) d1 (Inr (?st (a # c # d1) (2 + of_nat k) [] 2)) =
      Inr (?st (a # c # d1 @ d1) (2 + of_nat k + of_nat k) [] M)"
    using k len assms(3) scan d00
    by (simp add: segment_call_def tryExtractSNI_def accept_segment_def mergeOutOfOrder_def Let_def)
  show ?thesis unfolding e s1 s2 s3 s4 using len k by simp
qed

theorem reassembler_limit_exceeded_witness:
  "\<exists>st. segment_call default_config (of_nat 16384) (replicate (16384 - 2) 7) (segment_call default_config 1 [9]
      (segment_call default_config 2 (replicate (16384 - 2) 7)
      (segment_call default_config 0 [5] (Inr (new_reassembler 0))))) = Inr st \<and>
    \<not> ra_failed st \<and> length (ra_buffer st) = 2 * 16384 - 2"
  by (rule reassembler_limit_exceeded) (simp_all only: default_config_def ReassemblerConfig.simps, simp_all)

text \<open>
  A sequence number exactly half the sequence space behind the expected one makes the code negate
  the least 32-bit integer, which is undefined: any non-empty payload with that number does it.
\<close>

theorem reassembler_signed_overflow:
  assumes "ra_expected_seq_initialized st" and "\<not> ra_failed st" and "0 < len"
  shows "tryExtractSNI cfg now (ra_expected_seq st + 0x80000000) payload len st = Inl SignedOverflow"
proof -
  have "seqDiff (ra_expected_seq st + 0x80000000) (ra_expected_seq st) = - (2 ^ 31)"
    by (simp add: seqDiff_def)
  then show ?thesis using assms by (simp add: tryExtractSNI_def Let_def negate32_def)
qed

theorem reassembler_signed_overflow_witness:
  "tryExtractSNI default_config 1 (ra_expected_seq (new_reassembler 0\<lparr>ra_expected_seq_initialized := True\<rparr>) + 0x80000000)
     [1] 1 (new_reassembler 0\<lparr>ra_expected_seq_initialized := True\<rparr>) = Inl SignedOverflow"
  by (rule reassembler_signed_overflow) (simp_all add: new_reassembler_def)

end
