(* ===== verification/Tracker.thy ===== *)
theory Tracker
  imports Flow App_Types Reassembler
begin

text \<open>
  The connection table of a fast path: \<open>Connection\<close> (\<open>include/types.h\<close>) and \<open>ConnectionTracker\<close>,
  \<open>GlobalConnectionTable\<close> (\<open>include/connection_tracker.h\<close>, \<open>src/connection_tracker.cpp\<close>). The hash
  map is the list of its entries in iteration order; a \<open>Connection*\<close> is the canonical key of its entry.
\<close>

section \<open>The contract of a flow table\<close>

text \<open>
  What the fast path relies on: a flow has one entry, whichever direction it is asked for, and an
  update changes this entry only.
\<close>

locale flow_table = flow_identity rev_key canon
  for rev_key canon :: "'k \<Rightarrow> 'k" +
  fixes find :: "'t \<Rightarrow> 'k \<Rightarrow> 'c option" and upd :: "'k \<Rightarrow> ('c \<Rightarrow> 'c) \<Rightarrow> 't \<Rightarrow> 't"
  assumes find_canon: "find t (canon k) = find t k"
    and find_upd: "find (upd k f t) k' = (if canon k' = canon k then map_option f (find t k) else find t k')"
begin

lemma find_same_flow: "canon k = canon k' \<Longrightarrow> find t k = find t k'"
  by (metis find_canon)

lemma find_rev: "find t (rev_key k) = find t k"
  by (rule find_same_flow) (rule canon_rev)

lemma find_upd_same: "find (upd k f t) k = map_option f (find t k)"
  by (simp add: find_upd)

lemma find_upd_rev: "find (upd k f t) (rev_key k) = map_option f (find t k)"
  by (simp add: find_upd canon_rev)

lemma find_upd_other: "canon k' \<noteq> canon k \<Longrightarrow> find (upd k f t) k' = find t k'"
  by (simp add: find_upd)

lemma find_upd_upd: "find (upd k f (upd k g t)) k' = find (upd k (f \<circ> g) t) k'"
  by (simp add: find_upd option.map_comp)

end

section \<open>State\<close>

datatype ConnectionState = NEW | ESTABLISHED | CLASSIFIED | BLOCKED | CLOSED

datatype PacketAction = FORWARD | DROP | INSPECT | LOG_ONLY

record Connection =
  c_flow_key :: FlowKey
  c_has_flow_key :: bool
  c_tuple :: "FiveTuple option"
  c_original_is_canonical :: bool
  c_state :: ConnectionState
  c_app_type :: AppType
  c_sni :: string
  c_http_host :: string
  c_dns_query :: string
  c_packets_in :: u64
  c_packets_out :: u64
  c_bytes_in :: u64
  c_bytes_out :: u64
  c_first_seen :: nat
  c_last_seen :: nat
  c_action :: PacketAction
  c_syn_seen :: bool
  c_syn_ack_seen :: bool
  c_fin_seen :: bool
  c_reassembler_client :: TCPReassembler
  c_reassembler_server :: TCPReassembler

definition bestDomain :: "Connection \<Rightarrow> string" where
  "bestDomain c =
     (if c_sni c \<noteq> [] then c_sni c
      else if c_http_host c \<noteq> [] then c_http_host c
      else if c_dns_query c \<noteq> [] then c_dns_query c
      else [])"

record ConnectionTracker =
  ct_fp_id :: int
  ct_max_connections :: nat
  ct_connections :: "(FlowKey \<times> Connection) list"
  ct_total_seen :: nat
  ct_classified_count :: nat
  ct_blocked_count :: nat

definition new_tracker :: "int \<Rightarrow> nat \<Rightarrow> ConnectionTracker" where
  "new_tracker fp_id max_connections =
     \<lparr>ct_fp_id = fp_id, ct_max_connections = max_connections, ct_connections = [],
      ct_total_seen = 0, ct_classified_count = 0, ct_blocked_count = 0\<rparr>"

section \<open>Operations\<close>

definition getConnection :: "ConnectionTracker \<Rightarrow> FlowKey \<Rightarrow> Connection option" where
  "getConnection ct key = map_of (ct_connections ct) (fk_canonical key)"

text \<open>A write through a \<open>Connection*\<close>.\<close>

definition on_connection :: "FlowKey \<Rightarrow> (Connection \<Rightarrow> Connection) \<Rightarrow> ConnectionTracker \<Rightarrow> ConnectionTracker" where
  "on_connection key f ct =
     ct\<lparr>ct_connections :=
          map (\<lambda>(k, c). (k, if k = fk_canonical key then f c else c)) (ct_connections ct)\<rparr>"

interpretation tracker: flow_table fk_reverse fk_canonical getConnection on_connection
proof
  fix ct k k' and f :: "Connection \<Rightarrow> Connection"
  show "getConnection ct (fk_canonical k) = getConnection ct k"
    by (simp add: getConnection_def flow_key.canon_idem)
  have "map_of (map (\<lambda>(k', c). (k', if k' = a then f c else c)) xs) b =
      (if b = a then map_option f (map_of xs a) else map_of xs b)"
    for xs :: "(FlowKey \<times> Connection) list" and a b
    by (induction xs) auto
  then show "getConnection (on_connection k f ct) k' =
      (if fk_canonical k' = fk_canonical k then map_option f (getConnection ct k) else getConnection ct k')"
    by (simp add: getConnection_def on_connection_def)
qed

text \<open>The first entry with the least \<open>last_seen\<close> in iteration order.\<close>

definition oldest :: "(FlowKey \<times> Connection) \<Rightarrow> (FlowKey \<times> Connection) list \<Rightarrow> FlowKey \<times> Connection" where
  "oldest e es = foldl (\<lambda>o' e. if c_last_seen (snd e) < c_last_seen (snd o') then e else o') e es"

definition evictOldest :: "ConnectionTracker \<Rightarrow> ConnectionTracker" where
  "evictOldest ct =
     (case ct_connections ct of
        [] \<Rightarrow> ct
      | e # es \<Rightarrow>
          ct\<lparr>ct_connections := filter (\<lambda>(k, _). k \<noteq> fst (oldest e (e # es))) (ct_connections ct)\<rparr>)"

definition new_connection :: "nat \<Rightarrow> FlowKey \<Rightarrow> Connection res" where
  "new_connection now key =
     (let canonical = fk_canonical key;
          conn = \<lparr>c_flow_key = canonical, c_has_flow_key = False, c_tuple = None,
            c_original_is_canonical = (key = canonical), c_state = NEW, c_app_type = UNKNOWN,
            c_sni = [], c_http_host = [], c_dns_query = [], c_packets_in = 0, c_packets_out = 0,
            c_bytes_in = 0, c_bytes_out = 0, c_first_seen = now, c_last_seen = now,
            c_action = FORWARD, c_syn_seen = False, c_syn_ack_seen = False, c_fin_seen = False,
            c_reassembler_client = new_reassembler now, c_reassembler_server = new_reassembler now\<rparr>
      in if fk_isIPv6 key then Inr conn
         else rbind (get_ipv4 (fk_src_addr key)) (\<lambda>src. rbind (get_ipv4 (fk_dst_addr key)) (\<lambda>dst.
           Inr (conn\<lparr>c_tuple := Some (ft_canonical \<lparr>ft_src_ip = src, ft_dst_ip = dst,
              ft_src_port = fk_src_port key, ft_dst_port = fk_dst_port key,
              ft_protocol = fk_protocol key\<rparr>)\<rparr>))))"

definition getOrCreateConnection :: "nat \<Rightarrow> FlowKey \<Rightarrow> ConnectionTracker \<Rightarrow> ConnectionTracker res" where
  "getOrCreateConnection now key ct =
     (let canonical = fk_canonical key in
      case map_of (ct_connections ct) canonical of
        Some _ \<Rightarrow> Inr ct
      | None \<Rightarrow>
          let ct = (if length (ct_connections ct) \<ge> ct_max_connections ct then evictOldest ct else ct)
          in rbind (new_connection now key) (\<lambda>conn.
               Inr (ct\<lparr>ct_connections := ct_connections ct @ [(canonical, conn)],
                       ct_total_seen := ct_total_seen ct + 1\<rparr>)))"

definition updateConnection :: "nat \<Rightarrow> FlowKey \<Rightarrow> nat \<Rightarrow> bool \<Rightarrow> ConnectionTracker \<Rightarrow> ConnectionTracker" where
  "updateConnection now key packet_size is_client_to_server =
     on_connection key (\<lambda>c.
       let c = c\<lparr>c_last_seen := now\<rparr> in
       if is_client_to_server then
         c\<lparr>c_packets_in := c_packets_in c + 1, c_bytes_in := c_bytes_in c + of_nat packet_size\<rparr>
       else
         c\<lparr>c_packets_out := c_packets_out c + 1, c_bytes_out := c_bytes_out c + of_nat packet_size\<rparr>)"

definition classify_fields :: "AppType \<Rightarrow> string \<Rightarrow> string \<Rightarrow> string \<Rightarrow> Connection \<Rightarrow> Connection" where
  "classify_fields app sni http_host dns_query c =
     (let c = (if c_state c \<noteq> CLASSIFIED then c\<lparr>c_app_type := app, c_state := CLASSIFIED\<rparr> else c);
          c = (if sni \<noteq> [] then c\<lparr>c_sni := sni\<rparr> else c);
          c = (if http_host \<noteq> [] then c\<lparr>c_http_host := http_host\<rparr> else c)
      in if dns_query \<noteq> [] then c\<lparr>c_dns_query := dns_query\<rparr> else c)"

definition classifyConnection ::
  "FlowKey \<Rightarrow> AppType \<Rightarrow> string \<Rightarrow> string \<Rightarrow> string \<Rightarrow> ConnectionTracker \<Rightarrow> ConnectionTracker" where
  "classifyConnection key app sni http_host dns_query ct =
     (case getConnection ct key of
        None \<Rightarrow> ct
      | Some c \<Rightarrow>
          (on_connection key (classify_fields app sni http_host dns_query) ct)
            \<lparr>ct_classified_count := ct_classified_count ct + (if c_state c \<noteq> CLASSIFIED then 1 else 0)\<rparr>)"

definition blockConnection :: "FlowKey \<Rightarrow> ConnectionTracker \<Rightarrow> ConnectionTracker" where
  "blockConnection key ct =
     (on_connection key (\<lambda>c. c\<lparr>c_state := BLOCKED, c_action := DROP\<rparr>) ct)
       \<lparr>ct_blocked_count := ct_blocked_count ct + 1\<rparr>"

definition closeConnection :: "FlowKey \<Rightarrow> ConnectionTracker \<Rightarrow> ConnectionTracker" where
  "closeConnection key = on_connection key (\<lambda>c. c\<lparr>c_state := CLOSED\<rparr>)"

text \<open>\<open>duration_cast<seconds>(now - last_seen)\<close> on nanosecond time points.\<close>

definition age_seconds :: "nat \<Rightarrow> Connection \<Rightarrow> nat" where
  "age_seconds now c = (now - c_last_seen c) div 10 ^ 9"

definition should_remove :: "nat \<Rightarrow> nat \<Rightarrow> Connection \<Rightarrow> bool" where
  "should_remove now default_timeout c =
     (if c_state c = CLOSED then True
      else if fk_protocol (c_flow_key c) = 6 then
        (if c_state c = ESTABLISHED \<or> c_state c = CLASSIFIED then age_seconds now c > default_timeout
         else age_seconds now c > 60)
      else age_seconds now c > 120)"

definition cleanupStale :: "nat \<Rightarrow> nat \<Rightarrow> ConnectionTracker \<Rightarrow> nat \<times> ConnectionTracker" where
  "cleanupStale now default_timeout ct =
     (let kept = filter (\<lambda>(_, c). \<not> should_remove now default_timeout c) (ct_connections ct)
      in (length (ct_connections ct) - length kept, ct\<lparr>ct_connections := kept\<rparr>))"

definition getAllConnections :: "ConnectionTracker \<Rightarrow> Connection list" where
  "getAllConnections ct = map snd (ct_connections ct)"

definition getActiveCount :: "ConnectionTracker \<Rightarrow> nat" where
  "getActiveCount ct = length (ct_connections ct)"

record TrackerStats =
  ts_active_connections :: nat
  ts_total_connections_seen :: nat
  ts_classified_connections :: nat
  ts_blocked_connections :: nat

definition tracker_stats :: "ConnectionTracker \<Rightarrow> TrackerStats" where
  "tracker_stats ct =
     \<lparr>ts_active_connections = length (ct_connections ct), ts_total_connections_seen = ct_total_seen ct,
      ts_classified_connections = ct_classified_count ct, ts_blocked_connections = ct_blocked_count ct\<rparr>"

text \<open>A callback is a function of its own state.\<close>

definition ct_forEach :: "(Connection \<Rightarrow> 's \<Rightarrow> 's) \<Rightarrow> ConnectionTracker \<Rightarrow> 's \<Rightarrow> 's" where
  "ct_forEach callback ct s = fold (\<lambda>(_, c). callback c) (ct_connections ct) s"

text \<open>The overloads for a \<open>FiveTuple\<close>.\<close>

definition getConnection_tuple :: "ConnectionTracker \<Rightarrow> FiveTuple \<Rightarrow> Connection option" where
  "getConnection_tuple ct tuple = getConnection ct (fromFiveTuple tuple)"

definition getOrCreateConnection_tuple :: "nat \<Rightarrow> FiveTuple \<Rightarrow> ConnectionTracker \<Rightarrow> ConnectionTracker res" where
  "getOrCreateConnection_tuple now tuple = getOrCreateConnection now (fromFiveTuple tuple)"

definition closeConnection_tuple :: "FiveTuple \<Rightarrow> ConnectionTracker \<Rightarrow> ConnectionTracker" where
  "closeConnection_tuple tuple = closeConnection (fromFiveTuple tuple)"

definition ct_clear :: "ConnectionTracker \<Rightarrow> ConnectionTracker" where
  "ct_clear ct = ct\<lparr>ct_connections := []\<rparr>"

section \<open>Aggregation over all fast paths\<close>

record GlobalStats =
  gs_total_active_connections :: nat
  gs_total_connections_seen :: nat
  gs_app_distribution :: "AppType \<Rightarrow> nat"
  gs_top_domains :: "(string \<times> nat) list"

definition registered :: "ConnectionTracker option list \<Rightarrow> ConnectionTracker list" where
  "registered trackers = concat (map (\<lambda>t. case t of None \<Rightarrow> [] | Some t \<Rightarrow> [t]) trackers)"

definition new_global_table :: "nat \<Rightarrow> ConnectionTracker option list" where
  "new_global_table num_fps = replicate num_fps None"

definition registerTracker ::
  "int \<Rightarrow> ConnectionTracker option \<Rightarrow> ConnectionTracker option list \<Rightarrow> ConnectionTracker option list res" where
  "registerTracker fp_id tracker trackers =
     (if fp_id < int (length trackers) then
        (if fp_id < 0 then Inl OutOfBounds else Inr (trackers[nat fp_id := tracker]))
      else Inr trackers)"

text \<open>
  The counts are read off the connections of all trackers. \<open>std::sort\<close> leaves the order of equal
  counts open; the model keeps the order of last occurrence.
\<close>

definition getGlobalStats :: "ConnectionTracker option list \<Rightarrow> GlobalStats" where
  "getGlobalStats trackers =
     (let ts = registered trackers;
          conns = concat (map getAllConnections ts);
          domains = filter (\<lambda>d. d \<noteq> []) (map bestDomain conns);
          domain_vec = map (\<lambda>d. (d, count_list domains d)) (remdups domains);
          sorted_vec = sort_key (\<lambda>(_, n). - int n) domain_vec
      in \<lparr>gs_total_active_connections = sum_list (map (\<lambda>t. ts_active_connections (tracker_stats t)) ts),
          gs_total_connections_seen = sum_list (map (\<lambda>t. ts_total_connections_seen (tracker_stats t)) ts),
          gs_app_distribution = (\<lambda>a. count_list (map c_app_type conns) a),
          gs_top_domains = take (min (length sorted_vec) 20) sorted_vec\<rparr>)"

section \<open>The table invariant\<close>

definition wf_tracker :: "ConnectionTracker \<Rightarrow> bool" where
  "wf_tracker ct \<longleftrightarrow>
     distinct (map fst (ct_connections ct)) \<and>
     (\<forall>(k, c) \<in> set (ct_connections ct). fk_canonical k = k \<and> c_flow_key c = k) \<and>
     length (ct_connections ct) \<le> max 1 (ct_max_connections ct)"

lemma wf_new_tracker: "wf_tracker (new_tracker fp n)"
  by (simp add: wf_tracker_def new_tracker_def)

lemma on_connection_frame [simp]:
  "ct_max_connections (on_connection k f ct) = ct_max_connections ct"
  "map fst (ct_connections (on_connection k f ct)) = map fst (ct_connections ct)"
  "length (ct_connections (on_connection k f ct)) = length (ct_connections ct)"
  "ct_classified_count (on_connection k f ct) = ct_classified_count ct"
  "ct_blocked_count (on_connection k f ct) = ct_blocked_count ct"
  by (auto simp: on_connection_def comp_def split_def)

text \<open>Whatever is written through a pointer, as long as the flow key stays, the table stays well formed.\<close>

lemma wf_on_connection:
  assumes "wf_tracker ct" and "\<And>c. c_flow_key (f c) = c_flow_key c"
  shows "wf_tracker (on_connection k f ct)"
proof -
  have "\<forall>(k', c) \<in> set (ct_connections (on_connection k f ct)). fk_canonical k' = k' \<and> c_flow_key c = k'"
    using assms by (auto simp: wf_tracker_def on_connection_def)
  then show ?thesis using assms(1) unfolding wf_tracker_def by simp
qed

lemma wf_tracker_counts [simp]:
  "wf_tracker (ct\<lparr>ct_classified_count := n\<rparr>) = wf_tracker ct"
  "wf_tracker (ct\<lparr>ct_blocked_count := n\<rparr>) = wf_tracker ct"
  by (simp_all add: wf_tracker_def)

lemma classify_fields_flow_key [simp]: "c_flow_key (classify_fields a s h d c) = c_flow_key c"
  by (simp add: classify_fields_def Let_def)

lemma wf_tracker_operations:
  assumes "wf_tracker ct"
  shows "wf_tracker (updateConnection now key n b ct)" "wf_tracker (classifyConnection key a s h d ct)"
    "wf_tracker (blockConnection key ct)" "wf_tracker (closeConnection key ct)"
    "wf_tracker (snd (cleanupStale now t ct))" "wf_tracker (ct_clear ct)"
proof -
  show "wf_tracker (updateConnection now key n b ct)"
    unfolding updateConnection_def by (rule wf_on_connection [OF assms]) (simp add: Let_def)
  show "wf_tracker (classifyConnection key a s h d ct)"
    using assms by (auto simp: classifyConnection_def wf_on_connection split: option.split)
  show "wf_tracker (blockConnection key ct)" "wf_tracker (closeConnection key ct)"
    using assms by (simp_all add: blockConnection_def closeConnection_def wf_on_connection)
  show "wf_tracker (snd (cleanupStale now t ct))"
    using assms order_trans [OF length_filter_le [of "\<lambda>(_, c). \<not> should_remove now t c" "ct_connections ct"]]
    by (auto simp: wf_tracker_def cleanupStale_def Let_def distinct_map_filter)
  show "wf_tracker (ct_clear ct)" by (simp add: wf_tracker_def ct_clear_def)
qed

text \<open>The victim of an eviction is an entry with the least time stamp.\<close>

lemma oldest_least:
  "oldest e es \<in> set (e # es) \<and> (\<forall>x \<in> set (e # es). c_last_seen (snd (oldest e es)) \<le> c_last_seen (snd x))"
proof (induction es arbitrary: e)
  case (Cons x es)
  let ?e = "if c_last_seen (snd x) < c_last_seen (snd e) then x else e"
  have "oldest e (x # es) = oldest ?e es" by (simp add: oldest_def)
  then show ?case using Cons.IH [of ?e] by (auto split: if_splits)
qed (simp add: oldest_def)

definition victim :: "ConnectionTracker \<Rightarrow> FlowKey" where
  "victim ct = fst (oldest (hd (ct_connections ct)) (ct_connections ct))"

lemma evictOldest_connections:
  "ct_connections (evictOldest ct) = filter (\<lambda>(k, _). k \<noteq> victim ct) (ct_connections ct)"
  by (cases "ct_connections ct") (simp_all add: evictOldest_def victim_def)

lemma evictOldest_frame [simp]:
  "ct_max_connections (evictOldest ct) = ct_max_connections ct" "ct_total_seen (evictOldest ct) = ct_total_seen ct"
  by (simp_all add: evictOldest_def split: list.split)

lemma victim_oldest:
  assumes "wf_tracker ct" and "ct_connections ct \<noteq> []"
  shows "\<exists>c. getConnection ct (victim ct) = Some c \<and>
    (\<forall>k c'. getConnection ct k = Some c' \<longrightarrow> c_last_seen c \<le> c_last_seen c')"
proof -
  let ?es = "ct_connections ct" and ?v = "oldest (hd (ct_connections ct)) (ct_connections ct)"
  have v: "?v \<in> set ?es" "\<forall>x \<in> set ?es. c_last_seen (snd ?v) \<le> c_last_seen (snd x)"
    using oldest_least [of "hd ?es" ?es] assms(2) by auto
  have "map_of ?es (fst ?v) = Some (snd ?v)"
    using v(1) assms(1) by (simp add: wf_tracker_def)
  moreover have "fk_canonical (fst ?v) = fst ?v"
    using v(1) assms(1) by (auto simp: wf_tracker_def)
  ultimately show ?thesis
    using v(2) by (fastforce simp: getConnection_def victim_def dest: map_of_SomeD)
qed

lemma map_of_filter_neq: "map_of (filter (\<lambda>(k, _). k \<noteq> v) xs) = (map_of xs)(v := None)"
  by (induction xs) auto

lemma length_filter_neq:
  assumes "v \<in> fst ` set xs"
  shows "length (filter (\<lambda>(k, _). k \<noteq> v) xs) < length xs"
proof -
  obtain c where "(v, c) \<in> set xs" using assms by auto
  then show ?thesis by (rule length_filter_less) simp
qed

lemma length_evictOldest:
  "ct_connections ct \<noteq> [] \<Longrightarrow> length (ct_connections (evictOldest ct)) < length (ct_connections ct)"
  unfolding evictOldest_connections victim_def
  by (rule length_filter_neq) (use oldest_least [of "hd (ct_connections ct)" "ct_connections ct"] in auto)

lemma getConnection_evictOldest:
  "getConnection (evictOldest ct) k = (if fk_canonical k = victim ct then None else getConnection ct k)"
  by (simp add: getConnection_def evictOldest_connections map_of_filter_neq)

lemma wf_evictOldest:
  "wf_tracker ct \<Longrightarrow> wf_tracker (evictOldest ct)"
  using order_trans [OF length_filter_le [of "\<lambda>(k, _). k \<noteq> victim ct" "ct_connections ct"]]
  by (auto simp: wf_tracker_def evictOldest_connections distinct_map_filter)

lemma new_connection_flow_key: "new_connection now key = Inr c \<Longrightarrow> c_flow_key c = fk_canonical key"
  by (auto simp: new_connection_def Let_def rbind_Inr_iff split: if_splits)

text \<open>A key whose addresses are of one family, as \<open>fromFiveTuple\<close> and \<open>fromIPv6\<close> make them.\<close>

definition one_family :: "FlowKey \<Rightarrow> bool" where
  "one_family k \<longleftrightarrow> addr_index (fk_src_addr k) = addr_index (fk_dst_addr k)"

lemma one_family_conversions [simp]:
  "one_family (fromFiveTuple t)" "one_family (fromIPv6 s d sp dp p)"
  by (simp_all add: one_family_def fromFiveTuple_def fromIPv6_def)

lemma one_family_reverse [simp]: "one_family (fk_reverse k) = one_family k"
  by (auto simp: one_family_def fk_reverse_def)

lemma one_family_canonical [simp]: "one_family (fk_canonical k) = one_family k"
  using flow_key.canon_cases [of k] by auto

lemma new_connection_returns: "one_family key \<Longrightarrow> \<exists>c. new_connection now key = Inr c"
  by (cases "fk_src_addr key"; cases "fk_dst_addr key")
    (simp_all add: new_connection_def Let_def fk_isIPv6_def one_family_def)

lemma evictOldest_one:
  assumes "wf_tracker ct"
  shows "length (ct_connections ct) \<le> Suc (length (ct_connections (evictOldest ct)))"
proof -
  have "length xs \<le> Suc (length (filter (\<lambda>(k, _). k \<noteq> v) xs))"
    if "distinct (map fst xs)" for xs :: "(FlowKey \<times> Connection) list" and v
    using that
  proof (induction xs)
    case (Cons x xs)
    then have "fst x = v \<longrightarrow> filter (\<lambda>(k, _). k \<noteq> v) xs = xs"
      by (intro impI filter_True) (fastforce simp: split_def image_iff)
    then show ?case using Cons by (auto simp: split_def)
  qed simp
  then show ?thesis using assms by (simp add: evictOldest_connections wf_tracker_def)
qed

lemma wf_getOrCreate:
  assumes "wf_tracker ct" and "getOrCreateConnection now key ct = Inr ct'"
  shows "wf_tracker ct'"
proof (cases "map_of (ct_connections ct) (fk_canonical key)")
  case (Some c)
  then show ?thesis using assms by (simp add: getOrCreateConnection_def Let_def)
next
  case None
  define ct1 where "ct1 = (if length (ct_connections ct) \<ge> ct_max_connections ct then evictOldest ct else ct)"
  obtain c where c: "new_connection now key = Inr c"
    and ct': "ct' = ct1\<lparr>ct_connections := ct_connections ct1 @ [(fk_canonical key, c)],
                        ct_total_seen := ct_total_seen ct1 + 1\<rparr>"
    using assms(2) None by (auto simp: getOrCreateConnection_def Let_def rbind_Inr_iff ct1_def)
  have wf1: "wf_tracker ct1" using assms(1) by (simp add: ct1_def wf_evictOldest)
  have mx: "ct_max_connections ct1 = ct_max_connections ct" by (simp add: ct1_def)
  have "length (ct_connections ct1) < max 1 (ct_max_connections ct)"
    using assms(1) length_evictOldest [of ct]
    by (cases "ct_connections ct = []") (auto simp: ct1_def wf_tracker_def evictOldest_def)
  moreover have "fk_canonical key \<notin> fst ` set (ct_connections ct1)"
    using None by (auto simp: ct1_def map_of_eq_None_iff evictOldest_connections split: if_splits)
  ultimately show ?thesis
    using wf1 new_connection_flow_key [OF c] mx
    by (auto simp: ct' wf_tracker_def flow_key.canon_idem)
qed

text \<open>
  C33. Looking up or creating a connection. For a key of one address family the call returns and the
  flow has an entry afterwards, the same one for both directions: the old entry, or a fresh one in
  state \<open>NEW\<close>. Every other flow keeps its entry unchanged, except that a full table may have lost one
  entry (the table never shrinks), and then one that has been idle longest. The table stays well
  formed: one entry per flow, under its canonical key, and never more entries than configured (but at
  least one).
\<close>

theorem getOrCreateConnection_spec:
  assumes "wf_tracker ct" and "one_family key"
  shows "\<exists>ct' c. getOrCreateConnection now key ct = Inr ct' \<and> wf_tracker ct' \<and>
    length (ct_connections ct) \<le> length (ct_connections ct') \<and>
    length (ct_connections ct') \<le> max 1 (ct_max_connections ct) \<and>
    getConnection ct' key = Some c \<and> getConnection ct' (fk_reverse key) = Some c \<and>
    (if getConnection ct key = None
     then c_state c = NEW \<and> c_flow_key c = fk_canonical key \<and> ct_total_seen ct' = ct_total_seen ct + 1
     else getConnection ct key = Some c \<and> ct' = ct) \<and>
    (\<forall>k. fk_canonical k = fk_canonical key \<or> getConnection ct' k = getConnection ct k \<or>
       getConnection ct' k = None \<and> ct_max_connections ct \<le> length (ct_connections ct) \<and>
       (\<exists>old. getConnection ct k = Some old \<and>
         (\<forall>k' c'. getConnection ct k' \<noteq> Some c' \<or> c_last_seen old \<le> c_last_seen c')))"
proof (cases "getConnection ct key")
  case (Some c)
  then have "getOrCreateConnection now key ct = Inr ct"
    by (simp add: getOrCreateConnection_def getConnection_def Let_def)
  then show ?thesis
    using Some assms(1) tracker.find_rev [of ct key] by (auto simp: wf_tracker_def)
next
  case None
  let ?full = "length (ct_connections ct) \<ge> ct_max_connections ct"
  define ct1 where "ct1 = (if ?full then evictOldest ct else ct)"
  obtain c where c: "new_connection now key = Inr c" using new_connection_returns [OF assms(2)] by blast
  define ct' where "ct' = ct1\<lparr>ct_connections := ct_connections ct1 @ [(fk_canonical key, c)],
                              ct_total_seen := ct_total_seen ct1 + 1\<rparr>"
  have run: "getOrCreateConnection now key ct = Inr ct'"
    using None c by (simp add: getOrCreateConnection_def getConnection_def Let_def ct1_def ct'_def)
  have wf': "wf_tracker ct'" using wf_getOrCreate [OF assms(1) run] .
  have fk: "c_flow_key c = fk_canonical key" "c_state c = NEW"
    using c by (auto simp: new_connection_def Let_def rbind_Inr_iff split: if_splits)
  have none1: "getConnection ct1 key = None"
    using None by (simp add: ct1_def getConnection_evictOldest)
  have find: "getConnection ct' k = (if fk_canonical k = fk_canonical key then Some c else getConnection ct1 k)" for k
    using none1 by (auto simp: ct'_def getConnection_def map_add_def split: option.splits)
  have lost: "getConnection ct1 k = getConnection ct k \<or>
      getConnection ct1 k = None \<and> ?full \<and> (\<exists>old. getConnection ct k = Some old \<and>
         (\<forall>k' c'. getConnection ct k' \<noteq> Some c' \<or> c_last_seen old \<le> c_last_seen c'))" for k
  proof (cases "?full \<and> getConnection ct k \<noteq> None \<and> fk_canonical k = victim ct")
    case True
    then have "ct_connections ct \<noteq> []" by (auto simp: getConnection_def)
    then obtain old where "getConnection ct (victim ct) = Some old"
      "\<forall>k c'. getConnection ct k = Some c' \<longrightarrow> c_last_seen old \<le> c_last_seen c'"
      using victim_oldest [OF assms(1)] by blast
    moreover have "getConnection ct (victim ct) = getConnection ct k"
      using True tracker.find_canon by metis
    ultimately show ?thesis using True by (auto simp: ct1_def getConnection_evictOldest)
  qed (auto simp: ct1_def getConnection_evictOldest)
  have "ct_max_connections ct' = ct_max_connections ct" "ct_total_seen ct' = ct_total_seen ct + 1"
    "length (ct_connections ct) \<le> length (ct_connections ct')"
    using evictOldest_one [OF assms(1)] by (simp_all add: ct'_def ct1_def)
  then show ?thesis
    using run wf' None find lost fk flow_key.canon_rev [of key]
    by (auto simp: wf_tracker_def intro!: exI [of _ ct'])
qed

definition sample_key :: FlowKey where
  "sample_key = \<lparr>fk_src_addr = IPv4Addr 9, fk_dst_addr = IPv4Addr 4, fk_src_port = 5000,
     fk_dst_port = 443, fk_protocol = 6\<rparr>"

definition other_key :: FlowKey where
  "other_key = \<lparr>fk_src_addr = IPv4Addr 1, fk_dst_addr = IPv4Addr 2, fk_src_port = 40000,
     fk_dst_port = 53, fk_protocol = 17\<rparr>"

text \<open>A table of capacity one that is full: the new flow replaces the old one.\<close>

theorem getOrCreateConnection_spec_witness:
  "\<exists>full ct' c. getOrCreateConnection 3 other_key (new_tracker 0 1) = Inr full \<and>
    getOrCreateConnection 7 sample_key full = Inr ct' \<and> getConnection ct' (fk_reverse sample_key) = Some c \<and>
    c_state c = NEW \<and> getConnection ct' other_key = None \<and> length (ct_connections ct') = 1"
proof -
  have fam: "one_family other_key" "one_family sample_key"
    by (simp_all add: one_family_def other_key_def sample_key_def)
  obtain full where full: "getOrCreateConnection 3 other_key (new_tracker 0 1) = Inr full"
    and entries: "map fst (ct_connections full) = [fk_canonical other_key]"
    and cap: "ct_max_connections full = 1"
    using new_connection_returns [OF fam(1), of 3]
    by (auto simp: getOrCreateConnection_def new_tracker_def)
  have wf: "wf_tracker full" using wf_getOrCreate [OF wf_new_tracker full] .
  have neq: "fk_canonical sample_key \<noteq> fk_canonical other_key"
    by code_simp
  have none: "getConnection full sample_key = None"
    using neq entries by (auto simp: getConnection_def map_of_eq_None_iff simp flip: set_map)
  obtain ct' c where res: "getOrCreateConnection 7 sample_key full = Inr ct'" "wf_tracker ct'"
    "length (ct_connections full) \<le> length (ct_connections ct')" "length (ct_connections ct') \<le> 1"
    "getConnection ct' (fk_reverse sample_key) = Some c" "getConnection ct' sample_key = Some c" "c_state c = NEW"
    using getOrCreateConnection_spec [OF wf fam(2), of 7] none cap by fastforce
  then obtain k c' where one: "ct_connections ct' = [(k, c')]"
    using entries by (cases "ct_connections ct'") auto
  then have "k = fk_canonical sample_key" using res(6) by (simp add: getConnection_def split: if_splits)
  then have "getConnection ct' other_key = None" using one neq by (simp add: getConnection_def)
  then show ?thesis using full res one by auto
qed

section \<open>Clean-up and aggregation\<close>

definition idle_limit :: "nat \<Rightarrow> Connection \<Rightarrow> nat" where
  "idle_limit default_timeout c =
     (if fk_protocol (c_flow_key c) \<noteq> 6 then 120
      else if c_state c = ESTABLISHED \<or> c_state c = CLASSIFIED then default_timeout else 60)"

lemma should_remove_iff:
  "should_remove now t c \<longleftrightarrow> c_state c = CLOSED \<or> (now - c_last_seen c) div 10 ^ 9 > idle_limit t c"
  by (simp add: should_remove_def idle_limit_def age_seconds_def)

lemma map_of_filter_value:
  "distinct (map fst xs) \<Longrightarrow>
   map_of (filter (\<lambda>(_, c). P c) xs) k = (case map_of xs k of None \<Rightarrow> None | Some c \<Rightarrow> if P c then Some c else None)"
  by (induction xs) (auto simp: map_of_eq_None_iff rev_image_eqI split: option.splits)

text \<open>
  C34. The periodic clean-up. It leaves exactly the flows that are not closed and have not been idle for
  longer than the limit of their kind (the given timeout for an established or classified TCP flow, 60
  seconds for another TCP flow, 120 seconds for anything else), with their entries unchanged; its result is
  the number of entries it has erased. The second clean-up at the same time finds nothing.
\<close>

theorem cleanupStale_spec:
  assumes "wf_tracker ct"
  shows "getConnection (snd (cleanupStale now t ct)) k =
      (case getConnection ct k of
         None \<Rightarrow> None
       | Some c \<Rightarrow> if c_state c \<noteq> CLOSED \<and> (now - c_last_seen c) div 10 ^ 9 \<le> idle_limit t c then Some c else None)
    \<and> fst (cleanupStale now t ct) + getActiveCount (snd (cleanupStale now t ct)) = getActiveCount ct
    \<and> cleanupStale now t (snd (cleanupStale now t ct)) = (0, snd (cleanupStale now t ct))"
proof (intro conjI)
  have "distinct (map fst (ct_connections ct))" using assms by (simp add: wf_tracker_def)
  from map_of_filter_value [OF this, of "\<lambda>c. \<not> should_remove now t c"]
  show "getConnection (snd (cleanupStale now t ct)) k =
      (case getConnection ct k of
         None \<Rightarrow> None
       | Some c \<Rightarrow> if c_state c \<noteq> CLOSED \<and> (now - c_last_seen c) div 10 ^ 9 \<le> idle_limit t c then Some c else None)"
    by (auto simp: getConnection_def cleanupStale_def Let_def should_remove_iff not_less split: option.splits)
qed (simp_all add: cleanupStale_def getActiveCount_def Let_def)

theorem cleanupStale_spec_witness:
  "\<exists>ct. getOrCreateConnection 0 other_key (new_tracker 0 5) = Inr ct \<and>
     getConnection (snd (cleanupStale (120 * 10 ^ 9) 300 ct)) other_key \<noteq> None \<and>
     getConnection (snd (cleanupStale (121 * 10 ^ 9) 300 ct)) other_key = None \<and>
     fst (cleanupStale (121 * 10 ^ 9) 300 ct) = 1"
proof -
  have fam: "one_family other_key" by (simp add: one_family_def other_key_def)
  obtain c where c: "new_connection 0 other_key = Inr c"
    using new_connection_returns [OF fam, of 0] by blast
  then have f: "fk_protocol (c_flow_key c) = 17" "c_state c = NEW" "c_last_seen c = 0"
    using flow_key.canon_cases [of other_key] new_connection_flow_key [OF c]
    by (auto simp: new_connection_def other_key_def fk_isIPv6_def Let_def fk_reverse_def)
  define ct where "ct = (new_tracker 0 5)\<lparr>ct_connections := [(fk_canonical other_key, c)], ct_total_seen := 1\<rparr>"
  have run: "getOrCreateConnection 0 other_key (new_tracker 0 5) = Inr ct"
    using c by (simp add: getOrCreateConnection_def new_tracker_def ct_def)
  note spec = cleanupStale_spec [OF wf_getOrCreate [OF wf_new_tracker run], THEN conjunct1]
    cleanupStale_spec [OF wf_getOrCreate [OF wf_new_tracker run], THEN conjunct2, THEN conjunct1]
  have get: "getConnection ct other_key = Some c" and n: "getActiveCount ct = 1"
    by (simp_all add: ct_def getConnection_def getActiveCount_def)
  have kept: "getConnection (snd (cleanupStale (120 * 10 ^ 9) 300 ct)) other_key \<noteq> None"
    unfolding spec(1) using get f by (simp add: idle_limit_def)
  have gone: "getConnection (snd (cleanupStale (121 * 10 ^ 9) 300 ct)) other_key = None"
    unfolding spec(1) using get f by (simp add: idle_limit_def)
  have "getActiveCount (snd (cleanupStale (121 * 10 ^ 9) 300 ct)) = 0"
    using f by (simp add: cleanupStale_def getActiveCount_def ct_def should_remove_iff idle_limit_def)
  then have "fst (cleanupStale (121 * 10 ^ 9) 300 ct) = 1" using spec(2) [of "121 * 10 ^ 9" 300] n by simp
  then show ?thesis using run kept gone by blast
qed

definition connections_of :: "ConnectionTracker option list \<Rightarrow> Connection list" where
  "connections_of trackers = concat (map getAllConnections (registered trackers))"

lemma sum_count_list:
  "set xs \<subseteq> A \<Longrightarrow> finite A \<Longrightarrow> (\<Sum>x \<in> A. count_list xs x) = length xs"
proof (induction xs)
  case (Cons a xs)
  then have "(\<Sum>x \<in> A. count_list (a # xs) x) = (\<Sum>x \<in> A. count_list xs x + (if a = x then 1 else 0))"
    by (intro sum.cong) auto
  also have "\<dots> = length xs + 1" using Cons by (simp add: sum.distrib)
  finally show ?case by simp
qed simp

lemma nonempty_counts:
  "d \<noteq> [] \<Longrightarrow> count_list (filter (\<lambda>d. d \<noteq> []) (map f cs)) d = length (filter (\<lambda>c. f c = d) cs)"
  "d \<in> set (filter (\<lambda>d. d \<noteq> []) (map f cs)) \<longleftrightarrow> d \<noteq> [] \<and> length (filter (\<lambda>c. f c = d) cs) > 0"
  by (induction cs) auto

lemma sorted_take_rest:
  assumes "sorted_wrt (\<lambda>x y. f y \<le> (f x :: nat)) xs" and "y \<in> set xs" and "y \<notin> set (take n xs)" and "x \<in> set (take n xs)"
  shows "f y \<le> f x"
proof -
  have "y \<in> set (drop n xs)" using assms(2,3) by (metis Un_iff append_take_drop_id set_append)
  then show ?thesis
    using assms(1,4) by (metis append_take_drop_id sorted_wrt_append)
qed

lemma top_domains_sorted:
  "sorted_wrt (\<lambda>x y. snd y \<le> (snd x :: nat)) (sort_key (\<lambda>(_, n). - int n) xs)"
  using sorted_sort_key [of "\<lambda>(_, n). - int n" xs]
  by (simp add: sorted_map split_def)

text \<open>
  The aggregated report counts every connection of every fast path once: the application counts
  add up to the number of active connections, which is the number of entries of all registered tables;
  the domain list holds at most 20 different non-empty domains, each with the number of connections whose
  best domain it is, in decreasing order; and a domain that some connection has is left out only when
  20 domains with at least as many connections are listed.
\<close>

theorem getGlobalStats_spec:
  "let gs = getGlobalStats trackers;
       count = (\<lambda>d. length (filter (\<lambda>c. bestDomain c = d) (connections_of trackers)));
       top = gs_top_domains gs
   in gs_total_active_connections gs = length (connections_of trackers) \<and>
      (\<Sum>a \<in> set (map c_app_type (connections_of trackers)). gs_app_distribution gs a) = gs_total_active_connections gs \<and>
      length top \<le> 20 \<and> distinct (map fst top) \<and> sorted_wrt (\<ge>) (map snd top) \<and>
      list_all (\<lambda>(d, n). d \<noteq> [] \<and> n = count d \<and> n > 0) top \<and>
      (\<forall>d. d = [] \<or> count d = 0 \<or> d \<in> set (map fst top) \<or>
           length top = 20 \<and> list_all (\<lambda>(_, n). count d \<le> n) top)"
proof -
  let ?conns = "connections_of trackers"
  define domains where "domains = filter (\<lambda>d. d \<noteq> []) (map bestDomain ?conns)"
  define vec where "vec = sort_key (\<lambda>(_, n). - int n) (map (\<lambda>d. (d, count_list domains d)) (remdups domains))"
  define count where "count d = length (filter (\<lambda>c. bestDomain c = d) ?conns)" for d
  define top where "top = gs_top_domains (getGlobalStats trackers)"
  have top: "top = take 20 vec"
    unfolding top_def getGlobalStats_def connections_of_def [symmetric] domains_def [symmetric] vec_def [symmetric] Let_def
    by (simp add: min_def)
  have active: "gs_total_active_connections (getGlobalStats trackers) = length ?conns"
    by (simp add: getGlobalStats_def connections_of_def Let_def tracker_stats_def getAllConnections_def
        length_concat comp_def)
  have app: "(\<Sum>a \<in> set (map c_app_type ?conns). gs_app_distribution (getGlobalStats trackers) a) = length ?conns"
    using sum_count_list [of "map c_app_type ?conns" "set (map c_app_type ?conns)"]
    by (simp add: getGlobalStats_def connections_of_def Let_def)
  have cnt: "count_list domains d = count d" if "d \<noteq> []" for d
    using that nonempty_counts(1) unfolding domains_def count_def by blast
  have vec: "set vec = {(d, count d) | d. d \<noteq> [] \<and> count d > 0}"
  proof -
    have "d \<in> set domains \<longleftrightarrow> d \<noteq> [] \<and> count d > 0" for d
      unfolding domains_def count_def by (rule nonempty_counts(2))
    then show ?thesis by (auto simp: vec_def cnt image_iff)
  qed
  have dist: "distinct (map fst vec)"
    unfolding vec_def by (simp add: distinct_map inj_on_def)
  have srt: "sorted_wrt (\<lambda>x y. snd y \<le> snd x) vec" unfolding vec_def by (rule top_domains_sorted)
  have left_out: "length top = 20 \<and> list_all (\<lambda>(_, n). count d \<le> n) top"
    if "d \<noteq> []" "count d \<noteq> 0" "d \<notin> set (map fst top)" for d
  proof -
    have d: "(d, count d) \<in> set vec" "(d, count d) \<notin> set (take 20 vec)"
      using that top by (auto simp: vec image_iff)
    then have "20 < length vec" by (metis not_less take_all)
    then show ?thesis
      using sorted_take_rest [OF srt d] by (fastforce simp: top list_all_iff)
  qed
  have all: "\<forall>d. d = [] \<or> count d = 0 \<or> d \<in> set (map fst top) \<or>
      length top = 20 \<and> list_all (\<lambda>(_, n). count d \<le> n) top"
    using left_out by blast
  have "distinct (map fst top)" unfolding top using dist by (simp flip: take_map)
  moreover have "sorted_wrt (\<ge>) (map snd top)"
    unfolding top using srt by (simp add: sorted_wrt_map sorted_wrt_take)
  moreover have "list_all (\<lambda>(d, n). d \<noteq> [] \<and> n = count d \<and> n > 0) top"
    using vec by (auto simp: top list_all_iff dest!: in_set_takeD)
  moreover have "length top \<le> 20" by (simp add: top)
  ultimately show ?thesis
    unfolding Let_def count_def [symmetric] top_def [symmetric] active
    using app all by (intro conjI) simp_all
qed

end
