(* ===== verification/Queue.thy ===== *)
theory Queue
  imports Dpi_Prelude
begin

text \<open>
  \<open>ThreadSafeQueue\<close> of \<open>include/thread_safe_queue.h\<close>. Every operation holds the mutex, so an
  execution of several threads is a sequence of atomic steps; a call that waits on a condition
  variable takes its step in the state in which the wait ends. The time measurements go to the
  profiler and are left out.
\<close>

section \<open>The contract of a channel between two stages\<close>

locale fifo_channel =
  fixes contents :: "'q \<Rightarrow> 'a list" and put :: "'a \<Rightarrow> 'q \<Rightarrow> bool \<times> 'q" and get :: "'q \<Rightarrow> 'a option \<times> 'q"
  assumes put_last: "contents (snd (put x q)) = contents q @ (if fst (put x q) then [x] else [])"
    and get_first: "contents q = (case fst (get q) of None \<Rightarrow> [] | Some x \<Rightarrow> [x]) @ contents (snd (get q))"
    and get_none: "fst (get q) = None \<longleftrightarrow> contents q = []"
begin

primrec put_all :: "'a list \<Rightarrow> 'q \<Rightarrow> 'a list \<times> 'q" where
  "put_all [] q = ([], q)"
| "put_all (x # xs) q =
     (let (ok, q') = put x q; (sent, q'') = put_all xs q' in (if ok then x # sent else sent, q''))"

primrec take_all :: "nat \<Rightarrow> 'q \<Rightarrow> 'a list \<times> 'q" where
  "take_all 0 q = ([], q)"
| "take_all (Suc n) q =
     (case get q of (None, q') \<Rightarrow> ([], q')
      | (Some x, q') \<Rightarrow> let (xs, q'') = take_all n q' in (x # xs, q''))"

lemma get_cases:
  obtains q' where "get q = (None, q')" "contents q = []" "contents q' = []"
  | x q' where "get q = (Some x, q')" "contents q = x # contents q'"
  using get_first [of q] get_none [of q] by (cases "get q"; cases "fst (get q)") auto

lemma contents_put_all: "contents (snd (put_all xs q)) = contents q @ fst (put_all xs q)"
proof (induction xs arbitrary: q)
  case (Cons x xs)
  then show ?case using put_last [of x q] by (auto simp: Let_def split_def)
qed simp

lemma take_all_contents: "contents q = fst (take_all n q) @ contents (snd (take_all n q))"
proof (induction n arbitrary: q)
  case (Suc n)
  show ?case
  proof (cases q rule: get_cases)
    case (2 x q')
    then show ?thesis using Suc [of q'] by (auto simp: Let_def split_def)
  qed auto
qed simp

lemma length_take_all: "length (fst (take_all n q)) = min n (length (contents q))"
proof (induction n arbitrary: q)
  case (Suc n)
  show ?case
  proof (cases q rule: get_cases)
    case (2 x q')
    then show ?thesis using Suc [of q'] by (auto simp: Let_def split_def)
  qed auto
qed simp

lemma drained:
  assumes "length (contents q) \<le> n"
  shows "fst (take_all n q) = contents q" and "contents (snd (take_all n q)) = []"
proof -
  have "length (fst (take_all n q)) = length (contents q)" using assms length_take_all [of n q] by simp
  then show "contents (snd (take_all n q)) = []"
    using arg_cong [OF take_all_contents [of q n], of length] by simp
  then show "fst (take_all n q) = contents q"
    using take_all_contents [of q n] by simp
qed

lemma sent_is_received:
  assumes "contents q = []" and "length xs \<le> n"
  shows "fst (take_all n (snd (put_all xs q))) = fst (put_all xs q)"
proof -
  have "length (fst (put_all xs q)) \<le> length xs"
    by (induction xs arbitrary: q) (auto simp: Let_def split_def intro: le_SucI)
  then show ?thesis
    using contents_put_all [of xs q] assms drained(1) [of "snd (put_all xs q)" n] by simp
qed

end

section \<open>The queue\<close>

record 'a tsq =
  tq_items :: "'a list"
  tq_max_size :: nat
  tq_shutdown :: bool

definition new_queue :: "nat \<Rightarrow> 'a tsq" where
  "new_queue max_size = \<lparr>tq_items = [], tq_max_size = max_size, tq_shutdown = False\<rparr>"

text \<open>\<open>None\<close>: in this state the call waits for \<open>not_full_\<close>. A call after the shutdown drops the item.\<close>

definition tsq_push :: "'a \<Rightarrow> 'a tsq \<Rightarrow> (bool \<times> 'a tsq) option" where
  "tsq_push item q =
     (if length (tq_items q) \<ge> tq_max_size q \<and> \<not> tq_shutdown q then None
      else if tq_shutdown q then Some (False, q)
      else Some (True, q\<lparr>tq_items := tq_items q @ [item]\<rparr>))"

definition tsq_tryPush :: "'a \<Rightarrow> 'a tsq \<Rightarrow> bool \<times> 'a tsq" where
  "tsq_tryPush item q =
     (if length (tq_items q) \<ge> tq_max_size q \<or> tq_shutdown q then (False, q)
      else (True, q\<lparr>tq_items := tq_items q @ [item]\<rparr>))"

definition take_front :: "'a tsq \<Rightarrow> 'a option \<times> 'a tsq" where
  "take_front q =
     (case tq_items q of [] \<Rightarrow> (None, q) | item # rest \<Rightarrow> (Some item, q\<lparr>tq_items := rest\<rparr>))"

definition tsq_pop :: "'a tsq \<Rightarrow> ('a option \<times> 'a tsq) option" where
  "tsq_pop q = (if tq_items q = [] \<and> \<not> tq_shutdown q then None else Some (take_front q))"

text \<open>The state is the one in which an item has arrived, the queue is shut down, or the time is over.\<close>

definition tsq_popWithTimeout :: "'a tsq \<Rightarrow> 'a option \<times> 'a tsq" where
  "tsq_popWithTimeout q = take_front q"

definition tsq_empty :: "'a tsq \<Rightarrow> bool" where
  "tsq_empty q \<longleftrightarrow> tq_items q = []"

definition tsq_size :: "'a tsq \<Rightarrow> nat" where
  "tsq_size q = length (tq_items q)"

definition tsq_shutdown :: "'a tsq \<Rightarrow> 'a tsq" where
  "tsq_shutdown q = q\<lparr>tq_shutdown := True\<rparr>"

definition tsq_isShutdown :: "'a tsq \<Rightarrow> bool" where
  "tsq_isShutdown q = tq_shutdown q"

interpretation tsq: fifo_channel tq_items tsq_tryPush tsq_popWithTimeout
  by unfold_locales
    (auto simp: tsq_tryPush_def tsq_popWithTimeout_def take_front_def split: list.splits)

section \<open>Executions\<close>

datatype 'a q_event = Push 'a | TryPush 'a bool | Pop "'a option" | PopTimeout "'a option" | Shutdown

inductive q_step :: "'a tsq \<Rightarrow> 'a q_event \<Rightarrow> 'a tsq \<Rightarrow> bool" where
  step_push: "tsq_push x q = Some (ok, q') \<Longrightarrow> q_step q (Push x) q'"
| step_tryPush: "tsq_tryPush x q = (ok, q') \<Longrightarrow> q_step q (TryPush x ok) q'"
| step_pop: "tsq_pop q = Some (r, q') \<Longrightarrow> q_step q (Pop r) q'"
| step_popTimeout: "tsq_popWithTimeout q = (r, q') \<Longrightarrow> q_step q (PopTimeout r) q'"
| step_shutdown: "q_step q Shutdown (tsq_shutdown q)"

inductive_cases q_stepE: "q_step q e q'"

inductive q_run :: "'a tsq \<Rightarrow> 'a q_event list \<Rightarrow> 'a tsq \<Rightarrow> bool" where
  run_nil: "q_run q [] q"
| run_snoc: "q_run q es q' \<Longrightarrow> q_step q' e q'' \<Longrightarrow> q_run q (es @ [e]) q''"

text \<open>What the producers handed over before the shutdown, and what the consumers got.\<close>

fun accepted :: "'a q_event list \<Rightarrow> 'a list" where
  "accepted [] = []"
| "accepted (Push x # es) = x # accepted es"
| "accepted (TryPush x ok # es) = (if ok then x # accepted es else accepted es)"
| "accepted (Shutdown # es) = []"
| "accepted (_ # es) = accepted es"

fun received :: "'a q_event list \<Rightarrow> 'a list" where
  "received [] = []"
| "received (Pop (Some x) # es) = x # received es"
| "received (PopTimeout (Some x) # es) = x # received es"
| "received (_ # es) = received es"

lemma accepted_snoc:
  "accepted (es @ [e]) = accepted es @ (if Shutdown \<in> set es then [] else accepted [e])"
  by (induction es rule: accepted.induct) auto

lemma received_snoc: "received (es @ [e]) = received es @ received [e]"
  by (induction es rule: received.induct) auto

text \<open>
  C27. The queue between two pipeline stages, under any interleaving of any number of producers and
  consumers: what has been received, followed by what is still queued, is exactly what was handed over
  before the shutdown, in this order and each item once; the capacity is never exceeded; and the queue
  refuses items exactly after a shutdown.
\<close>

theorem queue_fifo:
  assumes "q_run (new_queue n) es q"
  shows "accepted es = received es @ tq_items q \<and> tsq_size q \<le> n \<and> tsq_isShutdown q = (Shutdown \<in> set es)"
proof -
  have "accepted es = received es @ tq_items q \<and> length (tq_items q) \<le> n \<and> tq_max_size q = n \<and>
      tq_shutdown q = (Shutdown \<in> set es)"
    using assms
  proof (induction "new_queue n :: 'a tsq" es q)
    case run_nil
    then show ?case by (simp add: new_queue_def)
  next
    case (run_snoc es q' e q'')
    from run_snoc(3) show ?case
      using run_snoc(2)
      by (elim q_stepE) (auto simp: accepted_snoc received_snoc tsq_push_def tsq_tryPush_def tsq_pop_def
          tsq_popWithTimeout_def take_front_def tsq_shutdown_def split: if_splits list.splits)
  qed
  then show ?thesis by (simp add: tsq_size_def tsq_isShutdown_def)
qed

text \<open>
  A queue of capacity one: the second producer cannot go on until the consumer has taken the first item;
  an item offered after the shutdown is lost, the item already queued is still delivered.
\<close>

theorem queue_fifo_witness:
  "\<exists>es q. q_run (new_queue 1) es q \<and>
     es = [Push (1 :: nat), TryPush 2 False, Pop (Some 1), Push 3, Shutdown, Push 4, PopTimeout (Some 3)] \<and>
     accepted es = [1, 3] \<and> tq_items q = []"
proof -
  let ?es = "[Push (1 :: nat), TryPush 2 False, Pop (Some 1), Push 3, Shutdown, Push 4, PopTimeout (Some 3)]"
  define st where "st xs s = \<lparr>tq_items = xs, tq_max_size = 1, tq_shutdown = s\<rparr>" for xs :: "nat list" and s
  note ops = tsq_push_def tsq_tryPush_def tsq_pop_def tsq_popWithTimeout_def take_front_def st_def
  have "q_step (st [] False) (Push 1) (st [1] False)" "q_step (st [1] False) (TryPush 2 False) (st [1] False)"
    "q_step (st [1] False) (Pop (Some 1)) (st [] False)" "q_step (st [] False) (Push 3) (st [3] False)"
    "q_step (st [3] True) (Push 4) (st [3] True)" "q_step (st [3] True) (PopTimeout (Some 3)) (st [] True)"
    by (auto simp: ops intro!: q_step.intros)
  moreover have "q_step (st [3] False) Shutdown (st [3] True)"
    using step_shutdown [of "st [3] False"] by (simp add: tsq_shutdown_def st_def)
  ultimately have "q_run (st [] False) ([] @ [Push 1] @ [TryPush 2 False] @ [Pop (Some 1)] @ [Push 3] @ [Shutdown]
      @ [Push 4] @ [PopTimeout (Some 3)]) (st [] True)"
    unfolding append.assoc [symmetric] by (blast intro: q_run.intros)
  then have run: "q_run (new_queue 1) ?es (st [] True)" by (simp add: new_queue_def st_def)
  then show ?thesis using queue_fifo [OF run] by (auto simp: st_def)
qed

end
