(* ===== verification/Fast_Path.thy ===== *)
theory Fast_Path
  imports Packet_Parser Rules Tracker Queue
begin

text \<open>
  A fast path: \<open>PacketJob\<close> (\<open>include/types.h\<close>), \<open>FastPathProcessor\<close> and \<open>FPManager\<close>
  (\<open>include/fast_path.h\<close>, \<open>src/fast_path.cpp\<close>). The output callback is the list of its invocations,
  newest last; \<open>steady_clock::now()\<close> is read once per packet; the counters are unbounded.
\<close>

section \<open>State\<close>

record PacketJob =
  pj_packet_id :: u32
  pj_tuple :: FiveTuple
  pj_flow_key :: FlowKey
  pj_has_flow_key :: bool
  pj_tcp_seq_number :: u32
  pj_data :: bytes
  pj_eth_offset :: nat
  pj_ip_offset :: nat
  pj_transport_offset :: nat
  pj_payload_offset :: nat
  pj_payload_length :: nat
  pj_tcp_flags :: u8
  pj_ts_sec :: u32
  pj_ts_usec :: u32

text \<open>The bytes that can be read from the returned pointer; \<open>None\<close> is the null pointer.\<close>

definition getPayload :: "PacketJob \<Rightarrow> bytes option" where
  "getPayload job =
     (if pj_payload_length job = 0 \<or> pj_payload_offset job \<ge> length (pj_data job) then None
      else Some (drop (pj_payload_offset job) (pj_data job)))"

record FPStats =
  total_processed :: nat
  total_forwarded :: nat
  total_dropped :: nat
  total_connections :: nat

record FastPath =
  fp_id :: int
  fp_input_queue :: "PacketJob tsq"
  fp_connection_tracker :: ConnectionTracker
  fp_running :: bool
  fp_stats :: FPStats
  fp_output :: "(PacketJob \<times> PacketAction) list"

definition new_fast_path :: "int \<Rightarrow> FastPath" where
  "new_fast_path i =
     \<lparr>fp_id = i, fp_input_queue = new_queue 10000, fp_connection_tracker = new_tracker i 100000,
      fp_running = False,
      fp_stats = \<lparr>total_processed = 0, total_forwarded = 0, total_dropped = 0, total_connections = 0\<rparr>,
      fp_output = []\<rparr>"

definition fp_start :: "FastPath \<Rightarrow> FastPath" where
  "fp_start fp = fp\<lparr>fp_running := True\<rparr>"

text \<open>\<open>stop\<close> up to the join of the thread.\<close>

definition fp_stop :: "FastPath \<Rightarrow> FastPath" where
  "fp_stop fp =
     (if \<not> fp_running fp then fp
      else fp\<lparr>fp_running := False, fp_input_queue := tsq_shutdown (fp_input_queue fp)\<rparr>)"

section \<open>Processing a packet\<close>

text \<open>A read through a \<open>Connection*\<close>.\<close>

definition conn_at :: "ConnectionTracker \<Rightarrow> FlowKey \<Rightarrow> Connection res" where
  "conn_at ct key = (case getConnection ct key of None \<Rightarrow> Inl DanglingPointer | Some c \<Rightarrow> Inr c)"

definition updateTCPState :: "FlowKey \<Rightarrow> u8 \<Rightarrow> ConnectionTracker \<Rightarrow> ConnectionTracker" where
  "updateTCPState key flags ct =
     (if flags AND SYN \<noteq> 0 then
        on_connection key (\<lambda>c.
          if flags AND ACK \<noteq> 0 then
            (let c = c\<lparr>c_syn_ack_seen := True\<rparr>
             in if c_syn_seen c then c\<lparr>c_state := ESTABLISHED\<rparr> else c)
          else c\<lparr>c_syn_seen := True\<rparr>) ct
      else if flags AND FIN \<noteq> 0 then on_connection key (\<lambda>c. c\<lparr>c_fin_seen := True\<rparr>) ct
      else if flags AND RST \<noteq> 0 then closeConnection key ct
      else ct)"

text \<open>The UDP and TCP branches of \<open>inspectPayload\<close>; the flag is \<open>classification_updated\<close>.\<close>

definition inspect_udp ::
  "FlowKey \<Rightarrow> Connection \<Rightarrow> bytes \<Rightarrow> nat \<Rightarrow> ConnectionTracker \<Rightarrow> (bool \<times> ConnectionTracker) res" where
  "inspect_udp key conn payload len ct =
     (if fk_src_port (c_flow_key conn) = 53 \<or> fk_dst_port (c_flow_key conn) = 53 then
        rbind (extractQuery payload len) (\<lambda>result. case result of
            None \<Rightarrow> Inr (False, ct)
          | Some r \<Rightarrow> Inr (True, classifyConnection key DNS [] [] (dns_query_domain r) ct))
      else
        rbind (isQUICInitial payload len) (\<lambda>initial.
          if \<not> initial then Inr (False, ct) else
          rbind (QUICSNIExtractor_extract payload len) (\<lambda>result. case result of
              Some sni \<Rightarrow> Inr (True, classifyConnection key (sniToAppType sni) sni [] [] ct)
            | None \<Rightarrow> Inr (True, classifyConnection key QUIC [] [] [] ct))))"

definition inspect_tcp_client ::
  "nat \<Rightarrow> u32 \<Rightarrow> FlowKey \<Rightarrow> Connection \<Rightarrow> bytes \<Rightarrow> nat \<Rightarrow> ConnectionTracker \<Rightarrow>
     (bool \<times> ConnectionTracker) res" where
  "inspect_tcp_client now seq key conn payload len ct =
     rbind (if fk_src_port (c_flow_key conn) = 80 \<or> fk_dst_port (c_flow_key conn) = 80 then Inr True
            else isHTTPRequest payload len) (\<lambda>http.
       if http then
         rbind (HTTPHostExtractor_extract payload len) (\<lambda>host. case host of
             Some http_host \<Rightarrow>
               Inr (True, classifyConnection key (sniToAppType http_host) [] http_host [] ct)
           | None \<Rightarrow> Inr (True, classifyConnection key HTTP [] [] [] ct))
       else
         rbind (tryExtractSNI default_config now seq payload len (c_reassembler_client conn))
           (\<lambda>(result, reassembler).
             let ct = on_connection key (\<lambda>c. c\<lparr>c_reassembler_client := reassembler\<rparr>) ct in
             case result of
               Some sni \<Rightarrow>
                 Inr (True,
                   on_connection key (\<lambda>c. c\<lparr>c_reassembler_client := ra_clear (c_reassembler_client c)\<rparr>)
                     (classifyConnection key (sniToAppType sni) sni [] [] ct))
             | None \<Rightarrow> Inr (False, ct)))"

definition inspectPayload ::
  "nat \<Rightarrow> FlowKey \<Rightarrow> PacketJob \<Rightarrow> bool \<Rightarrow> ConnectionTracker \<Rightarrow> ConnectionTracker res" where
  "inspectPayload now key job is_client ct =
     (case getPayload job of
        None \<Rightarrow> Inr ct
      | Some payload \<Rightarrow>
          rbind (conn_at ct key) (\<lambda>conn.
          let len = pj_payload_length job; protocol = fk_protocol (c_flow_key conn) in
          rbind (if protocol = 17 then inspect_udp key conn payload len ct
                 else if protocol = 6 \<and> is_client then
                   inspect_tcp_client now (pj_tcp_seq_number job) key conn payload len ct
                 else Inr (False, ct))
            (\<lambda>(classification_updated, ct).
              rbind (conn_at ct key) (\<lambda>conn.
                Inr (if \<not> classification_updated \<and> c_packets_in conn + c_packets_out conn > 10
                     then classifyConnection key UNKNOWN [] [] [] ct else ct)))))"

definition handleAction :: "PacketJob \<Rightarrow> PacketAction \<Rightarrow> FastPath \<Rightarrow> FastPath" where
  "handleAction job action fp =
     fp\<lparr>fp_stats :=
          (if action = DROP then fp_stats fp\<lparr>total_dropped := total_dropped (fp_stats fp) + 1\<rparr>
           else fp_stats fp\<lparr>total_forwarded := total_forwarded (fp_stats fp) + 1\<rparr>),
        fp_output := fp_output fp @ [(job, action)]\<rparr>"

text \<open>
  The part of \<open>processPacket\<close> that works on the table: the action and the new table. A job without
  flow key is looked up through a pointer to a key whose lifetime has ended.
\<close>

definition track_packet :: "nat \<Rightarrow> PacketJob \<Rightarrow> ConnectionTracker \<Rightarrow> (bool \<times> ConnectionTracker) res" where
  "track_packet now job ct =
     (if \<not> pj_has_flow_key job then Inl DanglingPointer else
      let key = pj_flow_key job in
      rbind (getOrCreateConnection now key ct) (\<lambda>ct.
      rbind (conn_at ct key) (\<lambda>conn.
        let is_client = (if c_original_is_canonical conn then fk_canonical key = key
                         else fk_canonical key \<noteq> key);
            ct = updateConnection now key (length (pj_data job)) is_client ct
        in Inr (is_client,
                if ft_protocol (pj_tuple job) = 6 then updateTCPState key (pj_tcp_flags job) ct else ct))))"

definition ip_rule_applies :: "RuleManager \<Rightarrow> Connection \<Rightarrow> bool res" where
  "ip_rule_applies rm conn =
     rbind (get_ipv4 (fk_src_addr (c_flow_key conn))) (\<lambda>src.
       if isIPBlocked rm src then Inr True
       else rbind (get_ipv4 (fk_dst_addr (c_flow_key conn))) (\<lambda>dst. Inr (isIPBlocked rm dst)))"

definition class_rule_applies :: "RuleManager \<Rightarrow> Connection \<Rightarrow> bool" where
  "class_rule_applies rm conn \<longleftrightarrow>
     isAppBlocked rm (c_app_type conn) \<or>
     (bestDomain conn \<noteq> [] \<and> isDomainBlocked rm (bestDomain conn))"

definition decide_packet ::
  "nat \<Rightarrow> RuleManager \<Rightarrow> PacketJob \<Rightarrow> bool \<Rightarrow> ConnectionTracker \<Rightarrow> (PacketAction \<times> ConnectionTracker) res" where
  "decide_packet now rm job is_client ct =
     (let key = pj_flow_key job in
      rbind (conn_at ct key) (\<lambda>conn.
      if c_state conn = BLOCKED then Inr (DROP, ct) else
      rbind (ip_rule_applies rm conn) (\<lambda>ip_blocked.
      if ip_blocked then Inr (DROP, blockConnection key ct) else
      rbind (if c_state conn = NEW \<or> c_state conn = ESTABLISHED
             then inspectPayload now key job is_client ct else Inr ct) (\<lambda>ct.
      rbind (conn_at ct key) (\<lambda>conn.
      if c_state conn = CLASSIFIED \<and> class_rule_applies rm conn
      then Inr (DROP, blockConnection key ct) else Inr (FORWARD, ct))))))"

definition processPacket :: "nat \<Rightarrow> RuleManager \<Rightarrow> PacketJob \<Rightarrow> FastPath \<Rightarrow> FastPath res" where
  "processPacket now rm job fp =
     (let fp = fp\<lparr>fp_stats := fp_stats fp\<lparr>total_processed := total_processed (fp_stats fp) + 1\<rparr>\<rparr> in
      rbind (track_packet now job (fp_connection_tracker fp)) (\<lambda>(is_client, ct).
      rbind (decide_packet now rm job is_client ct) (\<lambda>(action, ct).
        Inr (handleAction job action (fp\<lparr>fp_connection_tracker := ct\<rparr>)))))"

section \<open>The thread\<close>

text \<open>One round of \<open>run\<close>: whether the loop goes on, the new state, and the time of the last clean-up.\<close>

definition fp_round :: "nat \<Rightarrow> RuleManager \<Rightarrow> FastPath \<times> nat \<Rightarrow> (bool \<times> FastPath \<times> nat) res" where
  "fp_round now rm = (\<lambda>(fp, last_cleanup).
     let (job_opt, q) = tsq_popWithTimeout (fp_input_queue fp);
         fp = fp\<lparr>fp_input_queue := q\<rparr>;
         cleanup = (\<lambda>fp.
           if int now - int last_cleanup > 10 * 10 ^ 9 then
             (fp\<lparr>fp_connection_tracker := snd (cleanupStale now 300 (fp_connection_tracker fp))\<rparr>, now)
           else (fp, last_cleanup))
     in case job_opt of
          Some job \<Rightarrow> rbind (processPacket now rm job fp) (\<lambda>fp. Inr (True, cleanup fp))
        | None \<Rightarrow>
            if \<not> fp_running fp \<and> tsq_empty (fp_input_queue fp) then Inr (False, fp, last_cleanup)
            else Inr (True, cleanup fp))"

text \<open>The loop, for a clock that reads \<open>clock i\<close> in round \<open>i\<close>; it does not end while the thread runs.\<close>

partial_function (option) fp_run ::
  "(nat \<Rightarrow> nat) \<Rightarrow> nat \<Rightarrow> RuleManager \<Rightarrow> FastPath \<times> nat \<Rightarrow> FastPath res option" where
  "fp_run clock i rm st =
     (case fp_round (clock i) rm st of
        Inl e \<Rightarrow> Some (Inl e)
      | Inr (go_on, st') \<Rightarrow> if go_on then fp_run clock (i + 1) rm st' else Some (Inr (fst st')))"

definition fp_getStats :: "FastPath \<Rightarrow> FPStats" where
  "fp_getStats fp = fp_stats fp\<lparr>total_connections := getActiveCount (fp_connection_tracker fp)\<rparr>"

definition int_text :: "int \<Rightarrow> string" where
  "int_text i = (if i < 0 then ''-'' else []) @ to_string (nat \<bar>i\<bar>)"

definition fp_report :: "FastPath \<Rightarrow> string" where
  "fp_report fp =
     (let stats = tracker_stats (fp_connection_tracker fp) in
      ''FP'' @ int_text (fp_id fp) @ '' Report:'' @ [newline] @
      ''  Active: '' @ to_string (ts_active_connections stats) @ [newline] @
      ''  Total:  '' @ to_string (ts_total_connections_seen stats) @ [newline] @
      ''  Classified: '' @ to_string (ts_classified_connections stats) @ [newline] @
      ''  Blocked: '' @ to_string (ts_blocked_connections stats) @ [newline])"

section \<open>The manager\<close>

definition new_fp_manager :: "int \<Rightarrow> FastPath list" where
  "new_fp_manager num_fps = map new_fast_path [0..num_fps - 1]"

definition fpm_startAll :: "FastPath list \<Rightarrow> FastPath list" where
  "fpm_startAll = map fp_start"

definition fpm_stopAll :: "FastPath list \<Rightarrow> FastPath list" where
  "fpm_stopAll = map fp_stop"

definition getAggregatedStats :: "FastPath list \<Rightarrow> FPStats" where
  "getAggregatedStats fps =
     foldl (\<lambda>stats fp. let s = fp_getStats fp in
        \<lparr>total_processed = total_processed stats + total_processed s,
         total_forwarded = total_forwarded stats + total_forwarded s,
         total_dropped = total_dropped stats + total_dropped s,
         total_connections = total_connections stats + total_connections s\<rparr>)
       \<lparr>total_processed = 0, total_forwarded = 0, total_dropped = 0, total_connections = 0\<rparr> fps"

definition fpm_report :: "FastPath list \<Rightarrow> string" where
  "fpm_report fps = concat (map fp_report fps)"

section \<open>What a packet does to its connection\<close>

definition count_fields :: "nat \<Rightarrow> nat \<Rightarrow> bool \<Rightarrow> Connection \<Rightarrow> Connection" where
  "count_fields now n is_client c =
     (if is_client then c\<lparr>c_last_seen := now, c_packets_in := c_packets_in c + 1, c_bytes_in := c_bytes_in c + of_nat n\<rparr>
      else c\<lparr>c_last_seen := now, c_packets_out := c_packets_out c + 1, c_bytes_out := c_bytes_out c + of_nat n\<rparr>)"

definition tcp_fields :: "u8 \<Rightarrow> Connection \<Rightarrow> Connection" where
  "tcp_fields flags c =
     (if flags AND SYN \<noteq> 0 then
        if flags AND ACK \<noteq> 0 then
          c\<lparr>c_syn_ack_seen := True, c_state := (if c_syn_seen c then ESTABLISHED else c_state c)\<rparr>
        else c\<lparr>c_syn_seen := True\<rparr>
      else if flags AND FIN \<noteq> 0 then c\<lparr>c_fin_seen := True\<rparr>
      else if flags AND RST \<noteq> 0 then c\<lparr>c_state := CLOSED\<rparr>
      else c)"

definition packet_fields :: "nat \<Rightarrow> PacketJob \<Rightarrow> bool \<Rightarrow> Connection \<Rightarrow> Connection" where
  "packet_fields now job is_client c =
     (if ft_protocol (pj_tuple job) = 6 then tcp_fields (pj_tcp_flags job) else id)
       (count_fields now (length (pj_data job)) is_client c)"

definition client_side :: "FlowKey \<Rightarrow> Connection \<Rightarrow> bool" where
  "client_side key c = (if c_original_is_canonical c then fk_canonical key = key else fk_canonical key \<noteq> key)"

text \<open>A segment that changes the state of a connection whatever it was: SYN with ACK after a SYN, or RST.\<close>

definition establishes :: "PacketJob \<Rightarrow> Connection \<Rightarrow> bool" where
  "establishes job c \<longleftrightarrow> ft_protocol (pj_tuple job) = 6 \<and> pj_tcp_flags job AND SYN \<noteq> 0 \<and>
     pj_tcp_flags job AND ACK \<noteq> 0 \<and> c_syn_seen c"

definition resets :: "PacketJob \<Rightarrow> bool" where
  "resets job \<longleftrightarrow> ft_protocol (pj_tuple job) = 6 \<and> pj_tcp_flags job AND SYN = 0 \<and>
     pj_tcp_flags job AND FIN = 0 \<and> pj_tcp_flags job AND RST \<noteq> 0"

lemma count_fields_simps [simp]:
  "c_state (count_fields now n b c) = c_state c" "c_syn_seen (count_fields now n b c) = c_syn_seen c"
  "c_flow_key (count_fields now n b c) = c_flow_key c" "c_app_type (count_fields now n b c) = c_app_type c"
  "c_sni (count_fields now n b c) = c_sni c" "c_http_host (count_fields now n b c) = c_http_host c"
  "c_dns_query (count_fields now n b c) = c_dns_query c"
  "c_original_is_canonical (count_fields now n b c) = c_original_is_canonical c"
  "c_reassembler_client (count_fields now n b c) = c_reassembler_client c"
  by (simp_all add: count_fields_def)

lemma packet_fields_simps [simp]:
  "c_flow_key (packet_fields now job b c) = c_flow_key c"
  "c_app_type (packet_fields now job b c) = c_app_type c"
  "c_sni (packet_fields now job b c) = c_sni c" "c_http_host (packet_fields now job b c) = c_http_host c"
  "c_dns_query (packet_fields now job b c) = c_dns_query c"
  "c_original_is_canonical (packet_fields now job b c) = c_original_is_canonical c"
  "c_reassembler_client (packet_fields now job b c) = c_reassembler_client c"
  "c_state (packet_fields now job b c) =
     (if establishes job c then ESTABLISHED else if resets job then CLOSED else c_state c)"
  by (auto simp: packet_fields_def tcp_fields_def establishes_def resets_def)

lemma on_connection_id: "on_connection key (\<lambda>c. c) ct = ct"
  by (simp add: on_connection_def)

lemma on_connection_comp: "on_connection key f (on_connection key g ct) = on_connection key (f \<circ> g) ct"
proof -
  have "map (\<lambda>(k, c). (k, if k = a then f c else c)) (map (\<lambda>(k, c). (k, if k = a then g c else c)) xs) =
      map (\<lambda>(k, c). (k, if k = a then f (g c) else c)) xs" for a and xs :: "(FlowKey \<times> Connection) list"
    by (induction xs) auto
  then show ?thesis by (simp add: on_connection_def comp_def)
qed

lemma updateConnection_fields: "updateConnection now key n b ct = on_connection key (count_fields now n b) ct"
  unfolding updateConnection_def by (rule arg_cong [where f = "\<lambda>f. on_connection key f ct"])
    (auto simp: count_fields_def Let_def)

lemma updateTCPState_fields: "updateTCPState key flags ct = on_connection key (tcp_fields flags) ct"
proof -
  have "(\<lambda>c. if flags AND ACK \<noteq> 0 then
            (let c = c\<lparr>c_syn_ack_seen := True\<rparr> in if c_syn_seen c then c\<lparr>c_state := ESTABLISHED\<rparr> else c)
          else c\<lparr>c_syn_seen := True\<rparr>) = tcp_fields flags" if "flags AND SYN \<noteq> 0"
    using that by (auto simp: tcp_fields_def Let_def)
  moreover have "tcp_fields flags = (if flags AND FIN \<noteq> 0 then (\<lambda>c. c\<lparr>c_fin_seen := True\<rparr>)
      else if flags AND RST \<noteq> 0 then (\<lambda>c. c\<lparr>c_state := CLOSED\<rparr>) else (\<lambda>c. c))" if "flags AND SYN = 0"
    using that by (auto simp: tcp_fields_def)
  ultimately show ?thesis
    by (auto simp: updateTCPState_def closeConnection_def on_connection_id)
qed

text \<open>The whole effect of \<open>track_packet\<close> once the entry exists.\<close>

lemma track_packet_entry:
  assumes "pj_has_flow_key job" and "getOrCreateConnection now (pj_flow_key job) ct = Inr ct0"
    and "getConnection ct0 (pj_flow_key job) = Some c0"
  shows "track_packet now job ct =
    Inr (client_side (pj_flow_key job) c0,
         on_connection (pj_flow_key job) (packet_fields now job (client_side (pj_flow_key job) c0)) ct0)"
  using assms
  by (simp add: track_packet_def conn_at_def Let_def updateConnection_fields updateTCPState_fields
      on_connection_comp packet_fields_def [abs_def] client_side_def comp_def id_def)

lemma conn_at_on_connection:
  "getConnection ct key = Some c \<Longrightarrow> conn_at (on_connection key f ct) key = Inr (f c)"
  by (simp add: conn_at_def tracker.find_upd_same)

text \<open>The entry a packet finds or creates.\<close>

definition entry_for :: "nat \<Rightarrow> FlowKey \<Rightarrow> ConnectionTracker \<Rightarrow> Connection \<Rightarrow> bool" where
  "entry_for now key ct c \<longleftrightarrow>
     (case getConnection ct key of Some c' \<Rightarrow> c = c' | None \<Rightarrow> new_connection now key = Inr c)"

lemma entry_exists:
  assumes "one_family key"
  obtains ct0 c0 where "getOrCreateConnection now key ct = Inr ct0" "getConnection ct0 key = Some c0"
    "entry_for now key ct c0"
proof (cases "getConnection ct key")
  case (Some c)
  then show ?thesis
    by (intro that [of ct c]) (simp_all add: getOrCreateConnection_def getConnection_def entry_for_def Let_def)
next
  case None
  obtain c where c: "new_connection now key = Inr c" using new_connection_returns [OF assms] by blast
  define ct1 where "ct1 = (if length (ct_connections ct) \<ge> ct_max_connections ct then evictOldest ct else ct)"
  have "getConnection ct1 key = None" using None by (simp add: ct1_def getConnection_evictOldest)
  then show ?thesis
    using None c
    by (intro that [of "ct1\<lparr>ct_connections := ct_connections ct1 @ [(fk_canonical key, c)],
          ct_total_seen := ct_total_seen ct1 + 1\<rparr>" c])
      (auto simp: getOrCreateConnection_def getConnection_def entry_for_def Let_def ct1_def map_add_def
        split: option.splits)
qed

lemma new_connection_fields:
  assumes "new_connection now key = Inr c"
  shows "c_state c = NEW" "c_app_type c = UNKNOWN" "c_sni c = []" "c_http_host c = []" "c_dns_query c = []"
    "c_reassembler_client c = new_reassembler now" "c_original_is_canonical c = (key = fk_canonical key)"
    "c_flow_key c = fk_canonical key" "c_syn_seen c = False" "c_packets_in c = 0" "c_packets_out c = 0"
  using assms by (auto simp: new_connection_def Let_def rbind_Inr_iff split: if_splits)

lemma wf_flow_key: "wf_tracker ct \<Longrightarrow> getConnection ct key = Some c \<Longrightarrow> c_flow_key c = fk_canonical key"
  by (auto simp: wf_tracker_def getConnection_def dest!: map_of_SomeD)

lemma entry_flow_key:
  "wf_tracker ct \<Longrightarrow> entry_for now key ct c \<Longrightarrow> c_flow_key c = fk_canonical key"
  by (auto simp: entry_for_def wf_flow_key new_connection_fields split: option.splits)

lemma processPacket_Inr:
  "processPacket now rm job fp = Inr fp' \<longleftrightarrow>
     (\<exists>b ct action ct'. track_packet now job (fp_connection_tracker fp) = Inr (b, ct) \<and>
        decide_packet now rm job b ct = Inr (action, ct') \<and>
        fp' = handleAction job action
          (fp\<lparr>fp_stats := fp_stats fp\<lparr>total_processed := total_processed (fp_stats fp) + 1\<rparr>,
             fp_connection_tracker := ct'\<rparr>))"
  by (fastforce simp: processPacket_def Let_def rbind_Inr_iff)

lemma decide_packet_action: "decide_packet now rm job b ct = Inr (action, ct') \<Longrightarrow> action = FORWARD \<or> action = DROP"
  by (auto simp: decide_packet_def Let_def rbind_Inr_iff split: if_splits)

section \<open>Blocked flows\<close>

lemma decide_blocked:
  assumes "getConnection ct (pj_flow_key job) = Some c" and "c_state c = BLOCKED"
  shows "decide_packet now rm job b ct = Inr (DROP, ct)"
  using assms by (simp add: decide_packet_def conn_at_def Let_def)

lemma decide_ip_blocked:
  assumes "getConnection ct (pj_flow_key job) = Some c" and "c_state c \<noteq> BLOCKED"
    and "ip_rule_applies rm c = Inr True"
  shows "decide_packet now rm job b ct = Inr (DROP, blockConnection (pj_flow_key job) ct)"
  using assms by (simp add: decide_packet_def conn_at_def Let_def)

lemma decide_closed:
  assumes "getConnection ct (pj_flow_key job) = Some c" and "c_state c = CLOSED"
    and "ip_rule_applies rm c = Inr False"
  shows "decide_packet now rm job b ct = Inr (FORWARD, ct)"
  using assms by (simp add: decide_packet_def conn_at_def Let_def)

lemma blockConnection_get:
  "getConnection (blockConnection key ct) key = map_option (\<lambda>c. c\<lparr>c_state := BLOCKED, c_action := DROP\<rparr>) (getConnection ct key)"
  using tracker.find_upd_same [of key "\<lambda>c. c\<lparr>c_state := BLOCKED, c_action := DROP\<rparr>" ct]
  by (simp add: blockConnection_def getConnection_def)

text \<open>Of a key with two IPv4 addresses, the canonical key has the same two addresses.\<close>

definition ipv4_key :: "FlowKey \<Rightarrow> u32 \<Rightarrow> u32 \<Rightarrow> bool" where
  "ipv4_key key src dst \<longleftrightarrow> fk_src_addr key = IPv4Addr src \<and> fk_dst_addr key = IPv4Addr dst"

lemma ipv4_one_family: "ipv4_key key src dst \<Longrightarrow> one_family key"
  by (simp add: ipv4_key_def one_family_def)

lemma ip_rule_applies_ipv4:
  assumes "ipv4_key key src dst" and "c_flow_key c = fk_canonical key"
  shows "ip_rule_applies rm c = Inr (isIPBlocked rm src \<or> isIPBlocked rm dst)"
  using assms flow_key.canon_cases [of key]
  by (auto simp: ip_rule_applies_def ipv4_key_def fk_reverse_def)

lemma ip_rule_applies_ipv6:
  assumes "fk_src_addr key = IPv6Addr s" and "fk_dst_addr key = IPv6Addr d" and "c_flow_key c = fk_canonical key"
  shows "ip_rule_applies rm c = Inl BadVariantAccess"
  using assms flow_key.canon_cases [of key]
  by (auto simp: ip_rule_applies_def fk_reverse_def)

lemma handleAction_simps [simp]:
  "fp_output (handleAction job a fp) = fp_output fp @ [(job, a)]"
  "fp_connection_tracker (handleAction job a fp) = fp_connection_tracker fp"
  "fp_input_queue (handleAction job a fp) = fp_input_queue fp"
  "fp_running (handleAction job a fp) = fp_running fp"
  "total_processed (fp_stats (handleAction job a fp)) = total_processed (fp_stats fp)"
  "total_forwarded (fp_stats (handleAction job a fp)) =
     total_forwarded (fp_stats fp) + (if a = DROP then 0 else 1)"
  "total_dropped (fp_stats (handleAction job a fp)) = total_dropped (fp_stats fp) + (if a = DROP then 1 else 0)"
  by (simp_all add: handleAction_def)

text \<open>The result of a call on a packet whose flow has the entry \<open>c\<close>.\<close>

definition acted ::
  "FastPath res \<Rightarrow> FastPath \<Rightarrow> PacketJob \<Rightarrow> PacketAction \<Rightarrow> (Connection \<Rightarrow> bool) \<Rightarrow> bool" where
  "acted r fp job action P \<longleftrightarrow>
     (\<exists>fp' c. r = Inr fp' \<and> fp_output fp' = fp_output fp @ [(job, action)] \<and>
        getConnection (fp_connection_tracker fp') (pj_flow_key job) = Some c \<and> P c)"

lemma processPacket_acted:
  assumes "pj_has_flow_key job"
    and "getOrCreateConnection now (pj_flow_key job) (fp_connection_tracker fp) = Inr ct0"
    and "getConnection ct0 (pj_flow_key job) = Some c0"
    and "\<And>ct. getConnection ct (pj_flow_key job) =
            Some (packet_fields now job (client_side (pj_flow_key job) c0) c0) \<Longrightarrow>
          \<exists>ct' c. decide_packet now rm job (client_side (pj_flow_key job) c0) ct = Inr (action, ct') \<and>
            getConnection ct' (pj_flow_key job) = Some c \<and> P c"
  shows "acted (processPacket now rm job fp) fp job action P"
proof -
  let ?b = "client_side (pj_flow_key job) c0"
  let ?ct = "on_connection (pj_flow_key job) (packet_fields now job ?b) ct0"
  have "getConnection ?ct (pj_flow_key job) = Some (packet_fields now job ?b c0)"
    using assms(3) by (simp add: tracker.find_upd_same)
  from assms(4) [OF this] track_packet_entry [OF assms(1-3)] show ?thesis
    by (auto simp: acted_def processPacket_def Let_def)
qed

text \<open>
  C20. A blocked flow stays blocked: a packet of a flow in state \<open>BLOCKED\<close>, in either direction, is
  dropped and leaves the flow blocked, whatever the rules say by then, unless it is one of the two kinds
  of TCP segment that move any connection to another state.
\<close>

theorem blocked_flow_is_dropped:
  assumes "pj_has_flow_key job"
    and "getConnection (fp_connection_tracker fp) (pj_flow_key job) = Some c" and "c_state c = BLOCKED"
    and "\<not> establishes job c" and "\<not> resets job"
  shows "acted (processPacket now rm job fp) fp job DROP (\<lambda>c'. c_state c' = BLOCKED \<and> c_app_type c' = c_app_type c \<and>
    bestDomain c' = bestDomain c)"
proof (rule processPacket_acted [OF assms(1) _ assms(2)])
  show "getOrCreateConnection now (pj_flow_key job) (fp_connection_tracker fp) = Inr (fp_connection_tracker fp)"
    using assms(2) by (simp add: getOrCreateConnection_def getConnection_def Let_def)
qed (use assms(3-5) in \<open>auto simp: decide_blocked bestDomain_def\<close>)

text \<open>
  C19. Address rules are absolute: while the source or the destination address of an IPv4 packet is
  blocked, the packet is dropped and its flow ends up blocked, whatever the state of the flow and
  whatever the packet holds.
\<close>

theorem blocked_address_is_dropped:
  assumes "wf_tracker (fp_connection_tracker fp)" and "pj_has_flow_key job"
    and "ipv4_key (pj_flow_key job) src dst" and "isIPBlocked rm src \<or> isIPBlocked rm dst"
  shows "acted (processPacket now rm job fp) fp job DROP (\<lambda>c. c_state c = BLOCKED)"
proof -
  obtain ct0 c0 where e: "getOrCreateConnection now (pj_flow_key job) (fp_connection_tracker fp) = Inr ct0"
    "getConnection ct0 (pj_flow_key job) = Some c0" "entry_for now (pj_flow_key job) (fp_connection_tracker fp) c0"
    using entry_exists [OF ipv4_one_family [OF assms(3)]] by blast
  have fk: "c_flow_key c0 = fk_canonical (pj_flow_key job)" by (rule entry_flow_key [OF assms(1) e(3)])
  show ?thesis
  proof (rule processPacket_acted [OF assms(2) e(1,2)])
    let ?c = "packet_fields now job (client_side (pj_flow_key job) c0) c0"
    fix ct assume c: "getConnection ct (pj_flow_key job) = Some ?c"
    have "ip_rule_applies rm ?c = Inr True"
      using ip_rule_applies_ipv4 [OF assms(3), of ?c rm] fk assms(4) by simp
    with c show "\<exists>ct' c. decide_packet now rm job (client_side (pj_flow_key job) c0) ct = Inr (DROP, ct') \<and>
        getConnection ct' (pj_flow_key job) = Some c \<and> c_state c = BLOCKED"
      using decide_blocked [OF c] decide_ip_blocked [OF c]
      by (cases "c_state ?c = BLOCKED") (auto simp: blockConnection_get)
  qed
qed

text \<open>
  C24. An IPv6 packet ends the process: unless its flow is already blocked, the address check asks an IPv6
  address for its IPv4 form, and the exception of \<open>std::get\<close> leaves the thread.
\<close>

theorem ipv6_packet_faults:
  assumes "wf_tracker (fp_connection_tracker fp)" and "pj_has_flow_key job"
    and "fk_src_addr (pj_flow_key job) = IPv6Addr s" and "fk_dst_addr (pj_flow_key job) = IPv6Addr d"
    and "case getConnection (fp_connection_tracker fp) (pj_flow_key job) of None \<Rightarrow> True | Some c \<Rightarrow> c_state c \<noteq> BLOCKED"
  shows "processPacket now rm job fp = Inl BadVariantAccess"
proof -
  have "one_family (pj_flow_key job)" using assms(3,4) by (simp add: one_family_def)
  then obtain ct0 c0 where e: "getOrCreateConnection now (pj_flow_key job) (fp_connection_tracker fp) = Inr ct0"
    "getConnection ct0 (pj_flow_key job) = Some c0" "entry_for now (pj_flow_key job) (fp_connection_tracker fp) c0"
    using entry_exists by blast
  let ?b = "client_side (pj_flow_key job) c0"
  let ?c = "packet_fields now job ?b c0"
  have "c_state c0 \<noteq> BLOCKED"
    using e(3) assms(5) by (auto simp: entry_for_def new_connection_fields split: option.splits)
  moreover have "ip_rule_applies rm ?c = Inl BadVariantAccess"
    using ip_rule_applies_ipv6 [OF assms(3,4), of ?c rm] entry_flow_key [OF assms(1) e(3)] by simp
  moreover note conn_at_on_connection [OF e(2), of "packet_fields now job ?b"]
  ultimately show ?thesis
    using track_packet_entry [OF assms(2) e(1,2)]
    by (simp add: processPacket_def decide_packet_def Let_def)
qed

section \<open>Accounting and draining\<close>

lemma track_packet_wf:
  assumes "wf_tracker ct" and "track_packet now job ct = Inr (b, ct')"
  shows "wf_tracker ct'"
proof -
  from assms(2) obtain ct0 c where a: "getOrCreateConnection now (pj_flow_key job) ct = Inr ct0"
    and ct': "ct' = (if ft_protocol (pj_tuple job) = 6
      then updateTCPState (pj_flow_key job) (pj_tcp_flags job) (updateConnection now (pj_flow_key job) (length (pj_data job)) b ct0)
      else updateConnection now (pj_flow_key job) (length (pj_data job)) b ct0)"
    by (fastforce simp: track_packet_def rbind_Inr_iff Let_def split: if_splits)
  have "c_flow_key (tcp_fields f c) = c_flow_key c" for f c by (simp add: tcp_fields_def)
  then show ?thesis
    using wf_getOrCreate [OF assms(1) a]
    by (auto simp: ct' updateTCPState_fields wf_tracker_operations intro!: wf_on_connection)
qed

lemma inspect_wf:
  assumes "wf_tracker ct"
  shows "inspect_udp key conn p n ct = Inr (u, ct') \<Longrightarrow> wf_tracker ct'"
    and "inspect_tcp_client now seq key conn p n ct = Inr (u, ct') \<Longrightarrow> wf_tracker ct'"
  using assms
  by (auto simp: inspect_udp_def inspect_tcp_client_def rbind_Inr_iff Let_def wf_tracker_operations
      split: if_splits option.splits intro!: wf_on_connection wf_tracker_operations(2))

lemma inspectPayload_wf:
  assumes "wf_tracker ct" and "inspectPayload now key job b ct = Inr ct'"
  shows "wf_tracker ct'"
  using assms(2) inspect_wf [OF assms(1)] assms(1)
  by (fastforce simp: inspectPayload_def rbind_Inr_iff Let_def wf_tracker_operations
      split: if_splits option.splits)

lemma decide_packet_wf:
  assumes "wf_tracker ct" and "decide_packet now rm job b ct = Inr (a, ct')"
  shows "wf_tracker ct'"
  using assms(2) assms(1) inspectPayload_wf [OF assms(1)]
  by (auto simp: decide_packet_def rbind_Inr_iff Let_def wf_tracker_operations split: if_splits)

definition accounted :: "FastPath \<Rightarrow> bool" where
  "accounted fp \<longleftrightarrow>
     total_processed (fp_stats fp) = total_forwarded (fp_stats fp) + total_dropped (fp_stats fp) \<and>
     total_forwarded (fp_stats fp) = length (filter (\<lambda>(_, a). a = FORWARD) (fp_output fp)) \<and>
     total_dropped (fp_stats fp) = length (filter (\<lambda>(_, a). a = DROP) (fp_output fp)) \<and>
     wf_tracker (fp_connection_tracker fp)"

lemma accounted_new: "accounted (new_fast_path i)"
  by (simp add: accounted_def new_fast_path_def wf_new_tracker)

lemma processPacket_accounted:
  assumes "accounted fp" and "processPacket now rm job fp = Inr fp'"
  shows "accounted fp' \<and> map fst (fp_output fp') = map fst (fp_output fp) @ [job] \<and>
    fp_input_queue fp' = fp_input_queue fp \<and> fp_running fp' = fp_running fp"
proof -
  from assms(2) obtain b ct a ct' where t: "track_packet now job (fp_connection_tracker fp) = Inr (b, ct)"
    and d: "decide_packet now rm job b ct = Inr (a, ct')"
    and fp': "fp' = handleAction job a
          (fp\<lparr>fp_stats := fp_stats fp\<lparr>total_processed := total_processed (fp_stats fp) + 1\<rparr>,
             fp_connection_tracker := ct'\<rparr>)"
    unfolding processPacket_Inr by blast
  have "wf_tracker ct'"
    using assms(1) decide_packet_wf [OF track_packet_wf [OF _ t] d] by (simp add: accounted_def)
  then show ?thesis
    using assms(1) decide_packet_action [OF d] by (auto simp: accounted_def fp')
qed

text \<open>A round takes the first job, keeps the invariant and never touches the rest of the queue.\<close>

lemma fp_round_accounted:
  assumes "accounted fp" and "fp_round now rm (fp, t) = Inr (go_on, fp', t')"
  shows "accounted fp' \<and> fp_running fp' = fp_running fp \<and>
    map fst (fp_output fp') @ tq_items (fp_input_queue fp') = map fst (fp_output fp) @ tq_items (fp_input_queue fp) \<and>
    length (tq_items (fp_input_queue fp')) = length (tq_items (fp_input_queue fp)) - 1 \<and>
    go_on = (fp_running fp \<or> tq_items (fp_input_queue fp) \<noteq> [])"
proof (cases "tq_items (fp_input_queue fp)")
  case Nil
  then show ?thesis
    using assms
    by (auto simp: fp_round_def tsq_popWithTimeout_def take_front_def tsq_empty_def Let_def accounted_def
        wf_tracker_operations split: if_splits)
next
  case (Cons job rest)
  let ?fp = "fp\<lparr>fp_input_queue := fp_input_queue fp\<lparr>tq_items := rest\<rparr>\<rparr>"
  have acc: "accounted ?fp" using assms(1) by (simp add: accounted_def)
  from assms(2) Cons obtain fp1 where p: "processPacket now rm job ?fp = Inr fp1"
    and r: "go_on" "fp' = fp1 \<or> fp' = fp1\<lparr>fp_connection_tracker := snd (cleanupStale now 300 (fp_connection_tracker fp1))\<rparr>"
    by (auto simp: fp_round_def tsq_popWithTimeout_def take_front_def Let_def rbind_Inr_iff split: if_splits)
  from processPacket_accounted [OF acc p] r Cons show ?thesis
    by (auto simp: accounted_def wf_tracker_operations)
qed

text \<open>
  C26. Stopping a fast path loses nothing: once it has been told to stop, its thread ends, and unless a
  packet makes it fault, by then every job that was in its queue has been processed, in order, and
  handed to the output callback exactly once; every job counted as processed has been counted as
  forwarded or as dropped, as it was reported.
\<close>

theorem fast_path_drains:
  assumes "accounted fp" and "\<not> fp_running fp"
  shows "\<exists>r. fp_run clock i rm (fp, t) = Some r \<and>
    (case r of
       Inl _ \<Rightarrow> tq_items (fp_input_queue fp) \<noteq> []
     | Inr fp' \<Rightarrow> map fst (fp_output fp') = map fst (fp_output fp) @ tq_items (fp_input_queue fp) \<and>
         tq_items (fp_input_queue fp') = [] \<and> accounted fp')"
  using assms
proof (induction "length (tq_items (fp_input_queue fp))" arbitrary: i fp t rule: less_induct)
  case less
  show ?case
  proof (cases "fp_round (clock i) rm (fp, t)")
    case (Inl e)
    then have "tq_items (fp_input_queue fp) \<noteq> []"
      by (auto simp: fp_round_def tsq_popWithTimeout_def take_front_def Let_def split: if_splits list.splits)
    then show ?thesis using Inl by (subst fp_run.simps) simp
  next
    case (Inr res)
    then obtain go_on fp' t' where r: "fp_round (clock i) rm (fp, t) = Inr (go_on, fp', t')"
      by (cases res) auto
    note step = fp_round_accounted [OF less.prems(1) r]
    show ?thesis
    proof (cases "tq_items (fp_input_queue fp)")
      case Nil
      then show ?thesis using step r less.prems(2) by (subst fp_run.simps) auto
    next
      case (Cons job rest)
      have "length (tq_items (fp_input_queue fp')) < length (tq_items (fp_input_queue fp))"
        using step Cons by simp
      from less.hyps [OF this, of "i + 1" t'] step less.prems(2) show ?thesis
        using r Cons by (subst fp_run.simps) (auto split: sum.splits)
    qed
  qed
qed

section \<open>Which packets can fault\<close>

lemma isQUICInitial_total: "\<exists>b. isQUICInitial p (length p) = Inr b"
  using quic.total [of p] by (auto simp: QUICSNIExtractor_extract_def rbind_Inr_iff)

lemma isHTTPRequest_total: "\<exists>b. isHTTPRequest p (length p) = Inr b"
  using http.total [of p] by (auto simp: HTTPHostExtractor_extract_def rbind_Inr_iff)

lemma extractQuery_total: "\<exists>r. extractQuery p (length p) = Inr r"
  using dns.total [of p] by (auto simp: dns_domain_def rbind_Inr_iff)

text \<open>What \<open>inspectPayload\<close> can do: nothing, or write to the flow's own entry.\<close>

definition keeps_entry :: "FlowKey \<Rightarrow> ConnectionTracker \<Rightarrow> bool" where
  "keeps_entry key ct \<longleftrightarrow> getConnection ct key \<noteq> None"

lemma keeps_entry_on_connection [simp]: "keeps_entry key (on_connection key f ct) = keeps_entry key ct"
  by (simp add: keeps_entry_def tracker.find_upd_same)

lemma getConnection_counts [simp]:
  "getConnection (ct\<lparr>ct_classified_count := n\<rparr>) k = getConnection ct k"
  "getConnection (ct\<lparr>ct_blocked_count := n\<rparr>) k = getConnection ct k"
  by (simp_all add: getConnection_def)

lemma keeps_entry_classify [simp]: "keeps_entry key (classifyConnection key a s h d ct) = keeps_entry key ct"
  by (auto simp: classifyConnection_def keeps_entry_def tracker.find_upd_same split: option.splits)

lemma conn_at_faults: "keeps_entry key ct \<Longrightarrow> faults E (conn_at ct key)"
  by (auto simp: keeps_entry_def conn_at_def)

lemma inspect_keeps_entry:
  assumes "keeps_entry key ct"
  shows "inspect_udp key conn p n ct = Inr (u, ct') \<Longrightarrow> keeps_entry key ct'"
    and "inspect_tcp_client now seq key conn p n ct = Inr (u, ct') \<Longrightarrow> keeps_entry key ct'"
  using assms
  by (auto simp: inspect_udp_def inspect_tcp_client_def rbind_Inr_iff Let_def split: if_splits option.splits)

lemma inspectPayload_keeps_entry:
  "keeps_entry key ct \<Longrightarrow> inspectPayload now key job b ct = Inr ct' \<Longrightarrow> keeps_entry key ct'"
  by (fastforce simp: inspectPayload_def rbind_Inr_iff Let_def split: if_splits option.splits
      dest: inspect_keeps_entry)

lemma inspect_faults:
  assumes "n = length p"
  shows "faults {} (inspect_udp key conn p n ct)"
    and "faults {OutOfBounds, SignedOverflow} (inspect_tcp_client now seq key conn p n ct)"
  using assms unfolding inspect_udp_def inspect_tcp_client_def
  by (auto simp: Let_def split: option.split
      intro!: faults_total [OF extractQuery_total] faults_total [OF isQUICInitial_total]
        faults_total [OF quic.total] faults_total [OF isHTTPRequest_total] faults_total [OF http.total]
        tryExtractSNI_faults)

text \<open>The jobs the parser pool makes: the payload is the rest of the packet.\<close>

definition proper_job :: "PacketJob \<Rightarrow> bool" where
  "proper_job job \<longleftrightarrow> pj_has_flow_key job \<and>
     pj_payload_length job = length (pj_data job) - pj_payload_offset job"

lemma inspectPayload_faults:
  assumes "proper_job job" and "keeps_entry key ct"
    and "\<And>c. getConnection ct key = Some c \<Longrightarrow> fk_protocol (c_flow_key c) = 6 \<Longrightarrow>
           {OutOfBounds, SignedOverflow} \<subseteq> E"
  shows "faults E (inspectPayload now key job b ct)"
proof (cases "getPayload job")
  case (Some p)
  then have p: "pj_payload_length job = length p"
    using assms(1) by (auto simp: getPayload_def proper_job_def split: if_splits)
  obtain c where c: "getConnection ct key = Some c" using assms(2) by (auto simp: keeps_entry_def)
  have "faults E (inspect_udp key c p (length p) ct)"
    using inspect_faults(1) [of "length p" p key c ct] by (auto simp: faults_def)
  moreover have "faults E (inspect_tcp_client now (pj_tcp_seq_number job) key c p (length p) ct)"
    if "fk_protocol (c_flow_key c) = 6"
    using inspect_faults(2) [of "length p" p now "pj_tcp_seq_number job" key c ct] assms(3) [OF c that]
    by (auto simp: faults_def)
  ultimately show ?thesis
    using c p Some assms(2)
    by (auto simp: inspectPayload_def Let_def conn_at_def intro!: faults_rbind conn_at_faults [unfolded conn_at_def]
        dest: inspect_keeps_entry)
qed (simp add: inspectPayload_def)

lemma decide_packet_faults:
  assumes "getConnection ct (pj_flow_key job) = Some c" and "ip_rule_applies rm c = Inr ip"
    and "faults E (inspectPayload now (pj_flow_key job) job b ct)"
  shows "faults E (decide_packet now rm job b ct)"
proof -
  let ?key = "pj_flow_key job"
  have keep: "keeps_entry ?key ct" using assms(1) by (simp add: keeps_entry_def)
  have "faults E (rbind (inspectPayload now ?key job b ct) (\<lambda>ct. rbind (conn_at ct ?key) (\<lambda>c. Inr (g ct c))))"
    for g :: "ConnectionTracker \<Rightarrow> Connection \<Rightarrow> PacketAction \<times> ConnectionTracker"
    using assms(3) keep by (auto intro!: conn_at_faults dest: inspectPayload_keeps_entry)
  then show ?thesis
    using assms(1,2) by (simp add: decide_packet_def Let_def conn_at_def if_distrib [of Inr, symmetric])
qed

text \<open>
  C25. Robustness of packet processing over IPv4: a job of the parser pool for an IPv4 flow, whatever
  bytes it carries and whatever the state of the flow, is processed without a fault unless it is TCP, and
  then the only faults are those of the reassembler: a read outside its buffer or the negation of the
  least sequence difference.
\<close>

theorem ipv4_packet_is_processed:
  assumes "wf_tracker (fp_connection_tracker fp)" and "proper_job job" and "ipv4_key (pj_flow_key job) src dst"
  shows "(\<exists>fp'. processPacket now rm job fp = Inr fp' \<and> wf_tracker (fp_connection_tracker fp')) \<or>
    fk_protocol (pj_flow_key job) = 6 \<and>
      (processPacket now rm job fp = Inl OutOfBounds \<or> processPacket now rm job fp = Inl SignedOverflow)"
proof -
  let ?key = "pj_flow_key job"
  define E where "E = (if fk_protocol ?key = 6 then {OutOfBounds, SignedOverflow} else {})"
  obtain ct0 c0 where e: "getOrCreateConnection now ?key (fp_connection_tracker fp) = Inr ct0"
    "getConnection ct0 ?key = Some c0" "entry_for now ?key (fp_connection_tracker fp) c0"
    using entry_exists [OF ipv4_one_family [OF assms(3)]] by blast
  let ?b = "client_side ?key c0"
  let ?ct = "on_connection ?key (packet_fields now job ?b) ct0" and ?c = "packet_fields now job ?b c0"
  have key: "pj_has_flow_key job" using assms(2) by (simp add: proper_job_def)
  have t: "track_packet now job (fp_connection_tracker fp) = Inr (?b, ?ct)"
    by (rule track_packet_entry [OF key e(1,2)])
  have get: "getConnection ?ct ?key = Some ?c" using e(2) by (simp add: tracker.find_upd_same)
  then have keep: "keeps_entry ?key ?ct" by (simp add: keeps_entry_def)
  have fk: "c_flow_key ?c = fk_canonical ?key" using entry_flow_key [OF assms(1) e(3)] by simp
  then have proto: "fk_protocol (c_flow_key ?c) = fk_protocol ?key"
    using flow_key.canon_cases [of ?key] by (auto simp: fk_reverse_def)
  have ip: "ip_rule_applies rm ?c = Inr (isIPBlocked rm src \<or> isIPBlocked rm dst)"
    by (rule ip_rule_applies_ipv4 [OF assms(3) fk])
  have "faults E (inspectPayload now ?key job ?b ?ct)"
    by (rule inspectPayload_faults [OF assms(2) keep]) (use get proto in \<open>auto simp: E_def\<close>)
  then have "faults E (decide_packet now rm job ?b ?ct)"
    by (rule decide_packet_faults [OF get ip])
  then show ?thesis
    using t decide_packet_wf [OF track_packet_wf [OF assms(1) t]]
    by (cases "decide_packet now rm job ?b ?ct") (auto simp: processPacket_def Let_def E_def split: if_splits)
qed

section \<open>Classification decides\<close>

lemma decide_classified:
  assumes "getConnection ct (pj_flow_key job) = Some c" and "c_state c = NEW \<or> c_state c = ESTABLISHED"
    and "ip_rule_applies rm c = Inr False" and "inspectPayload now (pj_flow_key job) job b ct = Inr ct'"
    and "getConnection ct' (pj_flow_key job) = Some c'" and "c_state c' = CLASSIFIED"
  shows "\<exists>ct'' c''. decide_packet now rm job b ct = Inr (if class_rule_applies rm c' then DROP else FORWARD, ct'') \<and>
    getConnection ct'' (pj_flow_key job) = Some c'' \<and> c_sni c'' = c_sni c' \<and> c_http_host c'' = c_http_host c' \<and>
    c_dns_query c'' = c_dns_query c' \<and> c_app_type c'' = c_app_type c' \<and>
    c_state c'' = (if class_rule_applies rm c' then BLOCKED else CLASSIFIED)"
  using assms by (cases "class_rule_applies rm c'") (auto simp: decide_packet_def conn_at_def Let_def blockConnection_get)

lemma classifyConnection_get:
  "getConnection ct key = Some c \<Longrightarrow>
   getConnection (classifyConnection key a s h d ct) key = Some (classify_fields a s h d c)"
  by (simp add: classifyConnection_def tracker.find_upd_same)

lemma classify_fields_open:
  assumes "c_state c = NEW \<or> c_state c = ESTABLISHED"
  shows "c_state (classify_fields a s h d c) = CLASSIFIED" "c_app_type (classify_fields a s h d c) = a"
    "c_sni (classify_fields a s h d c) = (if s = [] then c_sni c else s)"
    "c_http_host (classify_fields a s h d c) = (if h = [] then c_http_host c else h)"
    "c_dns_query (classify_fields a s h d c) = (if d = [] then c_dns_query c else d)"
  using assms by (auto simp: classify_fields_def Let_def)

lemma bestDomain_cong:
  "c_sni c' = c_sni c \<Longrightarrow> c_http_host c' = c_http_host c \<Longrightarrow> c_dns_query c' = c_dns_query c \<Longrightarrow>
   bestDomain c' = bestDomain c"
  by (simp add: bestDomain_def)

text \<open>A reassembler that has seen no payload yet.\<close>

definition fresh_reassembler :: "TCPReassembler \<Rightarrow> bool" where
  "fresh_reassembler st \<longleftrightarrow> ra_buffer st = [] \<and> ra_out_of_order st = [] \<and> ra_current_memory_usage st = 0 \<and>
     \<not> ra_failed st \<and> \<not> ra_expected_seq_initialized st"

lemma fresh_new [simp]: "fresh_reassembler (new_reassembler now)"
  by (simp add: fresh_reassembler_def new_reassembler_def)

lemma fresh_finds_hello:
  assumes "fresh_reassembler st" and "wf_client_hello ch" and "p = client_hello_bytes ch @ q"
    and "length p \<le> max_buffer_bytes cfg"
  shows "\<exists>st'. tryExtractSNI cfg now seq p (length p) st = Inr (Some (map byte_char (ch_host ch)), st')"
proof -
  have scan: "scan_buffer p = Inr (Some (map byte_char (ch_host ch)))"
    unfolding assms(3) by (rule extract_imp_scan [OF extract_client_hello [OF assms(2)]])
  moreover have "p \<noteq> []" using scan by (auto simp: scan_buffer_def)
  ultimately show ?thesis
    using assms(1,4)
    by (simp add: tryExtractSNI_def fresh_reassembler_def Let_def seqDiff_def accept_segment_def mergeOutOfOrder_def)
qed

lemma hello_no_request:
  assumes "p = client_hello_bytes ch @ q"
  shows "isHTTPRequest p (length p) = Inr False"
proof -
  have "byte_char 0x16 \<notin> hd ` set http_methods" by (simp add: http_methods_def concrete_bytes)
  moreover have "hd (map byte_char (take 4 p)) = byte_char 0x16"
    by (simp add: assms client_hello_bytes_def record_start_def)
  moreover have "4 \<le> length p"
    by (simp add: assms client_hello_bytes_def record_start_def)
  ultimately have "map byte_char (take 4 p) \<notin> set http_methods" by (metis imageI)
  then show ?thesis by (simp add: isHTTPRequest_def)
qed

definition awaits_payload :: "FlowKey \<Rightarrow> ConnectionTracker \<Rightarrow> (Connection \<Rightarrow> bool) \<Rightarrow> bool" where
  "awaits_payload key ct P \<longleftrightarrow>
     (case getConnection ct key of
        None \<Rightarrow> True
      | Some c \<Rightarrow> (c_state c = NEW \<or> c_state c = ESTABLISHED) \<and> P c)"

text \<open>The common part: a packet of an unclassified flow that no address rule blocks and whose payload is recognised.\<close>

lemma recognised_packet:
  assumes "wf_tracker (fp_connection_tracker fp)" and "pj_has_flow_key job" and "ipv4_key (pj_flow_key job) src dst"
    and "\<not> isIPBlocked rm src" and "\<not> isIPBlocked rm dst" and "\<not> resets job"
    and "awaits_payload (pj_flow_key job) (fp_connection_tracker fp) P"
    and fresh: "\<And>c. new_connection now (pj_flow_key job) = Inr c \<Longrightarrow> P c"
    and inspect: "\<And>ct c0 c. P c0 \<Longrightarrow> c = packet_fields now job (client_side (pj_flow_key job) c0) c0 \<Longrightarrow>
        getConnection ct (pj_flow_key job) = Some c \<Longrightarrow> c_flow_key c = fk_canonical (pj_flow_key job) \<Longrightarrow>
        c_state c = NEW \<or> c_state c = ESTABLISHED \<Longrightarrow>
        \<exists>ct' c'. inspectPayload now (pj_flow_key job) job (client_side (pj_flow_key job) c0) ct = Inr ct' \<and>
          getConnection ct' (pj_flow_key job) = Some c' \<and> c_state c' = CLASSIFIED \<and> Q c' \<and>
          class_rule_applies rm c' = blocked"
    and Q: "\<And>c c'. c_sni c' = c_sni c \<Longrightarrow> c_http_host c' = c_http_host c \<Longrightarrow> c_dns_query c' = c_dns_query c \<Longrightarrow>
        c_app_type c' = c_app_type c \<Longrightarrow> Q c \<Longrightarrow> Q c'"
  shows "acted (processPacket now rm job fp) fp job (if blocked then DROP else FORWARD)
    (\<lambda>c. c_state c = (if blocked then BLOCKED else CLASSIFIED) \<and> Q c)"
proof -
  let ?key = "pj_flow_key job"
  obtain ct0 c0 where e: "getOrCreateConnection now ?key (fp_connection_tracker fp) = Inr ct0"
    "getConnection ct0 ?key = Some c0" "entry_for now ?key (fp_connection_tracker fp) c0"
    using entry_exists [OF ipv4_one_family [OF assms(3)]] by blast
  have c0: "P c0" "c_state c0 = NEW \<or> c_state c0 = ESTABLISHED"
    using e(3) assms(7) fresh
    by (auto simp: entry_for_def awaits_payload_def new_connection_fields split: option.splits)
  show ?thesis
  proof (rule processPacket_acted [OF assms(2) e(1,2)])
    let ?c = "packet_fields now job (client_side ?key c0) c0"
    fix ct assume get: "getConnection ct ?key = Some ?c"
    have fk: "c_flow_key ?c = fk_canonical ?key" using entry_flow_key [OF assms(1) e(3)] by simp
    have unclassified: "c_state ?c = NEW \<or> c_state ?c = ESTABLISHED" using c0(2) assms(6) by auto
    have ip: "ip_rule_applies rm ?c = Inr False"
      using ip_rule_applies_ipv4 [OF assms(3) fk] assms(4,5) by simp
    obtain ct' c' where i: "inspectPayload now ?key job (client_side ?key c0) ct = Inr ct'"
      "getConnection ct' ?key = Some c'" "c_state c' = CLASSIFIED" "Q c'" "class_rule_applies rm c' = blocked"
      using inspect [OF c0(1) refl get fk unclassified] by blast
    show "\<exists>ct' c. decide_packet now rm job (client_side ?key c0) ct = Inr (if blocked then DROP else FORWARD, ct') \<and>
        getConnection ct' ?key = Some c \<and> c_state c = (if blocked then BLOCKED else CLASSIFIED) \<and> Q c"
      using decide_classified [OF get unclassified ip i(1-3)] Q [OF _ _ _ _ i(4)] i(5) by metis
  qed
qed

lemma proper_payload:
  assumes "proper_job job" and "drop (pj_payload_offset job) (pj_data job) = p" and "p \<noteq> []"
  shows "getPayload job = Some p" "pj_payload_length job = length p"
proof -
  have "pj_payload_offset job < length (pj_data job)" using assms(2,3) by (metis drop_all not_le)
  then show "getPayload job = Some p" "pj_payload_length job = length p"
    using assms length_drop [of "pj_payload_offset job" "pj_data job"]
    by (simp_all add: getPayload_def proper_job_def)
qed

lemma hello_packet_decided:
  assumes "wf_tracker (fp_connection_tracker fp)" and "proper_job job" and "ipv4_key (pj_flow_key job) src dst"
    and "\<not> isIPBlocked rm src" and "\<not> isIPBlocked rm dst" and "\<not> resets job"
    and "fk_protocol (pj_flow_key job) = 6" and "fk_src_port (pj_flow_key job) \<noteq> 80" and "fk_dst_port (pj_flow_key job) \<noteq> 80"
    and "awaits_payload (pj_flow_key job) (fp_connection_tracker fp)
           (\<lambda>c. client_side (pj_flow_key job) c \<and> fresh_reassembler (c_reassembler_client c))"
    and "drop (pj_payload_offset job) (pj_data job) = client_hello_bytes ch @ q"
    and "length (client_hello_bytes ch @ q) \<le> 16384" and "wf_client_hello ch" and "ch_host ch \<noteq> []"
  shows "let host = map byte_char (ch_host ch);
             blocked = isAppBlocked rm (sniToAppType host) \<or> isDomainBlocked rm host
         in acted (processPacket now rm job fp) fp job (if blocked then DROP else FORWARD)
              (\<lambda>c. c_state c = (if blocked then BLOCKED else CLASSIFIED) \<and>
                c_app_type c = sniToAppType host \<and> bestDomain c = host)"
proof -
  let ?key = "pj_flow_key job" and ?host = "map byte_char (ch_host ch)"
  define p where "p = client_hello_bytes ch @ q"
  have "p \<noteq> []" by (simp add: p_def client_hello_bytes_def record_start_def)
  note pay = proper_payload [OF assms(2) assms(11) [folded p_def] this]
  have key: "pj_has_flow_key job" using assms(2) by (simp add: proper_job_def)
  have ports: "fk_src_port (fk_canonical ?key) \<noteq> 80" "fk_dst_port (fk_canonical ?key) \<noteq> 80"
    "fk_protocol (fk_canonical ?key) = 6"
    using flow_key.canon_cases [of ?key] assms(7-9) by (auto simp: fk_reverse_def)
  show ?thesis
    unfolding Let_def
  proof (rule recognised_packet [OF assms(1) key assms(3-6,10)])
    fix c assume "new_connection now ?key = Inr c"
    then show "client_side ?key c \<and> fresh_reassembler (c_reassembler_client c)"
      using new_connection_fields [of now ?key c] by (auto simp: client_side_def)
  next
    fix ct c0 c
    assume c0: "client_side ?key c0 \<and> fresh_reassembler (c_reassembler_client c0)"
      and c: "c = packet_fields now job (client_side ?key c0) c0" and get: "getConnection ct ?key = Some c"
      and fk: "c_flow_key c = fk_canonical ?key" and st: "c_state c = NEW \<or> c_state c = ESTABLISHED"
    have ra: "fresh_reassembler (c_reassembler_client c)" using c0 c by simp
    obtain ra' where ra': "tryExtractSNI default_config now (pj_tcp_seq_number job) p (length p)
        (c_reassembler_client c) = Inr (Some ?host, ra')"
      using fresh_finds_hello [OF ra assms(13) p_def, of default_config] assms(12)
      by (auto simp: default_config_def p_def)
    define ct1 where "ct1 = on_connection ?key (\<lambda>c. c\<lparr>c_reassembler_client := ra'\<rparr>) ct"
    define ct2 where "ct2 = on_connection ?key (\<lambda>c. c\<lparr>c_reassembler_client := ra_clear (c_reassembler_client c)\<rparr>)
        (classifyConnection ?key (sniToAppType ?host) ?host [] [] ct1)"
    define c1 where "c1 = c\<lparr>c_reassembler_client := ra'\<rparr>"
    define c2 where "c2 = (classify_fields (sniToAppType ?host) ?host [] [] c1)
        \<lparr>c_reassembler_client := ra_clear (c_reassembler_client (classify_fields (sniToAppType ?host) ?host [] [] c1))\<rparr>"
    have get1: "getConnection ct1 ?key = Some c1" using get by (simp add: ct1_def c1_def tracker.find_upd_same)
    have get2: "getConnection ct2 ?key = Some c2"
      using classifyConnection_get [OF get1] by (simp add: ct2_def c2_def tracker.find_upd_same)
    have st1: "c_state c1 = NEW \<or> c_state c1 = ESTABLISHED" using st by (simp add: c1_def)
    have "inspectPayload now ?key job True ct = Inr ct2"
      using get pay ports ra' fk hello_no_request [OF p_def] get2
      by (simp add: inspectPayload_def inspect_tcp_client_def conn_at_def Let_def ct1_def ct2_def)
    moreover have "c_state c2 = CLASSIFIED" "c_app_type c2 = sniToAppType ?host" "c_sni c2 = ?host"
      using classify_fields_open [OF st1] assms(14) by (simp_all add: c2_def)
    moreover have "class_rule_applies rm c2 = (isAppBlocked rm (sniToAppType ?host) \<or> isDomainBlocked rm ?host)"
      using calculation(3,4) assms(14) by (simp add: class_rule_applies_def bestDomain_def)
    ultimately show "\<exists>ct' c'. inspectPayload now ?key job (client_side ?key c0) ct = Inr ct' \<and>
        getConnection ct' ?key = Some c' \<and> c_state c' = CLASSIFIED \<and>
        (c_app_type c' = sniToAppType ?host \<and> bestDomain c' = ?host) \<and>
        class_rule_applies rm c' = (isAppBlocked rm (sniToAppType ?host) \<or> isDomainBlocked rm ?host)"
      using get2 c0 assms(14) by (intro exI [of _ ct2] exI [of _ c2]) (simp add: bestDomain_def)
  qed (use bestDomain_cong in \<open>metis (no_types)\<close>)
qed

text \<open>
  C15. TLS end to end within a fast path: when the first payload a client sends on a TCP flow outside port
  80 is a ClientHello, complete in one segment of at most 16 KiB, the decision is made by its server name:
  the packet is dropped and the flow is blocked if the application that name stands for is blocked or the
  name is blocked by a domain rule; otherwise the packet is forwarded. In both cases the flow is classified
  by that application and remembers the name.
\<close>

theorem client_hello_decides:
  assumes "wf_tracker (fp_connection_tracker fp)" and "proper_job job" and "ipv4_key (pj_flow_key job) src dst"
    and "\<not> isIPBlocked rm src" and "\<not> isIPBlocked rm dst" and "\<not> resets job"
    and "fk_protocol (pj_flow_key job) = 6" and "fk_src_port (pj_flow_key job) \<noteq> 80" and "fk_dst_port (pj_flow_key job) \<noteq> 80"
    and "awaits_payload (pj_flow_key job) (fp_connection_tracker fp)
           (\<lambda>c. client_side (pj_flow_key job) c \<and> fresh_reassembler (c_reassembler_client c))"
    and "drop (pj_payload_offset job) (pj_data job) = client_hello_bytes ch @ q"
    and "length (client_hello_bytes ch @ q) \<le> 16384" and "wf_client_hello ch" and "ch_host ch \<noteq> []"
  shows "let host = map byte_char (ch_host ch);
             blocked = isAppBlocked rm (sniToAppType host) \<or> isDomainBlocked rm host
         in acted (processPacket now rm job fp) fp job (if blocked then DROP else FORWARD)
              (\<lambda>c. c_state c = (if blocked then BLOCKED else CLASSIFIED) \<and>
                c_app_type c = sniToAppType host \<and> bestDomain c = host)"
  using assms by (rule hello_packet_decided)

text \<open>
  C28. HTTP within a fast path: when a client's packet on an unclassified TCP flow is a request from which
  a Host value is extracted, on whatever port, that host decides as a server name does.
\<close>

theorem http_host_decides:
  assumes "wf_tracker (fp_connection_tracker fp)" and "proper_job job" and "ipv4_key (pj_flow_key job) src dst"
    and "\<not> isIPBlocked rm src" and "\<not> isIPBlocked rm dst" and "\<not> resets job"
    and "fk_protocol (pj_flow_key job) = 6"
    and "awaits_payload (pj_flow_key job) (fp_connection_tracker fp)
           (\<lambda>c. client_side (pj_flow_key job) c \<and> c_sni c = [])"
    and "drop (pj_payload_offset job) (pj_data job) = p"
    and "HTTPHostExtractor_extract p (length p) = Inr (Some host)" and "host \<noteq> []"
  shows "let blocked = isAppBlocked rm (sniToAppType host) \<or> isDomainBlocked rm host
         in acted (processPacket now rm job fp) fp job (if blocked then DROP else FORWARD)
              (\<lambda>c. c_state c = (if blocked then BLOCKED else CLASSIFIED) \<and>
                c_app_type c = sniToAppType host \<and> bestDomain c = host)"
proof -
  let ?key = "pj_flow_key job"
  have req: "isHTTPRequest p (length p) = Inr True"
    using assms(10) by (auto simp: HTTPHostExtractor_extract_def rbind_Inr_iff split: if_splits)
  then have "p \<noteq> []" by (auto simp: isHTTPRequest_def)
  note pay = proper_payload [OF assms(2,9) this]
  have key: "pj_has_flow_key job" using assms(2) by (simp add: proper_job_def)
  have proto: "fk_protocol (fk_canonical ?key) = 6"
    using flow_key.canon_cases [of ?key] assms(7) by (auto simp: fk_reverse_def)
  show ?thesis
    unfolding Let_def
  proof (rule recognised_packet [OF assms(1) key assms(3-6,8)])
    fix c assume "new_connection now ?key = Inr c"
    then show "client_side ?key c \<and> c_sni c = []"
      using new_connection_fields [of now ?key c] by (auto simp: client_side_def)
  next
    fix ct c0 c
    assume c0: "client_side ?key c0 \<and> c_sni c0 = []"
      and c: "c = packet_fields now job (client_side ?key c0) c0" and get: "getConnection ct ?key = Some c"
      and fk: "c_flow_key c = fk_canonical ?key" and st: "c_state c = NEW \<or> c_state c = ESTABLISHED"
    let ?ct = "classifyConnection ?key (sniToAppType host) [] host [] ct"
    let ?c = "classify_fields (sniToAppType host) [] host [] c"
    note get2 = classifyConnection_get [OF get, of "sniToAppType host" "[]" host "[]"]
    have "inspectPayload now ?key job True ct = Inr ?ct"
      using get pay proto fk assms(10) req get2
      by (simp add: inspectPayload_def inspect_tcp_client_def conn_at_def Let_def)
    moreover have "c_state ?c = CLASSIFIED" "c_app_type ?c = sniToAppType host" "bestDomain ?c = host"
      using classify_fields_open [OF st] assms(11) c0 c by (simp_all add: bestDomain_def)
    moreover have "class_rule_applies rm ?c = (isAppBlocked rm (sniToAppType host) \<or> isDomainBlocked rm host)"
      using calculation(3,4) assms(11) by (simp add: class_rule_applies_def)
    ultimately show "\<exists>ct' c'. inspectPayload now ?key job (client_side ?key c0) ct = Inr ct' \<and>
        getConnection ct' ?key = Some c' \<and> c_state c' = CLASSIFIED \<and>
        (c_app_type c' = sniToAppType host \<and> bestDomain c' = host) \<and>
        class_rule_applies rm c' = (isAppBlocked rm (sniToAppType host) \<or> isDomainBlocked rm host)"
      using get2 c0 by auto
  qed (use bestDomain_cong in \<open>metis (no_types)\<close>)
qed

text \<open>
  DNS within a fast path: a UDP packet from or to port 53 that carries a query for a well-formed name
  is dropped, and its flow blocked, if the application DNS or the queried name is blocked; otherwise it is
  forwarded and the flow classified as DNS.
\<close>

theorem dns_query_decides:
  assumes "wf_tracker (fp_connection_tracker fp)" and "proper_job job" and "ipv4_key (pj_flow_key job) src dst"
    and "\<not> isIPBlocked rm src" and "\<not> isIPBlocked rm dst" and "\<not> resets job"
    and "fk_protocol (pj_flow_key job) = 17" and "fk_src_port (pj_flow_key job) = 53 \<or> fk_dst_port (pj_flow_key job) = 53"
    and "awaits_payload (pj_flow_key job) (fp_connection_tracker fp) (\<lambda>c. c_sni c = [] \<and> c_http_host c = [])"
    and "drop (pj_payload_offset job) (pj_data job) = header @ label_bytes labels @ 0 # q"
    and "length header = 12" and "header ! 2 AND 0x80 = 0" and "be16 (header ! 4) (header ! 5) \<noteq> 0"
    and "wf_labels labels" and "labels \<noteq> []"
  shows "let blocked = isAppBlocked rm DNS \<or> isDomainBlocked rm (dotted labels)
         in acted (processPacket now rm job fp) fp job (if blocked then DROP else FORWARD)
              (\<lambda>c. c_state c = (if blocked then BLOCKED else CLASSIFIED) \<and>
                c_app_type c = DNS \<and> bestDomain c = dotted labels)"
proof -
  let ?key = "pj_flow_key job" and ?name = "dotted labels"
  define p where "p = header @ label_bytes labels @ 0 # q"
  have name: "?name \<noteq> []"
    using assms(14,15) by (cases labels rule: dotted.cases) (auto simp: wf_labels_def)
  obtain r where r: "extractQuery p (length p) = Inr (Some r)" "dns_query_domain r = ?name"
    using extractQuery_name [OF assms(11-15) p_def] by blast
  have "p \<noteq> []" by (simp add: p_def)
  note pay = proper_payload [OF assms(2) assms(10) [folded p_def] this]
  have key: "pj_has_flow_key job" using assms(2) by (simp add: proper_job_def)
  have port: "fk_src_port (fk_canonical ?key) = 53 \<or> fk_dst_port (fk_canonical ?key) = 53"
    "fk_protocol (fk_canonical ?key) = 17"
    using flow_key.canon_cases [of ?key] assms(7,8) by (auto simp: fk_reverse_def)
  show ?thesis
    unfolding Let_def
  proof (rule recognised_packet [OF assms(1) key assms(3-6,9)])
    fix c assume "new_connection now ?key = Inr c"
    then show "c_sni c = [] \<and> c_http_host c = []"
      using new_connection_fields [of now ?key c] by auto
  next
    fix ct c0 c
    assume c0: "c_sni c0 = [] \<and> c_http_host c0 = []"
      and c: "c = packet_fields now job (client_side ?key c0) c0" and get: "getConnection ct ?key = Some c"
      and fk: "c_flow_key c = fk_canonical ?key" and st: "c_state c = NEW \<or> c_state c = ESTABLISHED"
    let ?ct = "classifyConnection ?key DNS [] [] ?name ct" and ?c = "classify_fields DNS [] [] ?name c"
    note get2 = classifyConnection_get [OF get, of DNS "[]" "[]" ?name]
    have "inspectPayload now ?key job (client_side ?key c0) ct = Inr ?ct"
      using get pay port fk r get2
      by (simp add: inspectPayload_def inspect_udp_def conn_at_def Let_def)
    moreover have "c_state ?c = CLASSIFIED" "c_app_type ?c = DNS" "bestDomain ?c = ?name"
      using classify_fields_open [OF st] name c0 c by (simp_all add: bestDomain_def)
    moreover have "class_rule_applies rm ?c = (isAppBlocked rm DNS \<or> isDomainBlocked rm ?name)"
      using calculation(3,4) name by (simp add: class_rule_applies_def)
    ultimately show "\<exists>ct' c'. inspectPayload now ?key job (client_side ?key c0) ct = Inr ct' \<and>
        getConnection ct' ?key = Some c' \<and> c_state c' = CLASSIFIED \<and>
        (c_app_type c' = DNS \<and> bestDomain c' = ?name) \<and>
        class_rule_applies rm c' = (isAppBlocked rm DNS \<or> isDomainBlocked rm ?name)"
      using get2 by blast
  qed (use bestDomain_cong in \<open>metis (no_types)\<close>)
qed

section \<open>Sample packets\<close>

definition sample_job :: "u8 \<Rightarrow> bytes \<Rightarrow> PacketJob" where
  "sample_job flags data =
     \<lparr>pj_packet_id = 0,
      pj_tuple = \<lparr>ft_src_ip = 9, ft_dst_ip = 4, ft_src_port = 5000, ft_dst_port = 443, ft_protocol = 6\<rparr>,
      pj_flow_key = sample_key, pj_has_flow_key = True, pj_tcp_seq_number = 1000, pj_data = data,
      pj_eth_offset = 0, pj_ip_offset = 0, pj_transport_offset = 0, pj_payload_offset = 0,
      pj_payload_length = length data, pj_tcp_flags = flags, pj_ts_sec = 0, pj_ts_usec = 0\<rparr>"

lemma sample_job_simps [simp]:
  "pj_flow_key (sample_job f d) = sample_key" "pj_has_flow_key (sample_job f d)" "proper_job (sample_job f d)"
  "drop (pj_payload_offset (sample_job f d)) (pj_data (sample_job f d)) = d"
  "ft_protocol (pj_tuple (sample_job f d)) = 6" "pj_tcp_flags (sample_job f d) = f"
  by (simp_all add: sample_job_def proper_job_def)

lemma sample_key_simps [simp]:
  "ipv4_key sample_key 9 4" "fk_protocol sample_key = 6" "fk_src_port sample_key = 5000" "fk_dst_port sample_key = 443"
  by (simp_all add: ipv4_key_def sample_key_def)

lemma new_fast_path_simps [simp]:
  "wf_tracker (fp_connection_tracker (new_fast_path i))" "getConnection (fp_connection_tracker (new_fast_path i)) k = None"
  using wf_new_tracker [of i 100000] by (simp_all add: new_fast_path_def getConnection_def new_tracker_def)

lemma no_ip_rules [simp]: "\<not> isIPBlocked no_rules ip" "\<not> isIPBlocked (blockDomain d no_rules) ip"
  by (simp_all add: isIPBlocked_def no_rules_def blockDomain_def Let_def)

lemma blocked_path_exists:
  "\<exists>(fp :: FastPath) c. wf_tracker (fp_connection_tracker fp) \<and>
     getConnection (fp_connection_tracker fp) sample_key = Some c \<and> c_state c = BLOCKED \<and>
     length (ct_connections (fp_connection_tracker fp)) = 1 \<and> ct_max_connections (fp_connection_tracker fp) = 5"
proof -
  have "one_family sample_key" by (rule ipv4_one_family [of _ 9 4]) simp
  then obtain ct c where ct: "getOrCreateConnection 0 sample_key (new_tracker 0 5) = Inr ct" "getConnection ct sample_key = Some c"
    using entry_exists by blast
  define fp where "fp = (new_fast_path 0)\<lparr>fp_connection_tracker := blockConnection sample_key ct\<rparr>"
  have "wf_tracker (fp_connection_tracker fp)"
    using wf_tracker_operations(3) [OF wf_getOrCreate [OF wf_new_tracker ct(1)]] by (simp add: fp_def)
  moreover have "getConnection (fp_connection_tracker fp) sample_key = Some (c\<lparr>c_state := BLOCKED, c_action := DROP\<rparr>)"
    using ct(2) by (simp add: fp_def blockConnection_get)
  moreover have "length (ct_connections (fp_connection_tracker fp)) = 1 \<and> ct_max_connections (fp_connection_tracker fp) = 5"
    using ct(1) by (auto simp: fp_def blockConnection_def on_connection_def getOrCreateConnection_def new_tracker_def
        rbind_Inr_iff Let_def split: option.split)
  ultimately show ?thesis by (intro exI [of _ fp] exI [of _ "c\<lparr>c_state := BLOCKED, c_action := DROP\<rparr>"]) simp
qed

theorem blocked_flow_is_dropped_witness:
  "\<exists>(fp :: FastPath) c. c_state c = BLOCKED \<and> getConnection (fp_connection_tracker fp) sample_key = Some c \<and>
     acted (processPacket 9 no_rules (sample_job 0x18 [22, 3]) fp) fp (sample_job 0x18 [22, 3]) DROP
       (\<lambda>c'. c_state c' = BLOCKED \<and> c_app_type c' = c_app_type c \<and> bestDomain c' = bestDomain c)"
proof -
  obtain fp :: FastPath and c where fp: "getConnection (fp_connection_tracker fp) sample_key = Some c" "c_state c = BLOCKED"
    using blocked_path_exists by blast
  have "\<not> establishes (sample_job 0x18 [22, 3]) c" "\<not> resets (sample_job 0x18 [22, 3])"
    by (simp_all add: establishes_def resets_def)
  then show ?thesis
    using blocked_flow_is_dropped [of "sample_job 0x18 [22, 3]" fp c 9 no_rules] fp by auto
qed

theorem blocked_address_is_dropped_witness:
  "acted (processPacket 9 (blockIP 4 no_rules) (sample_job 0x04 []) (new_fast_path 0)) (new_fast_path 0)
     (sample_job 0x04 []) DROP (\<lambda>c. c_state c = BLOCKED)"
  by (rule blocked_address_is_dropped [where src = 9 and dst = 4])
    (simp_all add: isIPBlocked_def blockIP_def)

theorem ipv6_packet_faults_witness:
  "processPacket 9 no_rules (sample_job 0 []\<lparr>pj_flow_key := fromIPv6 (replicate 16 1) (replicate 16 2) 5000 443 6\<rparr>)
     (new_fast_path 0) = Inl BadVariantAccess"
  by (rule ipv6_packet_faults [where s = "replicate 16 1" and d = "replicate 16 2"])
    (simp_all add: fromIPv6_def)

theorem ipv4_packet_is_processed_witness:
  "\<exists>fp'. processPacket 9 no_rules
       (sample_job 0 [1, 2]\<lparr>pj_flow_key := sample_key\<lparr>fk_protocol := 17\<rparr>\<rparr>) (new_fast_path 0) = Inr fp'"
  using ipv4_packet_is_processed [of "new_fast_path 0"
      "sample_job 0 [1, 2]\<lparr>pj_flow_key := sample_key\<lparr>fk_protocol := 17\<rparr>\<rparr>" 9 4 9 no_rules]
  by (auto simp: proper_job_def ipv4_key_def sample_key_def sample_job_def)

theorem fast_path_drains_witness:
  "\<exists>r. fp_run id 0 no_rules
      (fp_stop (fp_start (new_fast_path 0\<lparr>fp_input_queue := (new_queue 5)\<lparr>tq_items := [sample_job 0 [], sample_job 2 []]\<rparr>\<rparr>)), 0)
      = Some r \<and>
    (case r of
       Inl _ \<Rightarrow> True
     | Inr fp' \<Rightarrow> map fst (fp_output fp') = [sample_job 0 [], sample_job 2 []] \<and> accounted fp')"
proof -
  let ?fp = "fp_stop (fp_start (new_fast_path 0\<lparr>fp_input_queue :=
      (new_queue 5)\<lparr>tq_items := [sample_job 0 [], sample_job 2 []]\<rparr>\<rparr>))"
  have "accounted ?fp" using accounted_new [of 0] by (simp add: accounted_def fp_stop_def fp_start_def)
  moreover have "\<not> fp_running ?fp" "tq_items (fp_input_queue ?fp) = [sample_job 0 [], sample_job 2 []]" "fp_output ?fp = []"
    by (simp_all add: fp_stop_def fp_start_def tsq_shutdown_def new_fast_path_def)
  ultimately show ?thesis
    using fast_path_drains [of ?fp id 0 no_rules 0] by (auto split: sum.splits)
qed

lemma wf_sample_hello: "wf_client_hello sample_hello"
  by (simp add: wf_client_hello_def sample_hello_def hello_body_def hello_prefix_def
      hello_extensions_def extension_bytes_def server_name_extension_def)

lemma sample_host: "map byte_char (ch_host sample_hello) = ''a.io''"
  by (simp add: sample_hello_def concrete_bytes)

lemma sample_host_blocked: "isDomainBlocked (blockDomain ''A.io'' no_rules) ''a.io''"
  by code_simp

theorem client_hello_decides_witness:
  "acted (processPacket 9 (blockDomain ''A.io'' no_rules) (sample_job 0x18 (client_hello_bytes sample_hello @ [7])) (new_fast_path 0))
     (new_fast_path 0) (sample_job 0x18 (client_hello_bytes sample_hello @ [7])) DROP
     (\<lambda>c. c_state c = BLOCKED \<and> c_app_type c = sniToAppType ''a.io'' \<and> bestDomain c = ''a.io'')"
proof -
  let ?job = "sample_job 0x18 (client_hello_bytes sample_hello @ [7])" and ?fp = "new_fast_path 0"
  have "\<not> resets ?job" by (simp add: resets_def)
  moreover have "awaits_payload (pj_flow_key ?job) (fp_connection_tracker ?fp)
      (\<lambda>c. client_side (pj_flow_key ?job) c \<and> fresh_reassembler (c_reassembler_client c))"
    by (simp add: awaits_payload_def)
  moreover have "length (client_hello_bytes sample_hello @ [7]) \<le> 16384" "ch_host sample_hello \<noteq> []"
    by (simp_all add: client_hello_bytes_def record_start_def sample_hello_def hello_body_def hello_prefix_def
        hello_extensions_def extension_bytes_def server_name_extension_def)
  ultimately show ?thesis
    using client_hello_decides [of ?fp ?job 9 4 "blockDomain ''A.io'' no_rules" sample_hello "[7]" 9]
      wf_sample_hello sample_host sample_host_blocked by (simp add: Let_def)
qed

theorem http_host_decides_witness:
  "acted (processPacket 9 (blockDomain ''b'' no_rules) (sample_job 0x18 sample_request) (new_fast_path 0))
     (new_fast_path 0) (sample_job 0x18 sample_request) DROP
     (\<lambda>c. c_state c = BLOCKED \<and> c_app_type c = sniToAppType ''a.b'' \<and> bestDomain c = ''a.b'')"
proof -
  let ?job = "sample_job 0x18 sample_request"
  have "\<not> resets ?job" by (simp add: resets_def)
  moreover have "isDomainBlocked (blockDomain ''b'' no_rules) ''a.b''" by code_simp
  ultimately show ?thesis
    using http_host_decides [of "new_fast_path 0" ?job 9 4 "blockDomain ''b'' no_rules" sample_request "''a.b''" 9]
      extract_sample_request by (simp add: awaits_payload_def Let_def)
qed

theorem dns_query_decides_witness:
  "acted (processPacket 9 (blockApp DNS no_rules)
       (sample_job 0 ([0x12, 0x34, 1, 0, 0, 1, 0, 0, 0, 0, 0, 0] @ label_bytes [[0x61], [0x69, 0x6F]] @ 0 # [0, 1, 0, 1])
          \<lparr>pj_flow_key := sample_key\<lparr>fk_protocol := 17, fk_dst_port := 53\<rparr>\<rparr>)
       (new_fast_path 0)) (new_fast_path 0)
     (sample_job 0 ([0x12, 0x34, 1, 0, 0, 1, 0, 0, 0, 0, 0, 0] @ label_bytes [[0x61], [0x69, 0x6F]] @ 0 # [0, 1, 0, 1])
          \<lparr>pj_flow_key := sample_key\<lparr>fk_protocol := 17, fk_dst_port := 53\<rparr>\<rparr>) DROP
     (\<lambda>c. c_state c = BLOCKED \<and> c_app_type c = DNS \<and> bestDomain c = dotted [[0x61], [0x69, 0x6F]])"
proof -
  let ?h = "[0x12, 0x34, 1, 0, 0, 1, 0, 0, 0, 0, 0, 0] :: bytes" and ?l = "[[0x61], [0x69, 0x6F]] :: bytes list"
  let ?d = "?h @ label_bytes ?l @ 0 # [0, 1, 0, 1]"
  let ?job = "sample_job 0 ?d\<lparr>pj_flow_key := sample_key\<lparr>fk_protocol := 17, fk_dst_port := 53\<rparr>\<rparr>"
  have job: "proper_job ?job" "drop (pj_payload_offset ?job) (pj_data ?job) = ?d" "\<not> resets ?job"
    by (simp_all add: proper_job_def sample_job_def resets_def)
  have key: "ipv4_key (pj_flow_key ?job) 9 4" "fk_protocol (pj_flow_key ?job) = 17" "fk_dst_port (pj_flow_key ?job) = 53"
    by (simp_all add: ipv4_key_def sample_key_def)
  have rules: "isAppBlocked (blockApp DNS no_rules) DNS" "\<not> isIPBlocked (blockApp DNS no_rules) ip" for ip
    by (simp_all add: isAppBlocked_def blockApp_def isIPBlocked_def no_rules_def)
  have "wf_labels ?l" "?h ! 2 AND 0x80 = 0" "be16 (?h ! 4) (?h ! 5) \<noteq> 0"
    by (simp_all add: wf_labels_def be16_def)
  then show ?thesis
    using dns_query_decides [of "new_fast_path 0" ?job 9 4 "blockApp DNS no_rules" ?h ?l "[0, 1, 0, 1]" 9]
      job key rules by (simp add: awaits_payload_def del: append.simps)
qed

end
