(* ===== verification/Load_Balancer.thy ===== *)
theory Load_Balancer
  imports Fast_Path
begin

text \<open>
  \<open>LoadBalancer\<close> and \<open>LBManager\<close> of \<open>include/load_balancer.h\<close> and \<open>src/load_balancer.cpp\<close>. A
  pointer to the input queue of a fast path is the number of the fast path. A push that finds the
  queue full waits, so the thread is a small automaton: between taking a packet and handing it on it
  holds the packet. The counters are unbounded.
\<close>

section \<open>State\<close>

datatype lb_pc = At_Pop | At_Push nat PacketJob | Ended

record LoadBalancer =
  lb_id :: int
  lb_fp_start_id :: int
  lb_num_fps :: nat
  lb_input_queue :: "PacketJob tsq"
  lb_fp_queues :: "nat list"
  lb_packets_received :: nat
  lb_packets_dispatched :: nat
  lb_per_fp_counts :: "nat list"
  lb_running :: bool
  lb_pc :: lb_pc

definition new_load_balancer :: "int \<Rightarrow> nat list \<Rightarrow> int \<Rightarrow> LoadBalancer" where
  "new_load_balancer i fp_queues fp_start_id =
     \<lparr>lb_id = i, lb_fp_start_id = fp_start_id, lb_num_fps = length fp_queues,
      lb_input_queue = new_queue 10000, lb_fp_queues = fp_queues, lb_packets_received = 0,
      lb_packets_dispatched = 0, lb_per_fp_counts = replicate (length fp_queues) 0,
      lb_running = False, lb_pc = At_Pop\<rparr>"

definition lb_start :: "LoadBalancer \<Rightarrow> LoadBalancer" where
  "lb_start lb = (if lb_running lb then lb else lb\<lparr>lb_running := True\<rparr>)"

text \<open>\<open>stop\<close> up to the join of the thread.\<close>

definition lb_stop :: "LoadBalancer \<Rightarrow> LoadBalancer" where
  "lb_stop lb =
     (if \<not> lb_running lb then lb
      else lb\<lparr>lb_running := False, lb_input_queue := tsq_shutdown (lb_input_queue lb)\<rparr>)"

section \<open>The thread\<close>

definition selectFP :: "std_hash \<Rightarrow> nat \<Rightarrow> FiveTuple \<Rightarrow> nat res" where
  "selectFP sh num_fps tuple =
     (if num_fps = 0 then Inl DivisionByZero else Inr (unat (FiveTupleHash sh tuple) mod num_fps))"

text \<open>The first part of a round of \<open>run\<close>, up to the choice of the fast path.\<close>

definition lb_take :: "std_hash \<Rightarrow> LoadBalancer \<Rightarrow> LoadBalancer res" where
  "lb_take sh lb =
     (let (job_opt, q) = tsq_popWithTimeout (lb_input_queue lb); lb = lb\<lparr>lb_input_queue := q\<rparr>
      in case job_opt of
           None \<Rightarrow>
             Inr (if \<not> lb_running lb \<and> tsq_empty (lb_input_queue lb) then lb\<lparr>lb_pc := Ended\<rparr> else lb)
         | Some job \<Rightarrow>
             rbind (selectFP sh (lb_num_fps lb) (pj_tuple job)) (\<lambda>fp_index.
               Inr (lb\<lparr>lb_packets_received := lb_packets_received lb + 1,
                       lb_pc := At_Push fp_index job\<rparr>)))"

text \<open>The second part: the push to the queue \<open>q\<close> of the chosen fast path; \<open>None\<close> while it waits.\<close>

definition lb_put :: "nat \<Rightarrow> PacketJob \<Rightarrow> LoadBalancer \<Rightarrow> PacketJob tsq \<Rightarrow> (LoadBalancer \<times> PacketJob tsq) option" where
  "lb_put fp_index job lb q =
     (case tsq_push job q of
        None \<Rightarrow> None
      | Some (_, q) \<Rightarrow>
          Some (lb\<lparr>lb_packets_dispatched := lb_packets_dispatched lb + 1,
                   lb_per_fp_counts := (lb_per_fp_counts lb)
                     [fp_index := lb_per_fp_counts lb ! fp_index + 1],
                   lb_pc := At_Pop\<rparr>, q))"

record LBStats =
  lbs_packets_received :: nat
  lbs_packets_dispatched :: nat
  lbs_per_fp_packets :: "nat list"

definition lb_getStats :: "LoadBalancer \<Rightarrow> LBStats" where
  "lb_getStats lb =
     \<lparr>lbs_packets_received = lb_packets_received lb, lbs_packets_dispatched = lb_packets_dispatched lb,
      lbs_per_fp_packets = lb_per_fp_counts lb\<rparr>"

section \<open>The manager\<close>

definition queue_ptr :: "nat list \<Rightarrow> int \<Rightarrow> nat res" where
  "queue_ptr fp_queues i =
     (if 0 \<le> i \<and> i < int (length fp_queues) then Inr (fp_queues ! nat i) else Inl OutOfBounds)"

definition new_lb_manager :: "int \<Rightarrow> int \<Rightarrow> nat list \<Rightarrow> LoadBalancer list res" where
  "new_lb_manager num_lbs fps_per_lb fp_queues =
     rmap (\<lambda>lb_id.
         let fp_start = lb_id * fps_per_lb in
         rbind (rmap (\<lambda>i. queue_ptr fp_queues (fp_start + i)) [0..fps_per_lb - 1])
           (\<lambda>lb_fp_queues. Inr (new_load_balancer lb_id lb_fp_queues fp_start)))
       [0..num_lbs - 1]"

definition lbm_startAll :: "LoadBalancer list \<Rightarrow> LoadBalancer list" where
  "lbm_startAll = map lb_start"

definition lbm_stopAll :: "LoadBalancer list \<Rightarrow> LoadBalancer list" where
  "lbm_stopAll = map lb_stop"

text \<open>The number of the chosen load balancer.\<close>

definition getLBForPacket :: "std_hash \<Rightarrow> LoadBalancer list \<Rightarrow> FiveTuple \<Rightarrow> nat res" where
  "getLBForPacket sh lbs tuple =
     (if lbs = [] then Inl DivisionByZero
      else Inr (unat (FiveTupleHash sh tuple) mod length lbs))"

definition lbm_getAggregatedStats :: "LoadBalancer list \<Rightarrow> nat \<times> nat" where
  "lbm_getAggregatedStats lbs =
     foldl (\<lambda>(total_received, total_dispatched) lb. let lb_stats = lb_getStats lb in
        (total_received + lbs_packets_received lb_stats, total_dispatched + lbs_packets_dispatched lb_stats))
       (0, 0) lbs"

section \<open>The route of a packet\<close>

definition routed_to :: "std_hash \<Rightarrow> LoadBalancer list \<Rightarrow> FiveTuple \<Rightarrow> nat res" where
  "routed_to sh lbs tuple =
     rbind (getLBForPacket sh lbs tuple) (\<lambda>l.
     rbind (selectFP sh (lb_num_fps (lbs ! l)) tuple) (\<lambda>fp_index. Inr (lb_fp_queues (lbs ! l) ! fp_index)))"

definition route :: "std_hash \<Rightarrow> nat \<Rightarrow> nat \<Rightarrow> FiveTuple \<Rightarrow> nat" where
  "route sh num_lbs fps_per_lb tuple =
     (let h = unat (FiveTupleHash sh tuple) in (h mod num_lbs) * fps_per_lb + h mod fps_per_lb)"

text \<open>The load balancers the engine creates for the queues of its fast paths.\<close>

definition standard_lbs :: "nat \<Rightarrow> nat \<Rightarrow> LoadBalancer list" where
  "standard_lbs L F =
     map (\<lambda>l. new_load_balancer (int l) [l * F..<l * F + F] (int (l * F))) [0..<L]"

lemma upto_nat: "[0..int n - 1] = map int [0..<n]"
proof (induction n)
  case (Suc n)
  have "[0..int n] = [0..int n - 1] @ [int n]" by (simp add: upto_rec2)
  with Suc show ?case by simp
qed simp

lemma rmap_map: "rmap f (map g xs) = rmap (f \<circ> g) xs"
  by (induction xs) auto

lemma new_lb_manager_standard: "new_lb_manager (int L) (int F) [0..<L * F] = Inr (standard_lbs L F)"
proof -
  have fps: "rmap ((\<lambda>i. queue_ptr [0..<L * F] (int l * int F + i)) \<circ> int) [0..<F] = Inr [l * F..<l * F + F]"
    if "l < L" for l
  proof -
    have "(l + 1) * F \<le> L * F" using that by (intro mult_right_mono) simp_all
    then have "l * F + i < L * F" if "i < F" for i using that by (simp add: algebra_simps)
    then have "queue_ptr [0..<L * F] (int l * int F + int i) = Inr (l * F + i)" if "i < F" for i
      using that by (auto simp: queue_ptr_def nat_add_distrib simp flip: of_nat_mult of_nat_add)
    then have "rmap ((\<lambda>i. queue_ptr [0..<L * F] (int l * int F + i)) \<circ> int) [0..<F] =
        Inr (map (\<lambda>i. l * F + i) [0..<F])"
      by (intro rmap_Inr) simp
    then show ?thesis by (simp add: map_add_upt add.commute)
  qed
  show ?thesis
    unfolding new_lb_manager_def upto_nat rmap_map standard_lbs_def
    by (rule rmap_Inr) (simp add: Let_def fps)
qed

lemma standard_lbs_simps [simp]:
  "length (standard_lbs L F) = L"
  "l < L \<Longrightarrow> standard_lbs L F ! l = new_load_balancer (int l) [l * F..<l * F + F] (int (l * F))"
  by (simp_all add: standard_lbs_def)

lemma routed_to_standard:
  assumes "0 < L" and "0 < F"
  shows "routed_to sh (standard_lbs L F) t = Inr (route sh L F t)"
proof -
  have "standard_lbs L F \<noteq> []" using assms(1) by (simp flip: length_0_conv)
  with assms show ?thesis
    by (simp add: routed_to_def getLBForPacket_def selectFP_def route_def Let_def new_load_balancer_def)
qed

lemma route_reverse: "route sh L F (ft_reverse t) = route sh L F t"
  by (simp add: route_def FiveTupleHash_reverse)

lemma route_less: "0 < L \<Longrightarrow> 0 < F \<Longrightarrow> route sh L F t < L * F"
proof -
  assume pos: "0 < L" "0 < F"
  let ?h = "unat (FiveTupleHash sh t)"
  have "Suc (?h mod L) * F \<le> L * F" using pos by (intro mult_right_mono) (auto simp: Suc_le_eq)
  moreover have "?h mod F < F" using pos by simp
  ultimately show ?thesis by (simp add: route_def Let_def)
qed

lemma route_lcm: "route sh L F t \<in> (\<lambda>r. (r mod L) * F + r mod F) ` {..<lcm L F}" if "0 < L" "0 < F"
proof -
  let ?h = "unat (FiveTupleHash sh t)"
  have "route sh L F t = (?h mod lcm L F mod L) * F + ?h mod lcm L F mod F"
    by (simp add: route_def Let_def mod_mod_cancel)
  moreover have "?h mod lcm L F < lcm L F" using that by (simp add: lcm_pos_nat)
  ultimately show ?thesis by blast
qed

text \<open>
  Both directions of a flow are handed to the same load balancer and by it to the same fast path,
  which exists, whatever the hash functions of the platform; so one tracker sees the whole flow.
\<close>

theorem flow_stays_on_one_fast_path:
  assumes "0 < L" and "0 < F" and "new_lb_manager (int L) (int F) [0..<L * F] = Inr lbs"
  shows "\<exists>fp < L * F. routed_to sh lbs t = Inr fp \<and> routed_to sh lbs (ft_reverse t) = Inr fp"
  using assms route_less [of L F sh t]
  by (auto simp: new_lb_manager_standard routed_to_standard route_reverse)

definition sample_hash :: std_hash where
  "sample_hash = \<lparr>hash_u8 = ucast, hash_u16 = ucast, hash_u32 = ucast\<rparr>"

definition sample_tuple :: FiveTuple where
  "sample_tuple = \<lparr>ft_src_ip = 0x0100000A, ft_dst_ip = 0x0200000A, ft_src_port = 1234,
     ft_dst_port = 80, ft_protocol = 6\<rparr>"

lemma flow_stays_on_one_fast_path_witness:
  "\<exists>fp < 2 * 2. routed_to sample_hash (standard_lbs 2 2) sample_tuple = Inr fp \<and>
     routed_to sample_hash (standard_lbs 2 2) (ft_reverse sample_tuple) = Inr fp"
  by (rule flow_stays_on_one_fast_path [OF _ _ new_lb_manager_standard]) simp_all

text \<open>
  C32. The load balancer and the fast path within it are chosen by the same hash value, so of the
  \<open>L * F\<close> fast paths at most \<open>lcm L F\<close> ever receive a packet; with as many fast paths per load
  balancer as load balancers (the default is two and two) only the fast paths \<open>l * F + l\<close> do.
\<close>

theorem idle_fast_paths:
  assumes "0 < L" and "0 < F" and "new_lb_manager (int L) (int F) [0..<L * F] = Inr lbs"
  shows "card {fp. \<exists>t. routed_to sh lbs t = Inr fp} \<le> lcm L F \<and>
     (L = F \<longrightarrow> {fp. \<exists>t. routed_to sh lbs t = Inr fp} \<subseteq> {l * F + l |l. l < L})"
proof -
  have lbs: "lbs = standard_lbs L F" using assms(3) by (simp add: new_lb_manager_standard)
  have reached: "{fp. \<exists>t. routed_to sh lbs t = Inr fp} = range (route sh L F)"
    by (auto simp: lbs routed_to_standard [OF assms(1,2)])
  have "range (route sh L F) \<subseteq> (\<lambda>r. (r mod L) * F + r mod F) ` {..<lcm L F}"
    using route_lcm [OF assms(1,2)] by auto
  then have "card (range (route sh L F)) \<le> lcm L F"
    using card_mono [OF finite_imageI [OF finite_lessThan]] card_image_le [OF finite_lessThan]
    by (metis card_lessThan le_trans)
  moreover have "route sh L F t \<in> {l * F + l |l. l < L}" if "L = F" for t
    using assms(1) that by (auto simp: route_def Let_def)
  ultimately show ?thesis unfolding reached by blast
qed

lemma idle_fast_paths_witness:
  "\<nexists>t. routed_to sample_hash (standard_lbs 2 2) t = Inr 1 \<or> routed_to sample_hash (standard_lbs 2 2) t = Inr 2"
proof -
  have "{fp. \<exists>t. routed_to sample_hash (standard_lbs 2 2) t = Inr fp} \<subseteq> {l * 2 + l |l. l < 2}"
    using idle_fast_paths [OF _ _ new_lb_manager_standard [of 2 2]] by simp
  also have "\<dots> = {0, 3}" by (auto simp: less_2_cases_iff)
  finally show ?thesis by auto
qed

end
