(* ===== verification/Parser_Pool.thy ===== *)
theory Parser_Pool
  imports Load_Balancer
begin

text \<open>
  The parser workers: \<open>RawPacketJob\<close>, \<open>ParserWorker\<close> and \<open>ParserManager\<close> of
  \<open>include/parser_pool.h\<close> and \<open>src/parser_pool.cpp\<close>. The raw packet queue is shared by the workers
  and is an argument of their step. Like a load balancer, a worker is a small automaton that holds its
  packet while the push to a full queue waits.
\<close>

section \<open>State\<close>

record RawPacketJob =
  rj_packet_id :: u32
  rj_ts_sec :: u32
  rj_ts_usec :: u32
  rj_data :: bytes

datatype pw_pc = PW_Pop | PW_Push nat PacketJob | PW_Ended

record ParserStats =
  total_parsed :: nat
  total_errors :: nat

record ParserWorker =
  pw_parser_id :: int
  pw_running :: bool
  pw_stats :: ParserStats
  pw_pc :: pw_pc

definition new_parser_worker :: "int \<Rightarrow> ParserWorker" where
  "new_parser_worker i =
     \<lparr>pw_parser_id = i, pw_running = False, pw_stats = \<lparr>total_parsed = 0, total_errors = 0\<rparr>,
      pw_pc = PW_Pop\<rparr>"

definition pw_start :: "ParserWorker \<Rightarrow> ParserWorker" where
  "pw_start w = (if pw_running w then w else w\<lparr>pw_running := True\<rparr>)"

text \<open>\<open>stop\<close> up to the join of the thread.\<close>

definition pw_stop :: "ParserWorker \<Rightarrow> ParserWorker" where
  "pw_stop w = (if \<not> pw_running w then w else w\<lparr>pw_running := False\<rparr>)"

section \<open>From a parsed packet to a job\<close>

text \<open>\<open>PacketJob job;\<close>: the members without initialiser, which stand for 0 here, are written before use.\<close>

definition empty_job :: PacketJob where
  "empty_job =
     \<lparr>pj_packet_id = 0,
      pj_tuple = \<lparr>ft_src_ip = 0, ft_dst_ip = 0, ft_src_port = 0, ft_dst_port = 0, ft_protocol = 0\<rparr>,
      pj_flow_key = \<lparr>fk_src_addr = IPv4Addr 0, fk_dst_addr = IPv4Addr 0, fk_src_port = 0,
        fk_dst_port = 0, fk_protocol = 0\<rparr>,
      pj_has_flow_key = False, pj_tcp_seq_number = 0, pj_data = [], pj_eth_offset = 0,
      pj_ip_offset = 0, pj_transport_offset = 0, pj_payload_offset = 0, pj_payload_length = 0,
      pj_tcp_flags = 0, pj_ts_sec = 0, pj_ts_usec = 0\<rparr>"

definition job_offsets :: "ParsedPacket \<Rightarrow> PacketJob \<Rightarrow> PacketJob res" where
  "job_offsets parsed job =
     (if length (pj_data job) > 14 then
        rbind (rd (pj_data job) 14) (\<lambda>b.
          let ip_ihl = b AND 0x0F;
              job = job\<lparr>pj_transport_offset := 14 + unat ip_ihl * 4\<rparr>
          in rbind
            (if pp_has_tcp parsed \<and> length (pj_data job) > pj_transport_offset job then
               rbind (rd (pj_data job) (pj_transport_offset job + 12)) (\<lambda>b.
                 let tcp_data_offset = drop_bit 4 b AND 0x0F
                 in Inr (job\<lparr>pj_payload_offset := pj_transport_offset job + unat tcp_data_offset * 4\<rparr>))
             else if pp_has_udp parsed then Inr (job\<lparr>pj_payload_offset := pj_transport_offset job + 8\<rparr>)
             else Inr job)
            (\<lambda>job.
               Inr (if pj_payload_offset job < length (pj_data job)
                    then job\<lparr>pj_payload_length := length (pj_data job) - pj_payload_offset job\<rparr>
                    else job)))
      else Inr job)"

definition createPacketJob :: "RawPacket \<Rightarrow> ParsedPacket \<Rightarrow> u32 \<Rightarrow> PacketJob res" where
  "createPacketJob raw parsed packet_id =
     (let job = empty_job
            \<lparr>pj_packet_id := packet_id, pj_ts_sec := ts_sec (rp_header raw), pj_ts_usec := ts_usec (rp_header raw),
             pj_tuple := \<lparr>ft_src_ip = pp_src_ip_raw parsed, ft_dst_ip = pp_dst_ip_raw parsed,
               ft_src_port = pp_src_port parsed, ft_dst_port = pp_dest_port parsed,
               ft_protocol = pp_protocol parsed\<rparr>\<rparr>;
          job =
            (if pp_has_ipv6 parsed then
               job\<lparr>pj_flow_key := fromIPv6 (pp_src_ipv6 parsed) (pp_dst_ipv6 parsed) (pp_src_port parsed)
                     (pp_dest_port parsed) (pp_protocol parsed), pj_has_flow_key := True\<rparr>
             else if pp_has_ip parsed then
               job\<lparr>pj_flow_key := fromFiveTuple (pj_tuple job), pj_has_flow_key := True\<rparr>
             else job)
      in job_offsets parsed
           (job\<lparr>pj_tcp_flags := pp_tcp_flags parsed, pj_tcp_seq_number := pp_seq_number parsed,
                pj_data := rp_data raw, pj_eth_offset := 0, pj_ip_offset := 14\<rparr>))"

section \<open>The thread\<close>

definition raw_packet :: "RawPacketJob \<Rightarrow> RawPacket" where
  "raw_packet rj =
     \<lparr>rp_header = \<lparr>ts_sec = rj_ts_sec rj, ts_usec = rj_ts_usec rj,
        incl_len = of_nat (length (rj_data rj)), orig_len = of_nat (length (rj_data rj))\<rparr>,
      rp_data = rj_data rj\<rparr>"

text \<open>The job a raw packet becomes; \<open>None\<close> when the parser rejects it.\<close>

definition job_of :: "bool \<Rightarrow> RawPacketJob \<Rightarrow> PacketJob option res" where
  "job_of le rj =
     rbind (parse le (raw_packet rj)) (\<lambda>(parse_success, parsed).
       if parse_success then
         rbind (createPacketJob (raw_packet rj) parsed (rj_packet_id rj)) (\<lambda>job. Inr (Some job))
       else Inr None)"

text \<open>
  The first part of a round of \<open>run\<close>: \<open>lb_selector\<close> yields the number of the load balancer.
\<close>

definition pw_take ::
  "bool \<Rightarrow> (FiveTuple \<Rightarrow> nat res) \<Rightarrow> ParserWorker \<Rightarrow> RawPacketJob tsq \<Rightarrow> (ParserWorker \<times> RawPacketJob tsq) res" where
  "pw_take le lb_selector w q =
     (let (raw_opt, q) = tsq_popWithTimeout q
      in case raw_opt of
           None \<Rightarrow> Inr (if \<not> pw_running w \<and> tsq_empty q then w\<lparr>pw_pc := PW_Ended\<rparr> else w, q)
         | Some raw \<Rightarrow>
             rbind (job_of le raw) (\<lambda>job_opt. case job_opt of
                 Some job \<Rightarrow>
                   rbind (lb_selector (pj_tuple job)) (\<lambda>lb. Inr (w\<lparr>pw_pc := PW_Push lb job\<rparr>, q))
               | None \<Rightarrow>
                   Inr (w\<lparr>pw_stats := pw_stats w\<lparr>total_errors := total_errors (pw_stats w) + 1\<rparr>\<rparr>, q)))"

text \<open>The second part: the push to the input queue \<open>q\<close> of that load balancer.\<close>

definition pw_put :: "PacketJob \<Rightarrow> ParserWorker \<Rightarrow> PacketJob tsq \<Rightarrow> (ParserWorker \<times> PacketJob tsq) option" where
  "pw_put job w q =
     (case tsq_push job q of
        None \<Rightarrow> None
      | Some (_, q) \<Rightarrow>
          Some (w\<lparr>pw_stats := pw_stats w\<lparr>total_parsed := total_parsed (pw_stats w) + 1\<rparr>,
                  pw_pc := PW_Pop\<rparr>, q))"

section \<open>The manager\<close>

definition new_parser_manager :: "int \<Rightarrow> ParserWorker list" where
  "new_parser_manager num_workers =
     (let num_workers = (if num_workers < 1 then 1 else num_workers)
      in map new_parser_worker [0..num_workers - 1])"

definition pm_startAll :: "ParserWorker list \<Rightarrow> ParserWorker list" where
  "pm_startAll = map pw_start"

definition pm_stopAll :: "ParserWorker list \<Rightarrow> ParserWorker list" where
  "pm_stopAll = map pw_stop"

definition pm_getAggregatedStats :: "ParserWorker list \<Rightarrow> ParserStats" where
  "pm_getAggregatedStats workers =
     foldl (\<lambda>total w. let st = pw_stats w in
        \<lparr>total_parsed = total_parsed total + total_parsed st,
         total_errors = total_errors total + total_errors st\<rparr>)
       \<lparr>total_parsed = 0, total_errors = 0\<rparr> workers"

section \<open>The offsets of a job\<close>

text \<open>Where the parser ends when the transport header starts at \<open>t\<close>.\<close>

definition layout :: "bytes \<Rightarrow> nat \<Rightarrow> ParsedPacket \<Rightarrow> nat \<Rightarrow> bool" where
  "layout p t pk off \<longleftrightarrow>
     off \<le> length p \<and>
     (pp_has_tcp pk \<longrightarrow> t + 20 \<le> length p \<and> off = t + unat (drop_bit 4 (p ! (t + 12)) AND 0x0F) * 4) \<and>
     (pp_has_udp pk \<longrightarrow> \<not> pp_has_tcp pk \<and> off = t + 8)"

lemma layout_payload [simp]: "layout p t (pk\<lparr>pp_payload_length := n, pp_payload_data := d\<rparr>) off = layout p t pk off"
  by (simp add: layout_def)

lemma parse_transport4_layout:
  assumes "no_transport pk" and "t \<le> length p"
  shows "wp (parse_transport4 le p (length p) pk t)
    (\<lambda>(ok, pk', off). pp_ip_version pk' = pp_ip_version pk \<and> (ok \<longrightarrow> layout p t pk' off))"
  using assms unfolding parse_transport4_def parseTCP_def parseUDP_def parseICMP_def
  by (auto simp: wp_simps Let_def no_transport_def layout_def)

lemma parseIPv4_layout:
  assumes "link_stage pk"
  shows "wp (parseIPv4 le p (length p) pk 14)
    (\<lambda>(ok, pk', off). if ok then ip_stage pk' \<and> pp_ip_version pk' = 4 \<and> 14 < length p \<and>
       off = 14 + unat (p ! 14 AND 0x0F) * 4 \<and> off \<le> length p else link_stage pk')"
  using assms unfolding parseIPv4_def by (auto simp: wp_simps stage_defs Let_def)

lemma parse_transport6_version:
  assumes "pp_ip_version pk = 6"
  shows "wp (parse_transport6 le p (length p) pk off) (\<lambda>(ok, pk', off). pp_ip_version pk' = 6)"
  using assms unfolding parse_transport6_def parseTCP_def parseUDP_def parseICMPv6_def
  by (auto simp: wp_simps Let_def)

lemma parse_layers_layout:
  assumes "link_stage pk"
  shows "wp (parse_layers le p (length p) pk) (\<lambda>(ok, pk', off). ok \<longrightarrow> pp_ip_version pk' = 4 \<longrightarrow>
    14 < length p \<and> layout p (14 + unat (p ! 14 AND 0x0F) * 4) pk' off)"
  unfolding parse_layers_def
  by (rule wp_or_return, rule wp_mono [OF parseEthernet_wp [OF assms]])
    (auto simp: wp_simps link_stage_wf ip_stage_def link_stage_def
      intro!: wp_or_return wp_mono [OF parseIPv4_layout] wp_mono [OF parseIPv6_wp]
        wp_mono [OF parse_transport4_layout] wp_mono [OF parse_transport6_version])

lemma parse_layout:
  assumes "parse le raw = Inr (True, pk)" and "pp_ip_version pk = 4" and "p = rp_data raw"
  shows "\<exists>off. 14 < length p \<and> layout p (14 + unat (p ! 14 AND 0x0F) * 4) pk off \<and>
    pp_payload_length pk = length p - off \<and> pp_payload_data pk = drop off p"
proof -
  have "wp (parse le raw) (\<lambda>(ok, pk). ok \<longrightarrow> pp_ip_version pk = 4 \<longrightarrow>
    (\<exists>off. 14 < length p \<and> layout p (14 + unat (p ! 14 AND 0x0F) * 4) pk off \<and>
      pp_payload_length pk = length p - off \<and> pp_payload_data pk = drop off p))"
    unfolding parse_def Let_def assms(3)
    by (auto simp: wp_simps no_payload_def layout_def
        intro!: wp_mono [OF wp_conj [OF parse_layers_wp [OF link_stage_empty] parse_layers_layout [OF link_stage_empty]]])
  then show ?thesis using assms(1,2) by (simp add: wp_simps)
qed

definition tuple_of :: "ParsedPacket \<Rightarrow> FiveTuple" where
  "tuple_of pk = \<lparr>ft_src_ip = pp_src_ip_raw pk, ft_dst_ip = pp_dst_ip_raw pk, ft_src_port = pp_src_port pk,
     ft_dst_port = pp_dest_port pk, ft_protocol = pp_protocol pk\<rparr>"

text \<open>What the offsets do not depend on.\<close>

definition carries :: "RawPacket \<Rightarrow> ParsedPacket \<Rightarrow> u32 \<Rightarrow> PacketJob \<Rightarrow> bool" where
  "carries raw pk n job \<longleftrightarrow>
     pj_packet_id job = n \<and> pj_data job = rp_data raw \<and> pj_tuple job = tuple_of pk \<and>
     pj_ts_sec job = ts_sec (rp_header raw) \<and> pj_ts_usec job = ts_usec (rp_header raw) \<and>
     pj_tcp_flags job = pp_tcp_flags pk \<and> pj_tcp_seq_number job = pp_seq_number pk \<and>
     pj_has_flow_key job = (pp_has_ipv6 pk \<or> pp_has_ip pk) \<and>
     (pj_has_flow_key job \<longrightarrow> pj_flow_key job =
        (if pp_has_ipv6 pk
         then fromIPv6 (pp_src_ipv6 pk) (pp_dst_ipv6 pk) (pp_src_port pk) (pp_dest_port pk) (pp_protocol pk)
         else fromFiveTuple (tuple_of pk)))"

lemma job_offsets_eq:
  assumes "14 < length (pj_data job)"
  shows "job_offsets pk job =
    (let t = 14 + unat (pj_data job ! 14 AND 0x0F) * 4
     in rbind (if pp_has_tcp pk \<and> t < length (pj_data job) then
                 rbind (rd (pj_data job) (t + 12)) (\<lambda>b. Inr (t + unat (drop_bit 4 b AND 0x0F) * 4))
               else Inr (if pp_has_udp pk then t + 8 else pj_payload_offset job))
          (\<lambda>off. Inr (job\<lparr>pj_transport_offset := t, pj_payload_offset := off, pj_payload_length :=
             (if off < length (pj_data job) then length (pj_data job) - off else pj_payload_length job)\<rparr>)))"
proof -
  obtain b where b: "rd (pj_data job) 14 = Inr b" "pj_data job ! 14 = b" using assms by simp
  define t where "t = 14 + unat (b AND 0x0F) * 4"
  show ?thesis
    unfolding job_offsets_def b rbind.simps Let_def t_def [symmetric] if_P [OF assms]
    by (cases "pp_has_tcp pk"; cases "t < length (pj_data job)"; cases "pp_has_udp pk";
        cases "rd (pj_data job) (t + 12)") simp_all
qed

lemma job_offsets_short: "length (pj_data job) \<le> 14 \<Longrightarrow> job_offsets pk job = Inr job"
  unfolding job_offsets_def by (subst if_not_P) simp_all

lemma job_offsets_cases:
  assumes "job_offsets pk job = Inr job'"
  obtains "job' = job" "length (pj_data job) \<le> 14"
  | t off where "job' = job\<lparr>pj_transport_offset := t, pj_payload_offset := off,
      pj_payload_length := (if off < length (pj_data job) then length (pj_data job) - off else pj_payload_length job)\<rparr>"
proof (cases "14 < length (pj_data job)")
  case True
  with assms that(2) show thesis unfolding job_offsets_eq [OF True] Let_def rbind_Inr_iff by blast
next
  case False
  then have short: "length (pj_data job) \<le> 14" by simp
  with assms job_offsets_short [OF short, of pk] have "job' = job" by simp
  with short show thesis by (rule that(1) [rotated])
qed

lemma createPacketJob_carries:
  assumes "createPacketJob raw pk n = Inr job"
  shows "carries raw pk n job"
    and "length (rp_data raw) > 14 \<Longrightarrow> pj_payload_length job = length (rp_data raw) - pj_payload_offset job"
  using assms unfolding createPacketJob_def Let_def
  by (auto simp: carries_def tuple_of_def empty_job_def elim!: job_offsets_cases split: if_splits)

text \<open>With the layout the parser found the reads stay inside the packet and the offsets are the parser's.\<close>

lemma createPacketJob_layout:
  assumes "layout p (14 + unat (p ! 14 AND 0x0F) * 4) pk off" and "14 < length p" and "p = rp_data raw"
  shows "\<exists>job. createPacketJob raw pk n = Inr job \<and>
    (pp_has_tcp pk \<or> pp_has_udp pk \<longrightarrow> pj_payload_offset job = off)"
  using assms(1,2)
  by (auto simp: createPacketJob_def job_offsets_def Let_def layout_def assms(3) [symmetric])

lemma ipv4_job:
  assumes "parse le raw = Inr (True, pk)" and "pp_ip_version pk = 4"
  shows "\<exists>job. createPacketJob raw pk n = Inr job \<and> proper_job job \<and> carries raw pk n job \<and>
    pj_flow_key job = fromFiveTuple (tuple_of pk) \<and>
    (pp_has_tcp pk \<or> pp_has_udp pk \<longrightarrow>
       pj_payload_length job = pp_payload_length pk \<and>
       getPayload job = (if pp_payload_data pk = [] then None else Some (pp_payload_data pk)))"
proof -
  have wf: "wf_parsed pk"
    using parse_wf assms(1) by blast
  from parse_layout [OF assms refl] obtain off where p: "14 < length (rp_data raw)"
    and l: "layout (rp_data raw) (14 + unat (rp_data raw ! 14 AND 0x0F) * 4) pk off"
    and pay: "pp_payload_length pk = length (rp_data raw) - off" "pp_payload_data pk = drop off (rp_data raw)"
    by blast
  from createPacketJob_layout [OF l p refl] obtain job where job: "createPacketJob raw pk n = Inr job"
    and off: "pp_has_tcp pk \<or> pp_has_udp pk \<longrightarrow> pj_payload_offset job = off"
    by blast
  note c = createPacketJob_carries [OF job]
  have "pp_has_ip pk" "\<not> pp_has_ipv6 pk" using wf assms(2) by (simp_all add: wf_parsed_def)
  then show ?thesis
    using job c off p pay by (auto simp: carries_def proper_job_def getPayload_def)
qed

text \<open>
  C30. For every IPv4 packet the parser accepts, the job is made without a read outside the packet; it
  carries the flow key of the parsed tuple, and for TCP and UDP the payload it exposes to the fast path
  is the payload the parser found, so the offsets computed a second time agree with the first time.
\<close>

theorem ipv4_job_matches_parser:
  assumes "parse le raw = Inr (True, pk)" and "pp_ip_version pk = 4"
  shows "\<exists>job. createPacketJob raw pk n = Inr job \<and> proper_job job \<and> carries raw pk n job \<and>
    pj_flow_key job = fromFiveTuple (tuple_of pk) \<and>
    (pp_has_tcp pk \<or> pp_has_udp pk \<longrightarrow>
       pj_payload_length job = pp_payload_length pk \<and>
       getPayload job = (if pp_payload_data pk = [] then None else Some (pp_payload_data pk)))"
  using assms by (rule ipv4_job)

lemma ipv4_job_matches_parser_witness:
  "\<exists>pk job. parse True sample_frame = Inr (True, pk) \<and> createPacketJob sample_frame pk 0 = Inr job \<and>
     proper_job job \<and> getPayload job = Some [22, 3, 1]"
proof -
  obtain pk where pk: "parse True sample_frame = Inr (True, pk)" "pp_has_tcp pk" "pp_ip_version pk = 4"
    "pp_payload_data pk = [22, 3, 1]"
    using tcp4_frame_parsed [of sample_segment sample_ip "[1, 2, 3, 4, 5, 6]" "[6, 5, 4, 3, 2, 1]" sample_frame True]
    by (auto simp: wf_segment_def wf_ipv4_packet_def sample_frame_def Let_def sample_ip_def sample_segment_def)
  then show ?thesis using ipv4_job_matches_parser [OF pk(1,3), of 0] by auto
qed

text \<open>
  The same code reads the header length of an IPv4 header from IPv6 packets too. With the first
  byte \<open>0x6F\<close> it takes the transport header to start at offset 74, and for an accepted TCP packet of 75
  to 86 bytes it reads the TCP data offset from beyond the end of the packet.
\<close>

theorem ipv6_job_reads_out_of_bounds:
  assumes "parse le raw = Inr (True, pk)" and "pp_has_tcp pk" and "rp_data raw ! 14 = 0x6F"
    and "75 \<le> length (rp_data raw)" and "length (rp_data raw) \<le> 86"
  shows "createPacketJob raw pk n = Inl OutOfBounds"
proof -
  have "unat ((0x6F :: u8) AND 0x0F) * 4 = 60" by code_simp
  with assms(2-) show ?thesis
    by (simp add: createPacketJob_def job_offsets_def Let_def)
qed

text \<open>The sample: an IPv6 header with traffic class \<open>0xF0\<close>, a TCP header and one byte of payload.\<close>

definition ipv6_header_bytes :: bytes where
  "ipv6_header_bytes = [0x6F, 0, 0, 0, 0, 21, 6, 64] @ replicate 16 1 @ replicate 16 2"

definition sample_segment6 :: tcp_segment where
  "sample_segment6 = \<lparr>sg_src_port = 50000, sg_dst_port = 443, sg_seq = 1000, sg_ack = 0, sg_reserved = 0,
     sg_flags = 0x18, sg_window_checksum_urgent = [1, 2, 3, 4, 0, 0], sg_options = [], sg_payload = [22]\<rparr>"

definition sample_frame6 :: RawPacket where
  "sample_frame6 =
     \<lparr>rp_header = \<lparr>ts_sec = 0, ts_usec = 0, incl_len = 75, orig_len = 75\<rparr>,
      rp_data = ethernet_bytes (replicate 6 1) (replicate 6 2) 0x86DD @ ipv6_header_bytes @
        tcp_header_bytes sample_segment6 @ [22]\<rparr>"

lemma parseIPv6_header:
  "\<exists>pk'. parseIPv6 le (pre @ ipv6_header_bytes @ post) (length pre + 40 + length post) pk (length pre) =
      Inr (True, pk', length pre + 40) \<and> pp_protocol pk' = 6"
proof -
  define q where "q = ipv6_header_bytes @ post"
  have reads: "rd q 0 = Inr 0x6F" "rd q 1 = Inr 0" "rd q 2 = Inr 0" "rd q 3 = Inr 0" "rd q 6 = Inr 6"
    "rd q 7 = Inr 64" "\<exists>b. rd_bytes q 8 16 = Inr b" "\<exists>b. rd_bytes q 24 16 = Inr b"
    unfolding q_def ipv6_header_bytes_def by (simp_all add: rd_def rd_bytes_def)
  have near: "rd (pre @ q) (Suc (length pre)) = Inr 0" "rd (pre @ q) (Suc (Suc (length pre))) = Inr 0"
    using rd_append(2) [of pre q 1] rd_append(2) [of pre q 2] reads(2,3) by simp_all
  have walk: "walkIPv6ExtHeaders le data len off 6 p = Inr (6, p, off)" for data len off p
    using walk_loop.simps(2) [of 9 le data len off 6 p] by (simp add: walkIPv6ExtHeaders_def isExtHeader_def)
  have ver: "drop_bit 4 (0x6F :: u8) AND 0x0F = 6" by code_simp
  show ?thesis
    using reads near ver unfolding parseIPv6_def q_def [symmetric] by (auto simp: Let_def walk)
qed

lemma sample_frame6_bytes: "length (rp_data sample_frame6) = 75" "rp_data sample_frame6 ! 14 = 0x6F"
  by (simp_all add: ethernet_bytes_def store16_def ipv6_header_bytes_def tcp_header_bytes_def store32_def
      sample_segment6_def sample_frame6_def nth_append)

lemma sample_frame6_parsed:
  "\<exists>pk. parse True sample_frame6 = Inr (True, pk) \<and> pp_has_tcp pk \<and> pp_dest_port pk = 443 \<and> pp_payload_length pk = 1"
proof -
  let ?e = "ethernet_bytes (replicate 6 1) (replicate 6 2) 0x86DD" and ?t = "tcp_header_bytes sample_segment6"
  let ?pk = "empty_packet\<lparr>pp_timestamp_sec := 0, pp_timestamp_usec := 0, pp_dest_mac := mac_text (replicate 6 1),
      pp_src_mac := mac_text (replicate 6 2), pp_ether_type := 0x86DD\<rparr>"
  have len: "length ?e = 14" "length ipv6_header_bytes = 40" "length ?t = 20"
    by (simp_all add: ethernet_bytes_def store16_def ipv6_header_bytes_def tcp_header_bytes_def store32_def
        sample_segment6_def)
  obtain pk where ip: "parseIPv6 True (rp_data sample_frame6) 75 ?pk 14 = Inr (True, pk, 54)" "pp_protocol pk = 6"
    using parseIPv6_header [of True ?e "?t @ [22]" ?pk] len by (auto simp: sample_frame6_def)
  have "wf_segment sample_segment6" by (simp add: wf_segment_def sample_segment6_def)
  from parseTCP_bytes [OF this, of True "?e @ ipv6_header_bytes" "[22]" pk] obtain pk' where
    tcp: "parseTCP True (rp_data sample_frame6) 75 pk 54 = Inr (True, pk', 74)" "pp_has_tcp pk'"
    "pp_dest_port pk' = 443"
    using len by (auto simp: sample_frame6_def sample_segment6_def)
  have eth: "parseEthernet True (rp_data sample_frame6) 75 (empty_packet\<lparr>pp_timestamp_sec := 0, pp_timestamp_usec := 0\<rparr>) 0 =
      Inr (True, ?pk, 14)"
    using parseEthernet_bytes [of "replicate 6 1" "replicate 6 2" True "0x86DD" "ipv6_header_bytes @ ?t @ [22]"
        "empty_packet\<lparr>pp_timestamp_sec := 0, pp_timestamp_usec := 0\<rparr>"] len
    by (simp add: sample_frame6_def)
  have stamps: "rp_header sample_frame6 = \<lparr>ts_sec = 0, ts_usec = 0, incl_len = 75, orig_len = 75\<rparr>"
    by (simp add: sample_frame6_def)
  show ?thesis
    using eth ip tcp sample_frame6_bytes(1)
    by (simp add: parse_def parse_layers_def or_return_def parse_transport6_def Let_def stamps)
qed

lemma ipv6_job_reads_out_of_bounds_witness:
  "\<exists>pk. parse True sample_frame6 = Inr (True, pk) \<and> createPacketJob sample_frame6 pk 0 = Inl OutOfBounds"
  using sample_frame6_parsed sample_frame6_bytes ipv6_job_reads_out_of_bounds [of True sample_frame6] by auto

section \<open>Frames that are not IP\<close>

lemma parse_other_frame:
  assumes "length dst_mac = 6" and "length src_mac = 6" and "ty \<noteq> 0x0800" and "ty \<noteq> 0x86DD"
    and "rp_data raw = ethernet_bytes dst_mac src_mac ty @ rest"
  shows "\<exists>pk. parse le raw = Inr (True, pk) \<and> \<not> pp_has_ip pk \<and> \<not> pp_has_ipv6 pk \<and> no_transport pk"
  using parseEthernet_bytes [OF assms(1,2), where ty = ty and post = rest] assms
  by (simp add: parse_def parse_layers_def or_return_def Let_def empty_packet_def no_transport_def)

lemma createPacketJob_no_transport:
  assumes "no_transport pk"
  shows "\<exists>job. createPacketJob raw pk n = Inr job"
proof -
  have "\<exists>job'. job_offsets pk job = Inr job'" for job
    using assms job_offsets_short [of job pk]
    by (cases "14 < length (pj_data job)") (simp_all add: job_offsets_eq Let_def no_transport_def)
  then show ?thesis by (simp add: createPacketJob_def Let_def)
qed

text \<open>
  A frame that is not IP, such as an ARP request, is accepted by the parser and becomes a job
  without a flow key, for which the fast path reads its local \<open>FlowKey\<close> after the end of its lifetime.
\<close>

theorem non_ip_frame_dangles:
  assumes "length dst_mac = 6" and "length src_mac = 6" and "ty \<noteq> 0x0800" and "ty \<noteq> 0x86DD"
    and "rj_data rj = ethernet_bytes dst_mac src_mac ty @ rest"
  shows "\<exists>job. job_of le rj = Inr (Some job) \<and> processPacket now rm job fp = Inl DanglingPointer"
proof -
  from parse_other_frame [OF assms(1-4), of "raw_packet rj" rest le] assms(5) obtain pk where
    pk: "parse le (raw_packet rj) = Inr (True, pk)" "\<not> pp_has_ip pk" "\<not> pp_has_ipv6 pk" "no_transport pk"
    by (auto simp: raw_packet_def)
  from createPacketJob_no_transport [OF pk(4)] obtain job where
    job: "createPacketJob (raw_packet rj) pk (rj_packet_id rj) = Inr job" by blast
  then have "\<not> pj_has_flow_key job"
    using createPacketJob_carries(1) [OF job] pk(2,3) by (simp add: carries_def)
  then show ?thesis using pk(1) job by (simp add: job_of_def processPacket_def track_packet_def)
qed

definition arp_frame :: RawPacketJob where
  "arp_frame = \<lparr>rj_packet_id = 0, rj_ts_sec = 0, rj_ts_usec = 0,
     rj_data = ethernet_bytes (replicate 6 0xFF) (replicate 6 1) 0x0806 @ replicate 28 0\<rparr>"

lemma non_ip_frame_dangles_witness:
  "\<exists>job. job_of True arp_frame = Inr (Some job) \<and>
     processPacket 0 no_rules job (new_fast_path 0) = Inl DanglingPointer"
  by (rule non_ip_frame_dangles [of "replicate 6 0xFF" "replicate 6 1" "0x0806" arp_frame "replicate 28 0"])
    (simp_all add: arp_frame_def)

end
