(* ===== verification/Engine.thy ===== *)
theory Engine
  imports Parser_Pool
begin

text \<open>
  \<open>DPIEngine\<close> of \<open>include/dpi_engine.h\<close> and \<open>src/dpi_engine.cpp\<close>: the components put together, the
  threads as steps on one state, the shutdown sequence and the rule interface. A thread is its program
  counter; every step is one access to a shared queue or flag with the thread-local work around it. A
  call that waits has no step until it can go on. Console output is left out.
\<close>

section \<open>State\<close>

record Config =
  num_parser_workers :: int
  num_load_balancers :: int
  fps_per_lb :: int
  queue_size :: nat
  rules_file :: string
  verbose :: bool

record DPIStats =
  total_packets :: nat
  total_bytes :: nat
  forwarded_packets :: nat
  dropped_packets :: nat
  tcp_packets :: nat
  udp_packets :: nat
  other_packets :: nat
  active_connections :: nat

text \<open>
  The reader about to open a capture file with this content (\<open>None\<close>: it cannot be opened), at the top
  of its loop with the packets it has not read yet, or waiting to hand over a packet. A fast path at the
  top of its loop, with the time of its last clean-up, or in \<open>handleOutput\<close> waiting to hand over a
  packet. The main thread between the calls of \<open>waitForCompletion\<close> and \<open>stop\<close>.
\<close>

datatype reader_pc = Rd_Open "bytes option" | Rd_Loop "RawPacketJob list" | Rd_Push RawPacketJob "RawPacketJob list" | Rd_Done

datatype fp_pc = FP_Loop nat | FP_Output PacketJob nat | FP_Ended

datatype output_pc = Out_Test | Out_Pop | Out_Ended

datatype main_pc =
    M_Idle | M_JoinReader
  | M_StopParser nat | M_JoinParser nat | M_Stop
  | M_StopLB nat | M_JoinLB nat
  | M_StopFP nat | M_JoinFP nat
  | M_ShutdownOutput | M_JoinOutput | M_Done

record Engine =
  en_config :: Config
  en_rule_manager :: "RuleManager option"
  en_raw_packet_queue :: "RawPacketJob tsq"
  en_parsers :: "ParserWorker list"
  en_lbs :: "LoadBalancer list"
  en_fps :: "FastPath list"
  en_output_queue :: "PacketJob tsq"
  en_output_file :: "bytes option"
  en_stats :: DPIStats
  en_running :: bool
  en_processing_complete :: bool
  en_reads_file :: bool
  en_reader_pc :: reader_pc
  en_fp_pcs :: "fp_pc list"
  en_output_pc :: output_pc
  en_main_pc :: main_pc
  en_fault :: "cxx_fault option"

definition new_engine :: "Config \<Rightarrow> Engine" where
  "new_engine config =
     \<lparr>en_config = config, en_rule_manager = None, en_raw_packet_queue = new_queue (queue_size config),
      en_parsers = [], en_lbs = [], en_fps = [], en_output_queue = new_queue (queue_size config),
      en_output_file = None,
      en_stats = \<lparr>total_packets = 0, total_bytes = 0, forwarded_packets = 0, dropped_packets = 0,
        tcp_packets = 0, udp_packets = 0, other_packets = 0, active_connections = 0\<rparr>,
      en_running = False, en_processing_complete = False, en_reads_file = False,
      en_reader_pc = Rd_Done, en_fp_pcs = [], en_output_pc = Out_Ended, en_main_pc = M_Idle,
      en_fault = None\<rparr>"

section \<open>Construction and start\<close>

text \<open>
  \<open>files\<close> is the file system: the content of the file of a name, \<open>None\<close> when it cannot be opened. The
  global connection table, which holds pointers to the trackers of the fast paths, only serves its own
  report; a negative size makes its vector throw.
\<close>

definition initialize :: "(string \<Rightarrow> string option) \<Rightarrow> Engine \<Rightarrow> Engine res" where
  "initialize files en =
     (let config = en_config en in
      rbind (if rules_file config = [] then Inr no_rules
             else case files (rules_file config) of
                    None \<Rightarrow> Inr no_rules
                  | Some content \<Rightarrow> loadRules content no_rules)
        (\<lambda>rm.
          let total_fps = num_load_balancers config * fps_per_lb config;
              fps = new_fp_manager total_fps
          in rbind (new_lb_manager (num_load_balancers config) (fps_per_lb config) [0..<length fps])
               (\<lambda>lbs.
                 if total_fps < 0 then Inl LengthError
                 else Inr (en\<lparr>en_rule_manager := Some rm, en_fps := fps, en_lbs := lbs,
                        en_parsers := new_parser_manager (num_parser_workers config)\<rparr>))))"

text \<open>The threads begin; \<open>now\<close> is the time at which the fast paths start to count.\<close>

definition en_start :: "nat \<Rightarrow> Engine \<Rightarrow> Engine" where
  "en_start now en =
     (if en_running en then en
      else en\<lparr>en_running := True, en_processing_complete := False, en_output_pc := Out_Test,
              en_fps := fpm_startAll (en_fps en),
              en_fp_pcs := map (\<lambda>_. FP_Loop now) (en_fps en),
              en_lbs := lbm_startAll (en_lbs en),
              en_parsers := pm_startAll (en_parsers en)\<rparr>)"

text \<open>
  \<open>processFile\<close> up to the wait for the reader: \<open>input\<close> is the content of the input file, \<open>output_opens\<close>
  tells whether the output file can be created. The result is \<open>False\<close> when it cannot.
\<close>

definition processFile ::
  "nat \<Rightarrow> (string \<Rightarrow> string option) \<Rightarrow> bytes option \<Rightarrow> bool \<Rightarrow> Engine \<Rightarrow> (bool \<times> Engine) res" where
  "processFile now files input output_opens en =
     rbind (if en_rule_manager en = None then initialize files en else Inr en) (\<lambda>en.
       if \<not> output_opens then Inr (False, en)
       else Inr (True,
         (en_start now (en\<lparr>en_output_file := Some []\<rparr>))
           \<lparr>en_reads_file := True, en_reader_pc := Rd_Open input, en_main_pc := M_JoinReader\<rparr>))"

definition base_data :: bytes where
  "base_data =
     [0x00, 0x11, 0x22, 0x33, 0x44, 0x55, 0x66, 0x77, 0x88, 0x99, 0xaa, 0xbb, 0x08, 0x00,
      0x45, 0x00, 0x00, 0x28, 0x00, 0x00, 0x40, 0x00, 0x40, 0x06, 0x00, 0x00,
      0x0a, 0x00, 0x00, 0x01, 0x0a, 0x00, 0x00, 0x02,
      0x04, 0xd2, 0x00, 0x50, 0x00, 0x00, 0x00, 0x00, 0x00, 0x00, 0x00, 0x00,
      0x50, 0x02, 0x20, 0x00, 0x00, 0x00, 0x00, 0x00]"

definition synthetic_dataset :: "nat \<Rightarrow> RawPacketJob list" where
  "synthetic_dataset num_packets =
     map (\<lambda>i. \<lparr>rj_packet_id = of_nat i, rj_ts_sec = 0, rj_ts_usec = of_nat i,
                rj_data = base_data[34 + 7 := of_nat (i mod 256), 29 := of_nat (i mod 100 + 1)]\<rparr>)
       [0..<num_packets]"

definition processSynthetic ::
  "nat \<Rightarrow> (string \<Rightarrow> string option) \<Rightarrow> RawPacketJob list \<Rightarrow> Engine \<Rightarrow> Engine res" where
  "processSynthetic now files dataset en =
     rbind (if en_rule_manager en = None then initialize files en else Inr en) (\<lambda>en.
       Inr ((en_start now en)
         \<lparr>en_reads_file := False, en_reader_pc := Rd_Loop dataset, en_main_pc := M_JoinReader\<rparr>))"

section \<open>The reader\<close>

definition writeOutputHeader :: "bool \<Rightarrow> PcapGlobalHeader \<Rightarrow> Engine \<Rightarrow> Engine" where
  "writeOutputHeader le header en =
     (case en_output_file en of
        None \<Rightarrow> en
      | Some out \<Rightarrow> en\<lparr>en_output_file := Some (out @ store_global_header le header)\<rparr>)"

definition raw_jobs :: "RawPacket list \<Rightarrow> RawPacketJob list" where
  "raw_jobs packets =
     map (\<lambda>(packet_id, raw). \<lparr>rj_packet_id = of_nat packet_id, rj_ts_sec = ts_sec (rp_header raw),
            rj_ts_usec = ts_usec (rp_header raw), rj_data = rp_data raw\<rparr>)
       (enumerate 0 packets)"

definition count_read :: "RawPacketJob \<Rightarrow> DPIStats \<Rightarrow> DPIStats" where
  "count_read rj st =
     st\<lparr>total_packets := total_packets st + 1, total_bytes := total_bytes st + length (rj_data rj)\<rparr>"

definition reader_step :: "bool \<Rightarrow> Engine \<Rightarrow> Engine option" where
  "reader_step le en =
     (case en_reader_pc en of
        Rd_Open content \<Rightarrow>
          (case pcap_open le content closed_reader of
             (False, _) \<Rightarrow> Some (en\<lparr>en_reader_pc := Rd_Done\<rparr>)
           | (True, reader) \<Rightarrow>
               Some ((writeOutputHeader le (pr_global_header reader) en)
                 \<lparr>en_reader_pc := Rd_Loop (raw_jobs (read_packets le reader))\<rparr>))
      | Rd_Loop [] \<Rightarrow> Some (en\<lparr>en_reader_pc := Rd_Done\<rparr>)
      | Rd_Loop (rj # rest) \<Rightarrow>
          Some (en\<lparr>en_stats := (if en_reads_file en then count_read rj (en_stats en) else en_stats en),
                   en_reader_pc := Rd_Push rj rest\<rparr>)
      | Rd_Push rj rest \<Rightarrow>
          (case tsq_push rj (en_raw_packet_queue en) of
             None \<Rightarrow> None
           | Some (_, q) \<Rightarrow> Some (en\<lparr>en_raw_packet_queue := q, en_reader_pc := Rd_Loop rest\<rparr>))
      | Rd_Done \<Rightarrow> None)"

section \<open>The worker threads\<close>

text \<open>The engine's own \<open>createPacketJob\<close>, which nothing calls, is the text of \<open>ParserWorker::createPacketJob\<close>.\<close>

definition en_createPacketJob :: "RawPacket \<Rightarrow> ParsedPacket \<Rightarrow> u32 \<Rightarrow> PacketJob res" where
  "en_createPacketJob = createPacketJob"

definition parser_step :: "bool \<Rightarrow> std_hash \<Rightarrow> nat \<Rightarrow> Engine \<Rightarrow> Engine option res" where
  "parser_step le sh i en =
     (case pw_pc (en_parsers en ! i) of
        PW_Pop \<Rightarrow>
          rbind (pw_take le (getLBForPacket sh (en_lbs en)) (en_parsers en ! i) (en_raw_packet_queue en))
            (\<lambda>(w, q). Inr (Some (en\<lparr>en_parsers := (en_parsers en)[i := w], en_raw_packet_queue := q\<rparr>)))
      | PW_Push l job \<Rightarrow>
          (case pw_put job (en_parsers en ! i) (lb_input_queue (en_lbs en ! l)) of
             None \<Rightarrow> Inr None
           | Some (w, q) \<Rightarrow>
               Inr (Some (en\<lparr>en_parsers := (en_parsers en)[i := w],
                 en_lbs := (en_lbs en)[l := (en_lbs en ! l)\<lparr>lb_input_queue := q\<rparr>]\<rparr>)))
      | PW_Ended \<Rightarrow> Inr None)"

definition lb_step :: "std_hash \<Rightarrow> nat \<Rightarrow> Engine \<Rightarrow> Engine option res" where
  "lb_step sh i en =
     (case lb_pc (en_lbs en ! i) of
        At_Pop \<Rightarrow>
          rbind (lb_take sh (en_lbs en ! i)) (\<lambda>lb. Inr (Some (en\<lparr>en_lbs := (en_lbs en)[i := lb]\<rparr>)))
      | At_Push fp_index job \<Rightarrow>
          let f = lb_fp_queues (en_lbs en ! i) ! fp_index in
          (case lb_put fp_index job (en_lbs en ! i) (fp_input_queue (en_fps en ! f)) of
             None \<Rightarrow> Inr None
           | Some (lb, q) \<Rightarrow>
               Inr (Some (en\<lparr>en_lbs := (en_lbs en)[i := lb],
                 en_fps := (en_fps en)[f := (en_fps en ! f)\<lparr>fp_input_queue := q\<rparr>]\<rparr>)))
      | Ended \<Rightarrow> Inr None)"

text \<open>The output callback up to its push: the new statistics and whether the packet is to be queued.\<close>

definition handleOutput :: "PacketAction \<Rightarrow> Engine \<Rightarrow> DPIStats \<times> bool" where
  "handleOutput action en =
     (let st = en_stats en in
      if action = DROP then (st\<lparr>dropped_packets := dropped_packets st + 1\<rparr>, False)
      else (st\<lparr>forwarded_packets := forwarded_packets st + 1\<rparr>, en_output_file en \<noteq> None))"

text \<open>
  A round of \<open>FastPathProcessor::run\<close>; what it adds to \<open>fp_output\<close> is its call of the output callback,
  which happens inside it.
\<close>

definition fp_publish :: "nat \<Rightarrow> bool \<times> FastPath \<times> nat \<Rightarrow> Engine \<Rightarrow> Engine" where
  "fp_publish i = (\<lambda>(go_on, fp, last_cleanup) en.
     let en' = en\<lparr>en_fps := (en_fps en)[i := fp]\<rparr>
     in case drop (length (fp_output (en_fps en ! i))) (fp_output fp) of
          [] \<Rightarrow> en'\<lparr>en_fp_pcs := (en_fp_pcs en)[i := if go_on then FP_Loop last_cleanup else FP_Ended]\<rparr>
        | (job, action) # _ \<Rightarrow>
            let (st, queued) = handleOutput action en
            in en'\<lparr>en_stats := st, en_fp_pcs := (en_fp_pcs en)
                 [i := if queued then FP_Output job last_cleanup else FP_Loop last_cleanup]\<rparr>)"

definition fp_step :: "nat \<Rightarrow> nat \<Rightarrow> Engine \<Rightarrow> Engine option res" where
  "fp_step now i en =
     (case (en_fp_pcs en ! i, en_rule_manager en) of
        (FP_Loop last_cleanup, Some rm) \<Rightarrow>
          rbind (fp_round now rm (en_fps en ! i, last_cleanup)) (\<lambda>r. Inr (Some (fp_publish i r en)))
      | (FP_Output job last_cleanup, _) \<Rightarrow>
          (case tsq_push job (en_output_queue en) of
             None \<Rightarrow> Inr None
           | Some (_, q) \<Rightarrow>
               Inr (Some (en\<lparr>en_output_queue := q, en_fp_pcs := (en_fp_pcs en)[i := FP_Loop last_cleanup]\<rparr>)))
      | _ \<Rightarrow> Inr None)"

section \<open>The output thread\<close>

definition writeOutputPacket :: "bool \<Rightarrow> PacketJob \<Rightarrow> Engine \<Rightarrow> Engine" where
  "writeOutputPacket le job en =
     (case en_output_file en of
        None \<Rightarrow> en
      | Some out \<Rightarrow>
          en\<lparr>en_output_file := Some (out @ output_packet_bytes le (pj_ts_sec job) (pj_ts_usec job) (pj_data job))\<rparr>)"

definition output_step :: "bool \<Rightarrow> Engine \<Rightarrow> Engine option" where
  "output_step le en =
     (case en_output_pc en of
        Out_Test \<Rightarrow>
          Some (en\<lparr>en_output_pc :=
            (if en_running en \<or> \<not> tsq_empty (en_output_queue en) then Out_Pop else Out_Ended)\<rparr>)
      | Out_Pop \<Rightarrow>
          let (job_opt, q) = tsq_popWithTimeout (en_output_queue en);
              en = en\<lparr>en_output_queue := q, en_output_pc := Out_Test\<rparr>
          in Some (case job_opt of None \<Rightarrow> en | Some job \<Rightarrow> writeOutputPacket le job en)
      | Out_Ended \<Rightarrow> None)"

section \<open>Completion and shutdown\<close>

text \<open>
  \<open>waitForCompletion\<close> and \<open>stop\<close>: \<open>M_JoinX i\<close> waits for thread \<open>i\<close> of a pool to end. The two flags that
  \<open>stop\<close> finds already set (the raw queue is shut down, the parsers are stopped) make it pass over them.
\<close>

definition main_step :: "Engine \<Rightarrow> Engine option" where
  "main_step en =
     (case en_main_pc en of
        M_Idle \<Rightarrow> None
      | M_JoinReader \<Rightarrow>
          if en_reader_pc en = Rd_Done
          then Some (en\<lparr>en_raw_packet_queue := tsq_shutdown (en_raw_packet_queue en), en_main_pc := M_StopParser 0\<rparr>)
          else None
      | M_StopParser i \<Rightarrow>
          Some (if i < length (en_parsers en)
            then en\<lparr>en_parsers := (en_parsers en)[i := pw_stop (en_parsers en ! i)], en_main_pc := M_JoinParser i\<rparr>
            else en\<lparr>en_processing_complete := True, en_main_pc := M_Stop\<rparr>)
      | M_JoinParser i \<Rightarrow>
          if pw_pc (en_parsers en ! i) = PW_Ended then Some (en\<lparr>en_main_pc := M_StopParser (i + 1)\<rparr>) else None
      | M_Stop \<Rightarrow>
          Some (if \<not> en_running en then en\<lparr>en_main_pc := M_Done\<rparr>
            else en\<lparr>en_running := False, en_raw_packet_queue := tsq_shutdown (en_raw_packet_queue en),
                    en_main_pc := M_StopLB 0\<rparr>)
      | M_StopLB i \<Rightarrow>
          Some (if i < length (en_lbs en)
            then en\<lparr>en_lbs := (en_lbs en)[i := lb_stop (en_lbs en ! i)], en_main_pc := M_JoinLB i\<rparr>
            else en\<lparr>en_main_pc := M_StopFP 0\<rparr>)
      | M_JoinLB i \<Rightarrow>
          if lb_pc (en_lbs en ! i) = Ended then Some (en\<lparr>en_main_pc := M_StopLB (i + 1)\<rparr>) else None
      | M_StopFP i \<Rightarrow>
          Some (if i < length (en_fps en)
            then en\<lparr>en_fps := (en_fps en)[i := fp_stop (en_fps en ! i)], en_main_pc := M_JoinFP i\<rparr>
            else en\<lparr>en_main_pc := M_ShutdownOutput\<rparr>)
      | M_JoinFP i \<Rightarrow>
          if en_fp_pcs en ! i = FP_Ended then Some (en\<lparr>en_main_pc := M_StopFP (i + 1)\<rparr>) else None
      | M_ShutdownOutput \<Rightarrow>
          Some (en\<lparr>en_output_queue := tsq_shutdown (en_output_queue en), en_main_pc := M_JoinOutput\<rparr>)
      | M_JoinOutput \<Rightarrow>
          if en_output_pc en = Out_Ended then Some (en\<lparr>en_main_pc := M_Done\<rparr>) else None
      | M_Done \<Rightarrow> None)"

section \<open>The system\<close>

text \<open>
  One step of any thread. A fault of a thread is a fault of the program. The rules may change at any
  time, since the interface of the rule manager can be called from outside while the threads run.
\<close>

inductive e_step :: "bool \<Rightarrow> std_hash \<Rightarrow> Engine \<Rightarrow> Engine \<Rightarrow> bool" for le sh where
  reader: "en_fault en = None \<Longrightarrow> reader_step le en = Some en' \<Longrightarrow> e_step le sh en en'"
| parser: "en_fault en = None \<Longrightarrow> i < length (en_parsers en) \<Longrightarrow> parser_step le sh i en = Inr (Some en') \<Longrightarrow>
    e_step le sh en en'"
| parser_fault: "en_fault en = None \<Longrightarrow> i < length (en_parsers en) \<Longrightarrow> parser_step le sh i en = Inl e \<Longrightarrow>
    e_step le sh en (en\<lparr>en_fault := Some e\<rparr>)"
| lb: "en_fault en = None \<Longrightarrow> i < length (en_lbs en) \<Longrightarrow> lb_step sh i en = Inr (Some en') \<Longrightarrow>
    e_step le sh en en'"
| lb_fault: "en_fault en = None \<Longrightarrow> i < length (en_lbs en) \<Longrightarrow> lb_step sh i en = Inl e \<Longrightarrow>
    e_step le sh en (en\<lparr>en_fault := Some e\<rparr>)"
| fp: "en_fault en = None \<Longrightarrow> i < length (en_fps en) \<Longrightarrow> fp_step now i en = Inr (Some en') \<Longrightarrow>
    e_step le sh en en'"
| fp_fault: "en_fault en = None \<Longrightarrow> i < length (en_fps en) \<Longrightarrow> fp_step now i en = Inl e \<Longrightarrow>
    e_step le sh en (en\<lparr>en_fault := Some e\<rparr>)"
| writer: "en_fault en = None \<Longrightarrow> output_step le en = Some en' \<Longrightarrow> e_step le sh en en'"
| main: "en_fault en = None \<Longrightarrow> main_step en = Some en' \<Longrightarrow> e_step le sh en en'"
| rules: "en_fault en = None \<Longrightarrow> en_rule_manager en = Some rm \<Longrightarrow>
    e_step le sh en (en\<lparr>en_rule_manager := Some rm'\<rparr>)"

abbreviation e_run :: "bool \<Rightarrow> std_hash \<Rightarrow> Engine \<Rightarrow> Engine \<Rightarrow> bool" where
  "e_run le sh \<equiv> (e_step le sh)\<^sup>*\<^sup>*"

section \<open>The rule interface\<close>

text \<open>Every call goes to the rule manager if there is one, that is after \<open>initialize\<close>.\<close>

definition with_rules :: "(RuleManager \<Rightarrow> RuleManager) \<Rightarrow> Engine \<Rightarrow> Engine" where
  "with_rules f en = en\<lparr>en_rule_manager := map_option f (en_rule_manager en)\<rparr>"

definition try_rules :: "(RuleManager \<Rightarrow> RuleManager res) \<Rightarrow> Engine \<Rightarrow> Engine res" where
  "try_rules f en =
     (case en_rule_manager en of
        None \<Rightarrow> Inr en
      | Some rm \<Rightarrow> rbind (f rm) (\<lambda>rm. Inr (en\<lparr>en_rule_manager := Some rm\<rparr>)))"

definition en_blockIP :: "string \<Rightarrow> Engine \<Rightarrow> Engine res" where
  "en_blockIP ip = try_rules (blockIP_text ip)"

definition en_unblockIP :: "string \<Rightarrow> Engine \<Rightarrow> Engine res" where
  "en_unblockIP ip = try_rules (unblockIP_text ip)"

definition en_blockApp :: "AppType \<Rightarrow> Engine \<Rightarrow> Engine" where
  "en_blockApp app = with_rules (blockApp app)"

definition en_unblockApp :: "AppType \<Rightarrow> Engine \<Rightarrow> Engine" where
  "en_unblockApp app = with_rules (unblockApp app)"

definition en_blockApp_name :: "string \<Rightarrow> Engine \<Rightarrow> Engine" where
  "en_blockApp_name app_name en =
     (case app_by_name app_name of Some app \<Rightarrow> en_blockApp app en | None \<Rightarrow> en)"

definition en_unblockApp_name :: "string \<Rightarrow> Engine \<Rightarrow> Engine" where
  "en_unblockApp_name app_name en =
     (case app_by_name app_name of Some app \<Rightarrow> en_unblockApp app en | None \<Rightarrow> en)"

definition en_blockDomain :: "string \<Rightarrow> Engine \<Rightarrow> Engine" where
  "en_blockDomain domain = with_rules (blockDomain domain)"

definition en_unblockDomain :: "string \<Rightarrow> Engine \<Rightarrow> Engine" where
  "en_unblockDomain domain = with_rules (unblockDomain domain)"

text \<open>\<open>None\<close> for a file that cannot be opened, when loading; the file's new content, when saving.\<close>

definition en_loadRules :: "string option \<Rightarrow> Engine \<Rightarrow> (bool \<times> Engine) res" where
  "en_loadRules content en =
     (case (en_rule_manager en, content) of
        (Some rm, Some content) \<Rightarrow>
          rbind (loadRules content rm) (\<lambda>rm. Inr (True, en\<lparr>en_rule_manager := Some rm\<rparr>))
      | _ \<Rightarrow> Inr (False, en))"

definition en_saveRules :: "Engine \<Rightarrow> string option" where
  "en_saveRules en = map_option saveRules (en_rule_manager en)"

end
