(* ===== verification/Pipeline.thy ===== *)
theory Pipeline
  imports Engine "HOL-Library.Multiset"
begin

text \<open>
  What holds of the engine of \<open>src/dpi_engine.cpp\<close> as a whole, under every interleaving of its threads:
  the shutdown order, the routing of packets and the conservation of packets from the reader to the fast
  paths, as invariants of \<open>e_step\<close>; and what does not hold behind the fast paths.
\<close>

section \<open>One access to a queue\<close>

lemma push_open:
  assumes "tsq_push x q = Some (ok, q')" and "\<not> tq_shutdown q"
  shows "tq_items q' = tq_items q @ [x] \<and> \<not> tq_shutdown q'"
  using assms by (auto simp: tsq_push_def split: if_splits)

lemma pop_cases:
  obtains "tsq_popWithTimeout q = (None, q)" "tq_items q = []"
  | x q' where "tsq_popWithTimeout q = (Some x, q')" "tq_items q = x # tq_items q'" "tq_shutdown q' = tq_shutdown q"
proof (cases "tq_items q")
  case (Cons x xs)
  then show thesis by (intro that(2) [of x "q\<lparr>tq_items := xs\<rparr>"]) (simp_all add: tsq_popWithTimeout_def take_front_def)
qed (use that(1) in \<open>simp add: tsq_popWithTimeout_def take_front_def\<close>)

lemma tsq_shutdown_simps [simp]: "tq_items (tsq_shutdown q) = tq_items q" "tq_shutdown (tsq_shutdown q)"
  by (simp_all add: tsq_shutdown_def)

lemma pw_stop_simps [simp]: "pw_pc (pw_stop w) = pw_pc w" "\<not> pw_running (pw_stop w)"
  by (simp_all add: pw_stop_def)

lemma lb_stop_simps [simp]:
  "lb_pc (lb_stop lb) = lb_pc lb" "tq_items (lb_input_queue (lb_stop lb)) = tq_items (lb_input_queue lb)"
  "lb_fp_queues (lb_stop lb) = lb_fp_queues lb" "lb_num_fps (lb_stop lb) = lb_num_fps lb"
  by (simp_all add: lb_stop_def)

lemma fp_stop_simps [simp]:
  "tq_items (fp_input_queue (fp_stop fp)) = tq_items (fp_input_queue fp)"
  "fp_output (fp_stop fp) = fp_output fp" "accounted (fp_stop fp) = accounted fp"
  by (simp_all add: fp_stop_def accounted_def)

section \<open>The steps of the threads\<close>

text \<open>The jobs a raw packet yields: one, or none when the parser rejects it.\<close>

definition made :: "bool \<Rightarrow> RawPacketJob \<Rightarrow> PacketJob list" where
  "made le rj = (case job_of le rj of Inr (Some job) \<Rightarrow> [job] | _ \<Rightarrow> [])"

definition jobs :: "bool \<Rightarrow> RawPacketJob list \<Rightarrow> PacketJob list" where
  "jobs le rjs = concat (map (made le) rjs)"

lemma jobs_simps [simp]: "jobs le [] = []" "jobs le (rj # rjs) = made le rj @ jobs le rjs"
  "jobs le (rjs @ rjs') = jobs le rjs @ jobs le rjs'"
  by (simp_all add: jobs_def)

lemma pw_take_cases:
  assumes "pw_take le sel w q = Inr (w', q')"
  obtains (idle) "q' = q" "w' = w"
  | (ended) "q' = q" "tq_items q = []" "\<not> pw_running w" "w' = w\<lparr>pw_pc := PW_Ended\<rparr>"
  | (rejected) rj where "tq_items q = rj # tq_items q'" "tq_shutdown q' = tq_shutdown q" "made le rj = []"
      "pw_pc w' = pw_pc w" "pw_running w' = pw_running w"
  | (parsed) rj job l where "tq_items q = rj # tq_items q'" "tq_shutdown q' = tq_shutdown q"
      "made le rj = [job]" "sel (pj_tuple job) = Inr l" "w' = w\<lparr>pw_pc := PW_Push l job\<rparr>"
proof (cases q rule: pop_cases)
  case 1
  then have "q' = q \<and> (w' = w \<or> \<not> pw_running w \<and> w' = w\<lparr>pw_pc := PW_Ended\<rparr>)"
    using assms by (simp add: pw_take_def tsq_empty_def split: if_splits)
  then show thesis using 1(2) idle ended by blast
next
  case (2 rj q'')
  with assms obtain r where r: "job_of le rj = Inr r" by (auto simp: pw_take_def rbind_Inr_iff)
  show thesis
  proof (cases r)
    case None
    with assms 2 r have "q' = q''" "pw_pc w' = pw_pc w" "pw_running w' = pw_running w"
      by (auto simp: pw_take_def)
    with 2 r None show thesis by (intro rejected [of rj]) (simp_all add: made_def)
  next
    case (Some job)
    with assms 2 r obtain l where "sel (pj_tuple job) = Inr l" "w' = w\<lparr>pw_pc := PW_Push l job\<rparr>" "q' = q''"
      by (auto simp: pw_take_def rbind_Inr_iff)
    with 2 r Some show thesis by (intro parsed [of rj job l]) (simp_all add: made_def)
  qed
qed

lemma pw_put_effect:
  assumes "pw_put job w q = Some (w', q')"
  shows "pw_pc w' = PW_Pop" and "pw_running w' = pw_running w"
    and "\<not> tq_shutdown q \<Longrightarrow> tq_items q' = tq_items q @ [job] \<and> \<not> tq_shutdown q'"
proof -
  obtain ok where p: "tsq_push job q = Some (ok, q')"
    and w: "w\<lparr>pw_stats := pw_stats w\<lparr>total_parsed := total_parsed (pw_stats w) + 1\<rparr>, pw_pc := PW_Pop\<rparr> = w'"
    using assms by (auto simp: pw_put_def split: option.splits)
  show "pw_pc w' = PW_Pop" "pw_running w' = pw_running w" unfolding w [symmetric] by simp_all
  show "\<not> tq_shutdown q \<Longrightarrow> tq_items q' = tq_items q @ [job] \<and> \<not> tq_shutdown q'" by (rule push_open [OF p])
qed

lemma lb_put_effect:
  assumes "lb_put f job lb q = Some (lb', q')"
  shows "lb_pc lb' = At_Pop" and "lb_running lb' = lb_running lb" and "lb_input_queue lb' = lb_input_queue lb"
    and "lb_fp_queues lb' = lb_fp_queues lb" and "lb_num_fps lb' = lb_num_fps lb"
    and "\<not> tq_shutdown q \<Longrightarrow> tq_items q' = tq_items q @ [job] \<and> \<not> tq_shutdown q'"
proof -
  obtain ok n ns where p: "tsq_push job q = Some (ok, q')"
    and w: "lb\<lparr>lb_packets_dispatched := n, lb_per_fp_counts := ns, lb_pc := At_Pop\<rparr> = lb'"
    using assms by (auto simp: lb_put_def split: option.splits)
  show "lb_pc lb' = At_Pop" "lb_running lb' = lb_running lb" "lb_input_queue lb' = lb_input_queue lb"
    "lb_fp_queues lb' = lb_fp_queues lb" "lb_num_fps lb' = lb_num_fps lb"
    unfolding w [symmetric] by simp_all
  show "\<not> tq_shutdown q \<Longrightarrow> tq_items q' = tq_items q @ [job] \<and> \<not> tq_shutdown q'" by (rule push_open [OF p])
qed

lemma lb_take_cases:
  assumes "lb_take sh lb = Inr lb'"
  obtains (idle) "lb' = lb"
  | (ended) "tq_items (lb_input_queue lb) = []" "\<not> lb_running lb" "lb' = lb\<lparr>lb_pc := Ended\<rparr>"
  | (taken) job q where "tq_items (lb_input_queue lb) = job # tq_items q"
      "tq_shutdown q = tq_shutdown (lb_input_queue lb)" "0 < lb_num_fps lb"
      "lb' = lb\<lparr>lb_input_queue := q, lb_packets_received := lb_packets_received lb + 1,
         lb_pc := At_Push (unat (FiveTupleHash sh (pj_tuple job)) mod lb_num_fps lb) job\<rparr>"
proof (cases "lb_input_queue lb" rule: pop_cases)
  case 1
  then have "lb' = lb \<or> \<not> lb_running lb \<and> lb' = lb\<lparr>lb_pc := Ended\<rparr>"
    using assms by (simp add: lb_take_def tsq_empty_def split: if_splits)
  then show thesis using 1(2) idle ended by blast
next
  case (2 job q)
  with assms show thesis
    by (intro taken [of job q]) (auto simp: lb_take_def selectFP_def Let_def split: if_splits)
qed

lemma fp_round_calls:
  assumes "accounted fp" and "fp_round now rm (fp, t) = Inr (go_on, fp', t')"
  obtains (quiet) "fp_output fp' = fp_output fp" "tq_items (fp_input_queue fp) = []"
      "tq_items (fp_input_queue fp') = []" "go_on = fp_running fp"
  | (call) job a where "fp_output fp' = fp_output fp @ [(job, a)]" "go_on"
      "tq_items (fp_input_queue fp) = job # tq_items (fp_input_queue fp')"
proof -
  note r = fp_round_accounted [OF assms]
  show thesis
  proof (cases "fp_input_queue fp" rule: pop_cases)
    case 1
    then have "fp_output fp' = fp_output fp"
      using assms(2) by (auto simp: fp_round_def tsq_empty_def Let_def split: if_splits)
    then show thesis using r 1 quiet by auto
  next
    case (2 job q)
    then obtain fp1 where p: "processPacket now rm job (fp\<lparr>fp_input_queue := q\<rparr>) = Inr fp1"
      and o: "fp_output fp' = fp_output fp1"
      using assms(2) by (auto simp: fp_round_def Let_def rbind_Inr_iff split: if_splits)
    from p obtain a where "fp_output fp1 = fp_output fp @ [(job, a)]"
      by (auto simp: processPacket_def rbind_Inr_iff Let_def handleAction_def)
    then show thesis using r 2 o call by auto
  qed
qed

lemma fp_round_queue:
  assumes "fp_round now rm (fp, t) = Inr (go_on, fp', t')"
  shows "tq_shutdown (fp_input_queue fp') = tq_shutdown (fp_input_queue fp)"
proof (cases "fp_input_queue fp" rule: pop_cases)
  case 1
  then show ?thesis using assms by (auto simp: fp_round_def tsq_empty_def Let_def split: if_splits)
next
  case (2 job q)
  have "fp_input_queue fp1 = fp_input_queue fp0" if "processPacket now rm job fp0 = Inr fp1" for fp0 fp1
    using that by (auto simp: processPacket_def rbind_Inr_iff Let_def handleAction_def)
  then show ?thesis
    using assms 2 by (fastforce simp: fp_round_def Let_def rbind_Inr_iff split: if_splits)
qed

section \<open>The invariant\<close>

text \<open>How far the shutdown has come, and how many threads of each pool it has seen end.\<close>

fun stage :: "main_pc \<Rightarrow> nat" where
  "stage M_Idle = 0"
| "stage M_JoinReader = 0"
| "stage (M_StopParser _) = 1"
| "stage (M_JoinParser _) = 1"
| "stage M_Stop = 2"
| "stage (M_StopLB _) = 3"
| "stage (M_JoinLB _) = 3"
| "stage (M_StopFP _) = 4"
| "stage (M_JoinFP _) = 4"
| "stage _ = 5"

fun joined :: "main_pc \<Rightarrow> nat" where
  "joined (M_StopParser i) = i"
| "joined (M_JoinParser i) = i"
| "joined (M_StopLB i) = i"
| "joined (M_JoinLB i) = i"
| "joined (M_StopFP i) = i"
| "joined (M_JoinFP i) = i"
| "joined _ = 0"

definition over :: "nat \<Rightarrow> main_pc \<Rightarrow> nat \<Rightarrow> bool" where
  "over s m k \<longleftrightarrow> s < stage m \<or> stage m = s \<and> k < joined m"

text \<open>
  The reader, the raw queue and the parsers; the load balancers; the fast paths. Each pool is running
  and accepts packets as long as the one before it may still send some; a thread that has ended has left
  an empty queue behind.
\<close>

definition upstream :: "Engine \<Rightarrow> bool" where
  "upstream en \<longleftrightarrow>
     en_parsers en \<noteq> [] \<and>
     (if 1 \<le> stage (en_main_pc en) then en_reader_pc en = Rd_Done
      else \<not> tq_shutdown (en_raw_packet_queue en) \<and> (\<forall>i < length (en_parsers en). pw_running (en_parsers en ! i))) \<and>
     (stage (en_main_pc en) \<le> 2 \<longrightarrow> en_running en) \<and>
     (\<forall>i < length (en_parsers en).
        (pw_pc (en_parsers en ! i) = PW_Ended \<longrightarrow>
           tq_items (en_raw_packet_queue en) = [] \<and> 1 \<le> stage (en_main_pc en)) \<and>
        (over 1 (en_main_pc en) i \<longrightarrow> pw_pc (en_parsers en ! i) = PW_Ended))"

definition midstream :: "Engine \<Rightarrow> bool" where
  "midstream en \<longleftrightarrow>
     (\<forall>i < length (en_lbs en).
        (stage (en_main_pc en) < 3 \<longrightarrow>
           lb_running (en_lbs en ! i) \<and> \<not> tq_shutdown (lb_input_queue (en_lbs en ! i))) \<and>
        (lb_pc (en_lbs en ! i) = Ended \<longrightarrow>
           tq_items (lb_input_queue (en_lbs en ! i)) = [] \<and> 3 \<le> stage (en_main_pc en)) \<and>
        (over 3 (en_main_pc en) i \<longrightarrow> lb_pc (en_lbs en ! i) = Ended))"

definition downstream :: "Engine \<Rightarrow> bool" where
  "downstream en \<longleftrightarrow>
     (\<forall>i < length (en_fps en).
        accounted (en_fps en ! i) \<and>
        (stage (en_main_pc en) < 4 \<longrightarrow>
           fp_running (en_fps en ! i) \<and> \<not> tq_shutdown (fp_input_queue (en_fps en ! i))) \<and>
        (en_fp_pcs en ! i = FP_Ended \<longrightarrow>
           tq_items (fp_input_queue (en_fps en ! i)) = [] \<and> 4 \<le> stage (en_main_pc en)) \<and>
        (over 4 (en_main_pc en) i \<longrightarrow> en_fp_pcs en ! i = FP_Ended))"

text \<open>The fixed wiring: \<open>L\<close> load balancers with \<open>F\<close> fast paths each.\<close>

definition wired :: "nat \<Rightarrow> nat \<Rightarrow> Engine \<Rightarrow> bool" where
  "wired L F en \<longleftrightarrow> 0 < L \<and> 0 < F \<and> length (en_lbs en) = L \<and> length (en_fps en) = L * F \<and>
     length (en_fp_pcs en) = L * F \<and>
     (\<forall>i < L. lb_fp_queues (en_lbs en ! i) = [i * F..<i * F + F] \<and> lb_num_fps (en_lbs en ! i) = F)"

definition hash_of :: "std_hash \<Rightarrow> PacketJob \<Rightarrow> nat" where
  "hash_of sh job = unat (FiveTupleHash sh (pj_tuple job))"

definition routed :: "std_hash \<Rightarrow> nat \<Rightarrow> nat \<Rightarrow> Engine \<Rightarrow> bool" where
  "routed sh L F en \<longleftrightarrow>
     (\<forall>i < length (en_parsers en). \<forall>l job. pw_pc (en_parsers en ! i) = PW_Push l job \<longrightarrow> l = hash_of sh job mod L) \<and>
     (\<forall>i < L. (\<forall>job \<in> set (tq_items (lb_input_queue (en_lbs en ! i))). hash_of sh job mod L = i) \<and>
        (\<forall>f job. lb_pc (en_lbs en ! i) = At_Push f job \<longrightarrow> hash_of sh job mod L = i \<and> f = hash_of sh job mod F)) \<and>
     (\<forall>i < L * F. \<forall>job \<in> set (map fst (fp_output (en_fps en ! i)) @ tq_items (fp_input_queue (en_fps en ! i))).
        route sh L F (pj_tuple job) = i)"

text \<open>Where the packets are.\<close>

fun left_to_read :: "bool \<Rightarrow> reader_pc \<Rightarrow> RawPacketJob list" where
  "left_to_read le (Rd_Open content) =
     (case pcap_open le content closed_reader of (ok, reader) \<Rightarrow>
        if ok then raw_jobs (read_packets le reader) else [])"
| "left_to_read le (Rd_Loop rjs) = rjs"
| "left_to_read le (Rd_Push rj rjs) = rj # rjs"
| "left_to_read le Rd_Done = []"

fun in_hand :: "pw_pc \<Rightarrow> PacketJob list" where
  "in_hand (PW_Push _ job) = [job]"
| "in_hand _ = []"

fun lb_in_hand :: "lb_pc \<Rightarrow> PacketJob list" where
  "lb_in_hand (At_Push _ job) = [job]"
| "lb_in_hand _ = []"

definition at_parser :: "ParserWorker \<Rightarrow> PacketJob multiset" where
  "at_parser w = mset (in_hand (pw_pc w))"

definition at_lb :: "LoadBalancer \<Rightarrow> PacketJob multiset" where
  "at_lb lb = mset (lb_in_hand (lb_pc lb)) + mset (tq_items (lb_input_queue lb))"

definition at_fp :: "FastPath \<Rightarrow> PacketJob multiset" where
  "at_fp fp = mset (map fst (fp_output fp)) + mset (tq_items (fp_input_queue fp))"

definition in_system :: "bool \<Rightarrow> Engine \<Rightarrow> PacketJob multiset" where
  "in_system le en =
     mset (jobs le (left_to_read le (en_reader_pc en))) + mset (jobs le (tq_items (en_raw_packet_queue en))) +
     sum_list (map at_parser (en_parsers en)) + sum_list (map at_lb (en_lbs en)) +
     sum_list (map at_fp (en_fps en))"

definition pipeline_inv :: "bool \<Rightarrow> std_hash \<Rightarrow> nat \<Rightarrow> nat \<Rightarrow> PacketJob multiset \<Rightarrow> Engine \<Rightarrow> bool" where
  "pipeline_inv le sh L F J en \<longleftrightarrow>
     wired L F en \<and> upstream en \<and> midstream en \<and> downstream en \<and> routed sh L F en \<and> in_system le en = J"

text \<open>A list with one element replaced.\<close>

lemma sum_list_map_update:
  fixes f :: "'a \<Rightarrow> 'b :: comm_monoid_add"
  assumes "i < length xs"
  shows "sum_list (map f (xs[i := y])) + f (xs ! i) = sum_list (map f xs) + f y"
  using assms
proof (induction xs arbitrary: i)
  case (Cons x xs)
  then show ?case by (cases i) (simp_all add: ac_simps)
qed simp

lemma sum_list_map_update_eq:
  fixes f :: "'a \<Rightarrow> 'b multiset"
  assumes "i < length xs" and "f y + A = f (xs ! i) + B"
  shows "sum_list (map f (xs[i := y])) + A = sum_list (map f xs) + B"
proof -
  have "sum_list (map f (xs[i := y])) + A + f (xs ! i) = sum_list (map f (xs[i := y])) + f (xs ! i) + A"
    by (simp add: ac_simps)
  also have "\<dots> = sum_list (map f xs) + (f y + A)"
    unfolding sum_list_map_update [OF assms(1)] by (simp add: ac_simps)
  also have "\<dots> = sum_list (map f xs) + B + f (xs ! i)"
    unfolding assms(2) by (simp add: ac_simps)
  finally show ?thesis by simp
qed

section \<open>Every step keeps the invariant\<close>

text \<open>What a step leaves alone.\<close>

lemma same_wired:
  "wired L F en \<Longrightarrow> en_lbs en' = en_lbs en \<Longrightarrow> en_fps en' = en_fps en \<Longrightarrow> en_fp_pcs en' = en_fp_pcs en \<Longrightarrow>
    wired L F en'"
  by (simp add: wired_def)

lemma same_routed:
  "routed sh L F en \<Longrightarrow> en_parsers en' = en_parsers en \<Longrightarrow> en_lbs en' = en_lbs en \<Longrightarrow> en_fps en' = en_fps en \<Longrightarrow>
    routed sh L F en'"
  by (simp add: routed_def)

lemma same_upstream:
  "upstream en \<Longrightarrow> en_main_pc en' = en_main_pc en \<Longrightarrow> en_reader_pc en' = en_reader_pc en \<Longrightarrow>
    en_raw_packet_queue en' = en_raw_packet_queue en \<Longrightarrow> en_parsers en' = en_parsers en \<Longrightarrow>
    en_running en' = en_running en \<Longrightarrow> upstream en'"
  by (simp add: upstream_def)

lemma same_midstream:
  "midstream en \<Longrightarrow> en_main_pc en' = en_main_pc en \<Longrightarrow> en_lbs en' = en_lbs en \<Longrightarrow> midstream en'"
  by (simp add: midstream_def)

lemma same_downstream:
  "downstream en \<Longrightarrow> en_main_pc en' = en_main_pc en \<Longrightarrow> en_fps en' = en_fps en \<Longrightarrow> en_fp_pcs en' = en_fp_pcs en \<Longrightarrow>
    downstream en'"
  by (simp add: downstream_def)

lemmas same_parts = same_wired same_routed same_upstream same_midstream same_downstream

lemma same_inv:
  assumes "pipeline_inv le sh L F J en"
    and "en_main_pc en' = en_main_pc en" "en_reader_pc en' = en_reader_pc en"
      "en_raw_packet_queue en' = en_raw_packet_queue en" "en_parsers en' = en_parsers en"
      "en_running en' = en_running en" "en_lbs en' = en_lbs en" "en_fps en' = en_fps en"
      "en_fp_pcs en' = en_fp_pcs en"
  shows "pipeline_inv le sh L F J en'"
  using assms by (auto simp: pipeline_inv_def in_system_def intro: same_parts)

lemma reader_inv:
  assumes "pipeline_inv le sh L F J en" and "reader_step le en = Some en'"
  shows "pipeline_inv le sh L F J en'"
proof -
  have "en_reader_pc en \<noteq> Rd_Done" using assms(2) by (auto simp: reader_step_def)
  then have up: "stage (en_main_pc en) = 0" "\<not> tq_shutdown (en_raw_packet_queue en)" "upstream en"
    using assms(1) by (auto simp: pipeline_inv_def upstream_def split: if_splits)
  have same: "en_main_pc en' = en_main_pc en" "en_parsers en' = en_parsers en" "en_running en' = en_running en"
    "en_lbs en' = en_lbs en" "en_fps en' = en_fps en" "en_fp_pcs en' = en_fp_pcs en"
    using assms(2)
    by (auto simp: reader_step_def writeOutputHeader_def split: reader_pc.splits list.splits option.splits prod.splits bool.splits)
  have move: "\<not> tq_shutdown (en_raw_packet_queue en') \<and>
      jobs le (left_to_read le (en_reader_pc en')) = jobs le (left_to_read le (en_reader_pc en)) \<and>
        tq_items (en_raw_packet_queue en') = tq_items (en_raw_packet_queue en) \<or>
      \<not> tq_shutdown (en_raw_packet_queue en') \<and>
      (\<exists>rj. jobs le (left_to_read le (en_reader_pc en)) = made le rj @ jobs le (left_to_read le (en_reader_pc en')) \<and>
         tq_items (en_raw_packet_queue en') = tq_items (en_raw_packet_queue en) @ [rj])"
  proof (cases "en_reader_pc en")
    case (Rd_Open content)
    then show ?thesis
      using assms(2) up
      by (auto simp: reader_step_def writeOutputHeader_def split: option.splits prod.splits bool.splits)
  next
    case (Rd_Loop rjs)
    then show ?thesis using assms(2) up by (cases rjs) (auto simp: reader_step_def)
  next
    case (Rd_Push rj rjs)
    then obtain ok q where "tsq_push rj (en_raw_packet_queue en) = Some (ok, q)"
      and "en' = en\<lparr>en_raw_packet_queue := q, en_reader_pc := Rd_Loop rjs\<rparr>"
      using assms(2) by (auto simp: reader_step_def split: option.splits)
    then show ?thesis using push_open up Rd_Push by fastforce
  qed (use assms(2) in \<open>simp add: reader_step_def\<close>)
  have "upstream en'"
    using up move same by (auto simp: upstream_def)
  moreover have "in_system le en' = in_system le en"
    using move same by (auto simp: in_system_def ac_simps)
  ultimately show ?thesis
    using assms(1) same by (auto simp: pipeline_inv_def intro: same_parts)
qed

lemma parser_take_inv:
  assumes "pipeline_inv le sh L F J en" and "i < length (en_parsers en)" and "pw_pc (en_parsers en ! i) = PW_Pop"
    and "pw_take le (getLBForPacket sh (en_lbs en)) (en_parsers en ! i) (en_raw_packet_queue en) = Inr (w, q)"
  shows "pipeline_inv le sh L F J (en\<lparr>en_parsers := (en_parsers en)[i := w], en_raw_packet_queue := q\<rparr>)"
    (is "pipeline_inv le sh L F J ?en")
proof -
  note parts = assms(1) [unfolded pipeline_inv_def]
  let ?w = "en_parsers en ! i" and ?raw = "en_raw_packet_queue en"
  have effect: "tq_shutdown q = tq_shutdown ?raw \<and> pw_running w = pw_running ?w \<and>
      (\<forall>l job. pw_pc w = PW_Push l job \<longrightarrow> l = hash_of sh job mod L) \<and>
      (pw_pc w = PW_Ended \<longrightarrow> tq_items q = [] \<and> \<not> pw_running ?w) \<and>
      (tq_items ?raw = [] \<longrightarrow> tq_items q = []) \<and>
      at_parser w + mset (jobs le (tq_items q)) = at_parser ?w + mset (jobs le (tq_items ?raw))"
    using assms(4)
  proof (cases rule: pw_take_cases)
    case (parsed rj job l)
    then have "l = hash_of sh job mod L"
      using parts by (auto simp: getLBForPacket_def hash_of_def wired_def split: if_splits)
    then show ?thesis using parsed assms(3) by (simp add: at_parser_def)
  next
    case idle
    then show ?thesis using assms(3) by simp
  next
    case ended
    then show ?thesis using assms(3) by (simp add: at_parser_def)
  next
    case (rejected rj)
    then show ?thesis using assms(3) by (simp add: at_parser_def)
  qed
  have "upstream ?en"
    using parts effect assms(2,3) unfolding upstream_def by (auto simp: nth_list_update over_def)
  moreover have "routed sh L F ?en"
    using parts effect assms(2) by (auto simp: routed_def nth_list_update)
  moreover have "in_system le ?en = in_system le en"
    using sum_list_map_update_eq [OF assms(2), where f = at_parser and y = w] effect
    by (simp add: in_system_def ac_simps)
  ultimately show ?thesis
    using parts by (auto simp: pipeline_inv_def intro: same_parts)
qed

lemma parser_put_inv:
  assumes "pipeline_inv le sh L F J en" and "i < length (en_parsers en)" and "pw_pc (en_parsers en ! i) = PW_Push l job"
    and "pw_put job (en_parsers en ! i) (lb_input_queue (en_lbs en ! l)) = Some (w, q)"
  shows "pipeline_inv le sh L F J (en\<lparr>en_parsers := (en_parsers en)[i := w],
     en_lbs := (en_lbs en)[l := (en_lbs en ! l)\<lparr>lb_input_queue := q\<rparr>]\<rparr>)"
    (is "pipeline_inv le sh L F J ?en")
proof -
  note parts = assms(1) [unfolded pipeline_inv_def]
  let ?lb = "en_lbs en ! l"
  have l: "l = hash_of sh job mod L" using parts assms(2,3) by (auto simp: routed_def)
  then have l': "l < length (en_lbs en)" using parts by (simp add: wired_def)
  have st: "stage (en_main_pc en) < 3"
  proof (rule ccontr)
    assume "\<not> stage (en_main_pc en) < 3"
    then have "over 1 (en_main_pc en) i" by (simp add: over_def)
    then show False using parts assms(2,3) by (auto simp: upstream_def)
  qed
  have lb: "\<not> tq_shutdown (lb_input_queue ?lb)" "lb_running ?lb" "lb_pc ?lb \<noteq> Ended"
    using parts st l' by (auto simp: midstream_def)
  note w = pw_put_effect [OF assms(4)] and q = pw_put_effect(3) [OF assms(4) lb(1)]
  have "upstream ?en"
    using parts assms(2,3) w unfolding upstream_def by (auto simp: nth_list_update)
  moreover have "midstream ?en"
    using parts lb q st l' by (auto simp: midstream_def nth_list_update)
  moreover have "wired L F ?en"
    using parts l' by (auto simp: wired_def nth_list_update)
  moreover have "routed sh L F ?en"
    using parts assms(2) w q l l' by (auto simp: routed_def nth_list_update wired_def)
  moreover have "in_system le ?en = in_system le en"
  proof -
    have "sum_list (map at_parser ((en_parsers en)[i := w])) + {#job#} = sum_list (map at_parser (en_parsers en))"
      using sum_list_map_update_eq [OF assms(2), where f = at_parser and y = w and B = "{#}" and A = "{#job#}"]
        w assms(3) by (simp add: at_parser_def)
    moreover have "sum_list (map at_lb ((en_lbs en)[l := ?lb\<lparr>lb_input_queue := q\<rparr>])) = sum_list (map at_lb (en_lbs en)) + {#job#}"
      using sum_list_map_update_eq [OF l', where f = at_lb and y = "?lb\<lparr>lb_input_queue := q\<rparr>" and A = "{#}" and B = "{#job#}"]
        q by (simp add: at_lb_def)
    ultimately show ?thesis by (simp add: in_system_def ac_simps)
  qed
  ultimately show ?thesis
    using parts by (auto simp: pipeline_inv_def intro: same_parts)
qed

lemma parser_inv:
  assumes "pipeline_inv le sh L F J en" and "i < length (en_parsers en)" and "parser_step le sh i en = Inr (Some en')"
  shows "pipeline_inv le sh L F J en'"
proof (cases "pw_pc (en_parsers en ! i)")
  case PW_Pop
  then show ?thesis
    using assms(3) parser_take_inv [OF assms(1,2) PW_Pop] by (auto simp: parser_step_def rbind_Inr_iff)
next
  case (PW_Push l job)
  then show ?thesis
    using assms(3) parser_put_inv [OF assms(1,2) PW_Push] by (auto simp: parser_step_def split: option.splits)
qed (use assms(3) in \<open>simp add: parser_step_def\<close>)

lemma lb_take_inv:
  assumes "pipeline_inv le sh L F J en" and "i < length (en_lbs en)" and "lb_pc (en_lbs en ! i) = At_Pop"
    and "lb_take sh (en_lbs en ! i) = Inr lb"
  shows "pipeline_inv le sh L F J (en\<lparr>en_lbs := (en_lbs en)[i := lb]\<rparr>)" (is "pipeline_inv le sh L F J ?en")
proof -
  note parts = assms(1) [unfolded pipeline_inv_def]
  let ?lb = "en_lbs en ! i"
  have i: "i < L" "lb_num_fps ?lb = F" using parts assms(2) by (simp_all add: wired_def)
  have jobs: "\<forall>job \<in> set (tq_items (lb_input_queue ?lb)). hash_of sh job mod L = i"
    using parts i by (simp add: routed_def)
  have effect: "tq_shutdown (lb_input_queue lb) = tq_shutdown (lb_input_queue ?lb) \<and> lb_running lb = lb_running ?lb \<and>
      lb_fp_queues lb = lb_fp_queues ?lb \<and> lb_num_fps lb = lb_num_fps ?lb \<and>
      (lb_pc lb = Ended \<longrightarrow> tq_items (lb_input_queue lb) = [] \<and> \<not> lb_running ?lb) \<and>
      set (tq_items (lb_input_queue lb)) \<subseteq> set (tq_items (lb_input_queue ?lb)) \<and>
      (\<forall>f job. lb_pc lb = At_Push f job \<longrightarrow> hash_of sh job mod L = i \<and> f = hash_of sh job mod F) \<and>
      at_lb lb = at_lb ?lb"
    using assms(4)
  proof (cases rule: lb_take_cases)
    case idle
    then show ?thesis using assms(3) by simp
  next
    case ended
    then show ?thesis using assms(3) by (simp add: at_lb_def)
  next
    case (taken job q)
    then show ?thesis using assms(3) jobs i by (auto simp: at_lb_def hash_of_def)
  qed
  have "midstream ?en"
    using parts effect assms(2,3) unfolding midstream_def by (auto simp: nth_list_update over_def)
  moreover have "wired L F ?en"
    using parts effect assms(2) by (auto simp: wired_def nth_list_update)
  moreover have "routed sh L F ?en"
    using parts effect assms(2) by (auto simp: routed_def nth_list_update wired_def)
  moreover have "in_system le ?en = in_system le en"
    using sum_list_map_update [OF assms(2), where f = at_lb and y = lb] effect
    by (simp add: in_system_def)
  ultimately show ?thesis
    using parts by (auto simp: pipeline_inv_def intro: same_parts)
qed

lemma lb_put_inv:
  assumes "pipeline_inv le sh L F J en" and "i < length (en_lbs en)" and "lb_pc (en_lbs en ! i) = At_Push fp_index job"
    and "f = lb_fp_queues (en_lbs en ! i) ! fp_index"
    and "lb_put fp_index job (en_lbs en ! i) (fp_input_queue (en_fps en ! f)) = Some (lb, q)"
  shows "pipeline_inv le sh L F J (en\<lparr>en_lbs := (en_lbs en)[i := lb],
     en_fps := (en_fps en)[f := (en_fps en ! f)\<lparr>fp_input_queue := q\<rparr>]\<rparr>)" (is "pipeline_inv le sh L F J ?en")
proof -
  note parts = assms(1) [unfolded pipeline_inv_def]
  let ?lb = "en_lbs en ! i" and ?fp = "en_fps en ! f"
  have i: "i < L" "0 < F" "0 < L" "lb_fp_queues ?lb = [i * F..<i * F + F]"
    using parts assms(2) by (simp_all add: wired_def)
  have "hash_of sh job mod L = i" "fp_index = hash_of sh job mod F"
    using parts assms(3) i by (auto simp: routed_def)
  then have f: "f = route sh L F (pj_tuple job)"
    using assms(4) i by (simp add: route_def hash_of_def Let_def)
  then have f': "f < length (en_fps en)" using route_less [OF i(3,2), of sh "pj_tuple job"] parts by (simp add: wired_def)
  have st: "stage (en_main_pc en) < 4"
  proof (rule ccontr)
    assume "\<not> stage (en_main_pc en) < 4"
    then have "over 3 (en_main_pc en) i" by (simp add: over_def)
    then show False using parts assms(2,3) by (auto simp: midstream_def)
  qed
  have fp: "\<not> tq_shutdown (fp_input_queue ?fp)" "fp_running ?fp" "en_fp_pcs en ! f \<noteq> FP_Ended" "accounted ?fp"
    using parts st f' by (auto simp: downstream_def)
  note w = lb_put_effect [OF assms(5)] and q = lb_put_effect(6) [OF assms(5) fp(1)]
  have "midstream ?en"
    using parts assms(2,3) w by (auto simp: midstream_def nth_list_update)
  moreover have "downstream ?en"
    using parts fp q st f' by (auto simp: downstream_def nth_list_update accounted_def)
  moreover have "wired L F ?en"
    using parts assms(2) w by (auto simp: wired_def nth_list_update)
  moreover have "routed sh L F ?en"
  proof -
    have r: "routed sh L F en" and lens: "length (en_fps en) = L * F" "length (en_lbs en) = L"
      using parts by (simp_all add: wired_def)
    have "\<forall>j < L. (\<forall>job \<in> set (tq_items (lb_input_queue ((en_lbs en)[i := lb] ! j))). hash_of sh job mod L = j) \<and>
        (\<forall>f job. lb_pc ((en_lbs en)[i := lb] ! j) = At_Push f job \<longrightarrow>
           hash_of sh job mod L = j \<and> f = hash_of sh job mod F)"
      using r w(1,3) assms(2) by (auto simp: routed_def nth_list_update)
    moreover have "\<forall>j < L * F. \<forall>job \<in> set (map fst (fp_output ((en_fps en)[f := ?fp\<lparr>fp_input_queue := q\<rparr>] ! j)) @
        tq_items (fp_input_queue ((en_fps en)[f := ?fp\<lparr>fp_input_queue := q\<rparr>] ! j))). route sh L F (pj_tuple job) = j"
      using r q f [symmetric] f' by (auto simp: routed_def nth_list_update lens)
    ultimately show ?thesis using r by (simp add: routed_def)
  qed
  moreover have "in_system le ?en = in_system le en"
  proof -
    have "sum_list (map at_lb ((en_lbs en)[i := lb])) + {#job#} = sum_list (map at_lb (en_lbs en))"
      using sum_list_map_update_eq [OF assms(2), where f = at_lb and y = lb and B = "{#}" and A = "{#job#}"]
        w assms(3) by (simp add: at_lb_def)
    moreover have "sum_list (map at_fp ((en_fps en)[f := ?fp\<lparr>fp_input_queue := q\<rparr>])) = sum_list (map at_fp (en_fps en)) + {#job#}"
      using sum_list_map_update_eq [OF f', where f = at_fp and y = "?fp\<lparr>fp_input_queue := q\<rparr>" and A = "{#}" and B = "{#job#}"]
        q by (simp add: at_fp_def)
    ultimately show ?thesis by (simp add: in_system_def ac_simps)
  qed
  ultimately show ?thesis
    using parts by (auto simp: pipeline_inv_def intro: same_parts)
qed

lemma lb_inv:
  assumes "pipeline_inv le sh L F J en" and "i < length (en_lbs en)" and "lb_step sh i en = Inr (Some en')"
  shows "pipeline_inv le sh L F J en'"
proof (cases "lb_pc (en_lbs en ! i)")
  case At_Pop
  then show ?thesis
    using assms(3) lb_take_inv [OF assms(1,2) At_Pop] by (auto simp: lb_step_def rbind_Inr_iff)
next
  case (At_Push fp_index job)
  then show ?thesis
    using assms(3) lb_put_inv [OF assms(1,2) At_Push refl] by (auto simp: lb_step_def Let_def split: option.splits)
qed (use assms(3) in \<open>simp add: lb_step_def\<close>)

lemma fp_round_inv:
  assumes "pipeline_inv le sh L F J en" and "i < length (en_fps en)" and "en_fp_pcs en ! i \<noteq> FP_Ended"
    and "fp_round now rm (en_fps en ! i, t) = Inr (go_on, fp, t')" and "p = FP_Ended \<longrightarrow> \<not> go_on"
    and "en_fps en' = (en_fps en)[i := fp]" "en_fp_pcs en' = (en_fp_pcs en)[i := p]"
      "en_main_pc en' = en_main_pc en" "en_reader_pc en' = en_reader_pc en"
      "en_raw_packet_queue en' = en_raw_packet_queue en" "en_parsers en' = en_parsers en"
      "en_running en' = en_running en" "en_lbs en' = en_lbs en"
  shows "pipeline_inv le sh L F J en'"
proof -
  note parts = assms(1) [unfolded pipeline_inv_def]
  let ?fp = "en_fps en ! i"
  have i: "i < L * F" "i < length (en_fp_pcs en)" and lens: "length (en_fps en) = L * F" "length (en_fp_pcs en) = L * F"
    using parts assms(2) by (simp_all add: wired_def)
  have acc: "accounted ?fp" using parts assms(2) by (simp add: downstream_def)
  have effect: "accounted fp \<and> fp_running fp = fp_running ?fp \<and>
      tq_shutdown (fp_input_queue fp) = tq_shutdown (fp_input_queue ?fp) \<and>
      (p = FP_Ended \<longrightarrow> tq_items (fp_input_queue fp) = [] \<and> \<not> fp_running ?fp) \<and>
      map fst (fp_output fp) @ tq_items (fp_input_queue fp) = map fst (fp_output ?fp) @ tq_items (fp_input_queue ?fp)"
    using fp_round_accounted [OF acc assms(4)] fp_round_queue [OF assms(4)] assms(5)
    by (cases rule: fp_round_calls [OF acc assms(4)]) auto
  then have holds: "set (map fst (fp_output fp) @ tq_items (fp_input_queue fp)) =
      set (map fst (fp_output ?fp) @ tq_items (fp_input_queue ?fp))" "at_fp fp = at_fp ?fp"
    unfolding at_fp_def mset_append [symmetric] by simp_all
  have "downstream en'"
    using parts effect assms(2,3,6,7,8) i unfolding downstream_def
    by (auto simp: nth_list_update over_def)
  moreover have "wired L F en'" using parts assms(6,7,13) by (simp add: wired_def)
  moreover have "routed sh L F en'"
  proof -
    have "\<forall>j < L * F. \<forall>job \<in> set (map fst (fp_output ((en_fps en)[i := fp] ! j)) @
        tq_items (fp_input_queue ((en_fps en)[i := fp] ! j))). route sh L F (pj_tuple job) = j"
    proof (intro allI impI)
      fix j assume "j < L * F"
      then have "\<forall>job \<in> set (map fst (fp_output (en_fps en ! j)) @ tq_items (fp_input_queue (en_fps en ! j))).
          route sh L F (pj_tuple job) = j"
        using parts by (simp add: routed_def)
      then show "\<forall>job \<in> set (map fst (fp_output ((en_fps en)[i := fp] ! j)) @
        tq_items (fp_input_queue ((en_fps en)[i := fp] ! j))). route sh L F (pj_tuple job) = j"
        unfolding nth_list_update [OF assms(2)] using holds(1) by (cases "i = j") simp_all
    qed
    then show ?thesis using parts assms(6,11,13) by (simp add: routed_def)
  qed
  moreover have "in_system le en' = in_system le en"
    using sum_list_map_update [OF assms(2), where f = at_fp and y = fp] holds(2) assms(6-)
    by (simp add: in_system_def)
  ultimately show ?thesis
    using parts assms(8-) by (auto simp: pipeline_inv_def intro: same_parts)
qed

lemma fp_inv:
  assumes "pipeline_inv le sh L F J en" and "i < length (en_fps en)" and "fp_step now i en = Inr (Some en')"
  shows "pipeline_inv le sh L F J en'"
proof (cases "en_fp_pcs en ! i")
  case (FP_Loop t)
  then obtain rm go_on fp t' where r: "fp_round now rm (en_fps en ! i, t) = Inr (go_on, fp, t')"
    and en': "en' = fp_publish i (go_on, fp, t') en"
    using assms(3) by (auto simp: fp_step_def rbind_Inr_iff split: option.splits)
  have fields: "en_fps en' = (en_fps en)[i := fp]" "en_main_pc en' = en_main_pc en"
    "en_reader_pc en' = en_reader_pc en" "en_raw_packet_queue en' = en_raw_packet_queue en"
    "en_parsers en' = en_parsers en" "en_running en' = en_running en" "en_lbs en' = en_lbs en"
    by (simp_all add: en' fp_publish_def Let_def split: list.split prod.split)
  obtain p where p: "en_fp_pcs en' = (en_fp_pcs en)[i := p]" "p = FP_Ended \<longrightarrow> \<not> go_on"
  proof (cases "drop (length (fp_output (en_fps en ! i))) (fp_output fp)")
    case Nil
    then show thesis
      using that [of "if go_on then FP_Loop t' else FP_Ended"] by (simp add: en' fp_publish_def)
  next
    case (Cons call calls)
    then show thesis
      using that [of "if snd (handleOutput (snd call) en) then FP_Output (fst call) t' else FP_Loop t'"]
      by (simp add: en' fp_publish_def Let_def split_def)
  qed
  show ?thesis
    by (rule fp_round_inv [OF assms(1,2) _ r p(2) fields(1) p(1) fields(2-)]) (simp add: FP_Loop)
next
  case (FP_Output job t)
  then obtain q where "en' = en\<lparr>en_output_queue := q, en_fp_pcs := (en_fp_pcs en)[i := FP_Loop t]\<rparr>"
    using assms(3) by (auto simp: fp_step_def split: option.splits)
  then show ?thesis
    using assms(1,2) FP_Output
    by (auto simp: pipeline_inv_def wired_def downstream_def nth_list_update in_system_def intro: same_parts)
qed (use assms(3) in \<open>simp add: fp_step_def\<close>)

lemma output_inv:
  assumes "pipeline_inv le sh L F J en" and "output_step le en = Some en'"
  shows "pipeline_inv le sh L F J en'"
  by (rule same_inv [OF assms(1)])
    (use assms(2) in \<open>auto simp: output_step_def writeOutputPacket_def Let_def
       split: output_pc.splits option.splits prod.splits\<close>)

text \<open>The shutdown sequence.\<close>

lemma over_simps [simp]:
  "over s M_Stop k \<longleftrightarrow> s < 2" "over s (M_StopParser i) k \<longleftrightarrow> s < 1 \<or> s = 1 \<and> k < i"
  "over s (M_JoinParser i) k \<longleftrightarrow> s < 1 \<or> s = 1 \<and> k < i" "over s (M_StopLB i) k \<longleftrightarrow> s < 3 \<or> s = 3 \<and> k < i"
  "over s (M_JoinLB i) k \<longleftrightarrow> s < 3 \<or> s = 3 \<and> k < i" "over s (M_StopFP i) k \<longleftrightarrow> s < 4 \<or> s = 4 \<and> k < i"
  "over s (M_JoinFP i) k \<longleftrightarrow> s < 4 \<or> s = 4 \<and> k < i" "over s M_JoinReader k \<longleftrightarrow> False"
  "over s M_ShutdownOutput k \<longleftrightarrow> s < 5" "over s M_JoinOutput k \<longleftrightarrow> s < 5" "over s M_Done k \<longleftrightarrow> s < 5"
  by (auto simp: over_def)

lemma stop_holds:
  "i < length ws \<Longrightarrow> sum_list (map at_parser (ws[i := pw_stop (ws ! i)])) = sum_list (map at_parser ws)"
  "i < length lbs \<Longrightarrow> sum_list (map at_lb (lbs[i := lb_stop (lbs ! i)])) = sum_list (map at_lb lbs)"
  "i < length fps \<Longrightarrow> sum_list (map at_fp (fps[i := fp_stop (fps ! i)])) = sum_list (map at_fp fps)"
  using sum_list_map_update [of i ws at_parser "pw_stop (ws ! i)"]
    sum_list_map_update [of i lbs at_lb "lb_stop (lbs ! i)"] sum_list_map_update [of i fps at_fp "fp_stop (fps ! i)"]
  by (simp_all add: at_parser_def at_lb_def at_fp_def)

lemma stop_contents [simp]:
  "pw_pc (ws[i := pw_stop (ws ! i)] ! k) = pw_pc (ws ! k)"
  "lb_pc (lbs[i := lb_stop (lbs ! i)] ! k) = lb_pc (lbs ! k)"
  "tq_items (lb_input_queue (lbs[i := lb_stop (lbs ! i)] ! k)) = tq_items (lb_input_queue (lbs ! k))"
  "lb_fp_queues (lbs[i := lb_stop (lbs ! i)] ! k) = lb_fp_queues (lbs ! k)"
  "lb_num_fps (lbs[i := lb_stop (lbs ! i)] ! k) = lb_num_fps (lbs ! k)"
  "tq_items (fp_input_queue (fps[i := fp_stop (fps ! i)] ! k)) = tq_items (fp_input_queue (fps ! k))"
  "fp_output (fps[i := fp_stop (fps ! i)] ! k) = fp_output (fps ! k)"
  "accounted (fps[i := fp_stop (fps ! i)] ! k) = accounted (fps ! k)"
proof -
  have "g (xs[i := h (xs ! i)] ! k) = g (xs ! k)" if "\<And>x. g (h x) = g x" for g :: "'a \<Rightarrow> 'b" and h xs
    using that by (cases "i < length xs"; cases "i = k") (simp_all add: list_update_beyond)
  note update = this
  show "pw_pc (ws[i := pw_stop (ws ! i)] ! k) = pw_pc (ws ! k)" by (rule update) simp
  show "lb_pc (lbs[i := lb_stop (lbs ! i)] ! k) = lb_pc (lbs ! k)" by (rule update) simp
  show "tq_items (lb_input_queue (lbs[i := lb_stop (lbs ! i)] ! k)) = tq_items (lb_input_queue (lbs ! k))"
    by (rule update) simp
  show "lb_fp_queues (lbs[i := lb_stop (lbs ! i)] ! k) = lb_fp_queues (lbs ! k)" by (rule update) simp
  show "lb_num_fps (lbs[i := lb_stop (lbs ! i)] ! k) = lb_num_fps (lbs ! k)" by (rule update) simp
  show "tq_items (fp_input_queue (fps[i := fp_stop (fps ! i)] ! k)) = tq_items (fp_input_queue (fps ! k))"
    by (rule update) simp
  show "fp_output (fps[i := fp_stop (fps ! i)] ! k) = fp_output (fps ! k)" by (rule update) simp
  show "accounted (fps[i := fp_stop (fps ! i)] ! k) = accounted (fps ! k)" by (rule update) simp
qed

lemma routed_contents:
  assumes "routed sh L F en" and "length (en_parsers en') = length (en_parsers en)"
    and "\<And>i. pw_pc (en_parsers en' ! i) = pw_pc (en_parsers en ! i)"
    and "\<And>i. tq_items (lb_input_queue (en_lbs en' ! i)) = tq_items (lb_input_queue (en_lbs en ! i))"
    and "\<And>i. lb_pc (en_lbs en' ! i) = lb_pc (en_lbs en ! i)"
    and "\<And>i. fp_output (en_fps en' ! i) = fp_output (en_fps en ! i)"
    and "\<And>i. tq_items (fp_input_queue (en_fps en' ! i)) = tq_items (fp_input_queue (en_fps en ! i))"
  shows "routed sh L F en'"
  using assms(1) unfolding routed_def assms(2-) .

lemma main_frame:
  assumes "main_step en = Some en'"
  shows "wired L F en \<Longrightarrow> wired L F en'" and "in_system le en' = in_system le en"
    and "routed sh L F en \<Longrightarrow> routed sh L F en'"
proof -
  show "wired L F en \<Longrightarrow> wired L F en'" and "in_system le en' = in_system le en"
    using assms by (auto simp: main_step_def wired_def in_system_def stop_holds split: main_pc.splits if_splits)
  show "routed sh L F en'" if "routed sh L F en"
    by (rule routed_contents [OF that])
      (use assms in \<open>auto simp: main_step_def split: main_pc.splits if_splits\<close>)
qed

lemma main_inv:
  assumes "pipeline_inv le sh L F J en" and "main_step en = Some en'"
  shows "pipeline_inv le sh L F J en'"
proof -
  have up: "upstream en" and mid: "midstream en" and down: "downstream en"
    using assms(1) by (simp_all add: pipeline_inv_def)
  have run: "en_main_pc en = M_Stop \<Longrightarrow> en_running en" using up by (simp add: upstream_def)
  have "upstream en'"
    using up assms(2)
    by (auto simp: main_step_def upstream_def less_Suc_eq split: main_pc.splits if_splits)
  moreover have "midstream en'"
    using mid run assms(2)
    by (auto simp: main_step_def midstream_def less_Suc_eq split: main_pc.splits if_splits)
  moreover have "downstream en'"
    using down run assms(2)
    by (auto simp: main_step_def downstream_def less_Suc_eq split: main_pc.splits if_splits)
  ultimately show ?thesis
    using assms(1) main_frame [OF assms(2)] by (simp add: pipeline_inv_def)
qed

theorem step_inv:
  assumes "e_step le sh en en'" and "pipeline_inv le sh L F J en"
  shows "pipeline_inv le sh L F J en'"
  using assms(1)
proof cases
  case reader then show ?thesis using reader_inv assms(2) by blast
next
  case parser then show ?thesis using parser_inv assms(2) by blast
next
  case lb then show ?thesis using lb_inv assms(2) by blast
next
  case fp then show ?thesis using fp_inv assms(2) by blast
next
  case writer then show ?thesis using output_inv assms(2) by blast
next
  case main then show ?thesis using main_inv assms(2) by blast
qed (use assms(2) in \<open>auto intro: same_inv\<close>)

lemma run_inv:
  assumes "e_run le sh en en'" and "pipeline_inv le sh L F J en"
  shows "pipeline_inv le sh L F J en'"
  using assms by (induction) (auto intro: step_inv)

section \<open>From the start to the end\<close>

text \<open>
  What the command line program does: it creates the engine, initialises it, sets up rules through the
  interface, and processes a file.
\<close>

definition launch :: "Config \<Rightarrow> (string \<Rightarrow> string option) \<Rightarrow> RuleManager \<Rightarrow> nat \<Rightarrow> bytes option \<Rightarrow> Engine res" where
  "launch config files rm now input =
     rbind (initialize files (new_engine config)) (\<lambda>en.
     rbind (processFile now files input True (en\<lparr>en_rule_manager := Some rm\<rparr>)) (\<lambda>(_, en). Inr en))"

definition file_jobs :: "bool \<Rightarrow> bytes option \<Rightarrow> PacketJob list" where
  "file_jobs le input = jobs le (left_to_read le (Rd_Open input))"

definition fresh_fps :: "nat \<Rightarrow> FastPath list" where
  "fresh_fps n = map (\<lambda>i. fp_start (new_fast_path (int i))) [0..<n]"

definition fresh_lbs :: "nat \<Rightarrow> nat \<Rightarrow> LoadBalancer list" where
  "fresh_lbs L F = map lb_start (standard_lbs L F)"

definition fresh_parsers :: "int \<Rightarrow> ParserWorker list" where
  "fresh_parsers n = pm_startAll (new_parser_manager n)"

lemma new_fp_manager_nat: "new_fp_manager (int n) = map (\<lambda>i. new_fast_path (int i)) [0..<n]"
  by (simp add: new_fp_manager_def upto_nat comp_def)

lemma launch_state:
  assumes "num_load_balancers config = int L" and "fps_per_lb config = int F"
    and "launch config files rm now input = Inr en"
  shows "en = (new_engine config)
    \<lparr>en_rule_manager := Some rm, en_fps := fresh_fps (L * F), en_lbs := fresh_lbs L F,
     en_parsers := fresh_parsers (num_parser_workers config), en_output_file := Some [], en_running := True,
     en_output_pc := Out_Test, en_fp_pcs := replicate (L * F) (FP_Loop now), en_reads_file := True,
     en_reader_pc := Rd_Open input, en_main_pc := M_JoinReader\<rparr>"
proof -
  have fps: "length (new_fp_manager (int L * int F)) = L * F"
    unfolding of_nat_mult [symmetric] new_fp_manager_nat by simp
  have start: "fpm_startAll (new_fp_manager (int L * int F)) = fresh_fps (L * F)"
    unfolding of_nat_mult [symmetric] new_fp_manager_nat by (simp add: fpm_startAll_def fresh_fps_def comp_def)
  have pcs: "map (\<lambda>_. FP_Loop now) (new_fp_manager (int L * int F)) = replicate (L * F) (FP_Loop now)"
    unfolding fps [symmetric] by (simp add: map_replicate_const)
  have nonneg: "\<not> int L * int F < 0" by (simp add: mult_nonneg_nonneg not_less)
  from assms(3) show ?thesis
    by (auto simp: nonneg launch_def initialize_def rbind_Inr_iff Let_def assms(1,2) fps new_lb_manager_standard
        processFile_def en_start_def new_engine_def start pcs fresh_lbs_def lbm_startAll_def fresh_parsers_def)
qed

lemma fresh_parser:
  "i < length (fresh_parsers n) \<Longrightarrow> pw_running (fresh_parsers n ! i) \<and> pw_pc (fresh_parsers n ! i) = PW_Pop"
  by (auto simp: fresh_parsers_def pm_startAll_def new_parser_manager_def new_parser_worker_def pw_start_def Let_def)

lemma fresh_parsers_nonempty: "fresh_parsers n \<noteq> []"
  by (simp add: fresh_parsers_def pm_startAll_def new_parser_manager_def Let_def)

lemma launch_inv:
  assumes "num_load_balancers config = int L" and "fps_per_lb config = int F" and "0 < L" and "0 < F"
    and "launch config files rm now input = Inr en"
  shows "pipeline_inv le sh L F (mset (file_jobs le input)) en"
proof -
  have "accounted (fp_start (new_fast_path i))" for i
    using accounted_new [of i] by (simp add: accounted_def fp_start_def)
  then have fps: "downstream en"
    by (auto simp: downstream_def launch_state [OF assms(1,2,5)] fresh_fps_def fp_start_def new_fast_path_def
        new_queue_def over_def)
  have holds: "map at_fp (fresh_fps n) = replicate n {#}" "map at_lb (fresh_lbs L F) = replicate L {#}"
    "map at_parser (fresh_parsers k) = replicate (length (fresh_parsers k)) {#}" for n k
  proof -
    show "map at_fp (fresh_fps n) = replicate n {#}"
      by (rule nth_equalityI) (simp_all add: fresh_fps_def at_fp_def fp_start_def new_fast_path_def new_queue_def)
    show "map at_lb (fresh_lbs L F) = replicate L {#}"
      by (rule nth_equalityI)
        (simp_all add: fresh_lbs_def at_lb_def lb_start_def new_load_balancer_def new_queue_def)
    show "map at_parser (fresh_parsers k) = replicate (length (fresh_parsers k)) {#}"
      by (rule nth_equalityI) (simp_all add: fresh_parser at_parser_def)
  qed
  have empty: "sum_list (replicate n ({#} :: PacketJob multiset)) = {#}" for n by (induction n) auto
  have lbs: "length (fresh_lbs L F) = L"
    "i < L \<Longrightarrow> fresh_lbs L F ! i = lb_start (new_load_balancer (int i) [i * F..<i * F + F] (int (i * F)))" for i
    by (simp_all add: fresh_lbs_def)
  have fp: "length (fresh_fps (L * F)) = L * F"
    "i < L * F \<Longrightarrow> fresh_fps (L * F) ! i = fp_start (new_fast_path (int i))" for i
    by (simp_all add: fresh_fps_def)
  have "wired L F en"
    using assms(3,4) lbs fp
    by (simp add: wired_def launch_state [OF assms(1,2,5)] lb_start_def new_load_balancer_def)
  moreover have "midstream en"
    using lbs
    by (simp add: midstream_def launch_state [OF assms(1,2,5)] lb_start_def new_load_balancer_def new_queue_def over_def)
  moreover have "routed sh L F en"
    using lbs fp fresh_parser
    by (simp add: routed_def launch_state [OF assms(1,2,5)] lb_start_def new_load_balancer_def new_queue_def
        fp_start_def new_fast_path_def)
  moreover have "upstream en"
    using fresh_parser fresh_parsers_nonempty
    by (simp add: upstream_def launch_state [OF assms(1,2,5)] new_engine_def new_queue_def over_def)
  moreover have "in_system le en = mset (file_jobs le input)"
    by (simp add: in_system_def launch_state [OF assms(1,2,5)] holds empty file_jobs_def new_engine_def new_queue_def
        del: left_to_read.simps)
  ultimately show ?thesis using fps by (simp add: pipeline_inv_def)
qed

section \<open>The counters of the engine\<close>

definition decisions :: "Engine \<Rightarrow> (PacketJob \<times> PacketAction) list" where
  "decisions en = concat (map fp_output (en_fps en))"

definition counted :: "Engine \<Rightarrow> bool" where
  "counted en \<longleftrightarrow>
     dropped_packets (en_stats en) = length (filter (\<lambda>(_, a). a = DROP) (decisions en)) \<and>
     forwarded_packets (en_stats en) = length (filter (\<lambda>(_, a). a \<noteq> DROP) (decisions en))"

lemma same_counted:
  assumes "counted en" and "dropped_packets (en_stats en') = dropped_packets (en_stats en)"
    and "forwarded_packets (en_stats en') = forwarded_packets (en_stats en)"
    and "map fp_output (en_fps en') = map fp_output (en_fps en)"
  shows "counted en'"
  using assms by (simp add: counted_def decisions_def)

lemma map_update_same: "f y = f (xs ! i) \<Longrightarrow> map f (xs[i := y]) = map f xs"
  by (cases "i < length xs") (metis list_update_id map_update nth_map, simp add: list_update_beyond)

lemma filter_concat_update:
  assumes "i < length xs"
  shows "length (filter P (concat (xs[i := xs ! i @ [x]]))) = length (filter P (concat xs)) + (if P x then 1 else 0)"
  using assms
proof (induction xs arbitrary: i)
  case (Cons y ys)
  then show ?case by (cases i) auto
qed simp

lemma fp_counted:
  assumes "counted en" and "i < length (en_fps en)" and "accounted (en_fps en ! i)"
    and "fp_step now i en = Inr (Some en')"
  shows "counted en'"
proof (cases "en_fp_pcs en ! i")
  case (FP_Loop t)
  then obtain rm go_on fp t' where r: "fp_round now rm (en_fps en ! i, t) = Inr (go_on, fp, t')"
    and en': "en' = fp_publish i (go_on, fp, t') en"
    using assms(4) by (auto simp: fp_step_def rbind_Inr_iff split: option.splits)
  show ?thesis
  proof (cases rule: fp_round_calls [OF assms(3) r])
    case 1
    then show ?thesis
      by (intro same_counted [OF assms(1)]) (simp_all add: en' fp_publish_def map_update_same)
  next
    case (2 job a)
    have d: "decisions en' = concat ((map fp_output (en_fps en))[i := map fp_output (en_fps en) ! i @ [(job, a)]])"
      using 2(1) assms(2)
      by (simp add: decisions_def en' fp_publish_def Let_def split_def map_update)
    have i: "i < length (map fp_output (en_fps en))" using assms(2) by simp
    have "en_stats en' = fst (handleOutput a en)"
      using 2(1) by (simp add: en' fp_publish_def Let_def split_def)
    then show ?thesis
      using assms(1) unfolding counted_def d filter_concat_update [OF i]
      by (simp add: handleOutput_def Let_def decisions_def)
  qed
next
  case (FP_Output job t)
  then obtain q where "en' = en\<lparr>en_output_queue := q, en_fp_pcs := (en_fp_pcs en)[i := FP_Loop t]\<rparr>"
    using assms(4) by (auto simp: fp_step_def split: option.splits)
  then show ?thesis by (intro same_counted [OF assms(1)]) simp_all
qed (use assms(4) in \<open>simp add: fp_step_def\<close>)

lemma step_counted:
  assumes "e_step le sh en en'" and "counted en" and "downstream en"
  shows "counted en'"
  using assms(1)
proof cases
  case reader
  then show ?thesis
    by (intro same_counted [OF assms(2)])
      (auto simp: reader_step_def writeOutputHeader_def count_read_def
        split: reader_pc.splits list.splits option.splits prod.splits bool.splits)
next
  case (parser i)
  then show ?thesis
    by (intro same_counted [OF assms(2)])
      (auto simp: parser_step_def rbind_Inr_iff split: pw_pc.splits option.splits)
next
  case (lb i)
  then show ?thesis
    by (intro same_counted [OF assms(2)])
      (auto simp: lb_step_def rbind_Inr_iff Let_def map_update_same split: lb_pc.splits option.splits)
next
  case (fp i now)
  then show ?thesis using fp_counted [OF assms(2)] assms(3) by (auto simp: downstream_def)
next
  case writer
  then show ?thesis
    by (intro same_counted [OF assms(2)])
      (auto simp: output_step_def writeOutputPacket_def Let_def split: output_pc.splits option.splits prod.splits)
next
  case main
  then show ?thesis
    by (intro same_counted [OF assms(2)])
      (auto simp: main_step_def map_update_same split: main_pc.splits if_splits)
qed (auto intro: same_counted [OF assms(2)])

lemma run_counted:
  assumes "e_run le sh en en'" and "counted en" and "pipeline_inv le sh L F J en"
  shows "counted en'"
proof -
  have "counted en' \<and> pipeline_inv le sh L F J en'"
    using assms
  proof (induction)
    case (step en1 en2)
    then have "counted en1" "pipeline_inv le sh L F J en1" by blast+
    then show ?case
      using step_inv [OF step.hyps(2)] step_counted [OF step.hyps(2)]
      by (metis pipeline_inv_def)
  qed simp
  then show ?thesis by simp
qed

lemma launch_counted:
  assumes "num_load_balancers config = int L" and "fps_per_lb config = int F"
    and "launch config files rm now input = Inr en"
  shows "counted en"
proof -
  have "map fp_output (fresh_fps n) = replicate n []" for n
    by (rule nth_equalityI) (simp_all add: fresh_fps_def fp_start_def new_fast_path_def)
  moreover have "concat (replicate n []) = []" for n by (induction n) auto
  ultimately show ?thesis
    by (simp add: counted_def decisions_def launch_state [OF assms] new_engine_def)
qed

text \<open>
  C2. No packet is lost or decided twice on its way to the fast paths, however the threads interleave
  and however the rules change meanwhile: when the main thread has finished, the packets the fast paths
  have decided on are exactly the accepted packets of the input file, each as often as it was read; each
  was decided by the fast path its flow belongs to, so both directions of a flow by the same one; and
  the engine's counters of forwarded and dropped packets are the numbers of these decisions.
\<close>

theorem each_packet_is_decided_once:
  assumes "num_load_balancers config = int L" and "fps_per_lb config = int F" and "0 < L" and "0 < F"
    and "launch config files rm now input = Inr en" and "e_run le sh en en'" and "en_main_pc en' = M_Done"
  shows "mset (map fst (decisions en')) = mset (file_jobs le input) \<and>
    (\<forall>i < L * F. \<forall>(job, a) \<in> set (fp_output (en_fps en' ! i)). route sh L F (pj_tuple job) = i) \<and>
    dropped_packets (en_stats en') = length (filter (\<lambda>(_, a). a = DROP) (decisions en')) \<and>
    forwarded_packets (en_stats en') = length (filter (\<lambda>(_, a). a \<noteq> DROP) (decisions en'))"
proof -
  note start = launch_inv [OF assms(1-5)]
  have inv: "pipeline_inv le sh L F (mset (file_jobs le input)) en'" by (rule run_inv [OF assms(6) start])
  then have parts: "wired L F en'" "upstream en'" "midstream en'" "downstream en'" "routed sh L F en'"
    "in_system le en' = mset (file_jobs le input)"
    by (simp_all add: pipeline_inv_def)
  have up: "en_reader_pc en' = Rd_Done" "\<And>w. w \<in> set (en_parsers en') \<Longrightarrow> pw_pc w = PW_Ended"
    "en_parsers en' \<noteq> [] \<Longrightarrow> tq_items (en_raw_packet_queue en') = []"
    using parts(2) assms(7) by (auto simp: upstream_def in_set_conv_nth)
  have np: "en_parsers en' \<noteq> []" using parts(2) by (simp add: upstream_def)
  have lbs: "\<And>lb. lb \<in> set (en_lbs en') \<Longrightarrow> lb_pc lb = Ended \<and> tq_items (lb_input_queue lb) = []"
    using parts(3) assms(7) by (auto simp: midstream_def in_set_conv_nth)
  have fps: "\<And>fp. fp \<in> set (en_fps en') \<Longrightarrow> tq_items (fp_input_queue fp) = []"
    using parts(4) assms(7) by (auto simp: downstream_def in_set_conv_nth)
  have none: "(\<And>x. x \<in> set xs \<Longrightarrow> f x = {#}) \<Longrightarrow> sum_list (map f xs) = {#}" for f :: "'x \<Rightarrow> PacketJob multiset" and xs
    by (induction xs) auto
  have "sum_list (map at_parser (en_parsers en')) = {#}" by (rule none) (simp add: up at_parser_def)
  moreover have "sum_list (map at_lb (en_lbs en')) = {#}" by (rule none) (simp add: lbs at_lb_def)
  moreover have "sum_list (map at_fp (en_fps en')) = mset (map fst (decisions en'))"
  proof -
    have "sum_list (map at_fp xs) = mset (map fst (concat (map fp_output xs)))"
      if "\<And>fp. fp \<in> set xs \<Longrightarrow> tq_items (fp_input_queue fp) = []" for xs
      using that by (induction xs) (auto simp: at_fp_def)
    then show ?thesis using fps by (simp add: decisions_def)
  qed
  ultimately have "mset (map fst (decisions en')) = mset (file_jobs le input)"
    using parts(6) up np by (simp add: in_system_def)
  moreover have "\<forall>i < L * F. \<forall>(job, a) \<in> set (fp_output (en_fps en' ! i)). route sh L F (pj_tuple job) = i"
  proof (intro allI impI ballI, clarify)
    fix i job a
    assume "i < L * F" and "(job, a) \<in> set (fp_output (en_fps en' ! i))"
    then have "job \<in> set (map fst (fp_output (en_fps en' ! i)) @ tq_items (fp_input_queue (en_fps en' ! i)))"
      by force
    with \<open>i < L * F\<close> show "route sh L F (pj_tuple job) = i"
      using parts(5) unfolding routed_def by blast
  qed
  ultimately show ?thesis
    using run_counted [OF assms(6) launch_counted [OF assms(1,2,5)] start] by (simp add: counted_def)
qed

end
