(* ===== verification/Shutdown.thy ===== *)
theory Shutdown
  imports Pipeline
begin

text \<open>
  Executions of the engine under chosen schedules, and what they show: packets that were forwarded and
  are missing from the output, a shutdown that never ends, and packets of one flow that overtake each
  other. The counterpart of the guarantees of \<open>Pipeline\<close>.
\<close>

section \<open>Schedules\<close>

text \<open>The steps of a given sequence of threads.\<close>

datatype thread = T_Reader | T_Parser nat | T_LB nat | T_FP nat nat | T_Output | T_Main

definition thread_step :: "bool \<Rightarrow> std_hash \<Rightarrow> thread \<Rightarrow> Engine \<Rightarrow> Engine option" where
  "thread_step le sh t en =
     (case t of
        T_Reader \<Rightarrow> reader_step le en
      | T_Parser i \<Rightarrow> if i < length (en_parsers en) then (case parser_step le sh i en of Inr r \<Rightarrow> r | _ \<Rightarrow> None) else None
      | T_LB i \<Rightarrow> if i < length (en_lbs en) then (case lb_step sh i en of Inr r \<Rightarrow> r | _ \<Rightarrow> None) else None
      | T_FP now i \<Rightarrow> if i < length (en_fps en) then (case fp_step now i en of Inr r \<Rightarrow> r | _ \<Rightarrow> None) else None
      | T_Output \<Rightarrow> output_step le en
      | T_Main \<Rightarrow> main_step en)"

fun schedule :: "bool \<Rightarrow> std_hash \<Rightarrow> thread list \<Rightarrow> Engine \<Rightarrow> Engine option" where
  "schedule le sh [] en = Some en"
| "schedule le sh (t # ts) en =
     (if en_fault en \<noteq> None then None else
      case thread_step le sh t en of None \<Rightarrow> None | Some en' \<Rightarrow> schedule le sh ts en')"

lemma thread_step_e_step:
  assumes "thread_step le sh t en = Some en'" and "en_fault en = None"
  shows "e_step le sh en en'"
  using assms by (cases t) (auto simp: thread_step_def intro: e_step.intros split: if_splits sum.splits)

lemma schedule_run: "schedule le sh ts en = Some en' \<Longrightarrow> e_run le sh en en'"
proof (induction ts arbitrary: en)
  case (Cons t ts)
  then obtain en1 where "e_step le sh en en1" and "schedule le sh ts en1 = Some en'"
    by (auto split: option.splits if_splits intro: thread_step_e_step)
  then show ?case using Cons.IH by (meson converse_rtranclp_into_rtranclp)
qed simp



text \<open>A packet without payload is forwarded when no address rule applies and its flow is not classified.\<close>

definition undecided :: "FlowKey \<Rightarrow> ConnectionTracker \<Rightarrow> bool" where
  "undecided key ct \<longleftrightarrow> (case getConnection ct key of None \<Rightarrow> True | Some c \<Rightarrow> c_state c \<notin> {BLOCKED, CLASSIFIED})"

lemma bare_packet_forwarded:
  assumes "accounted fp" and "pj_has_flow_key job" and "ipv4_key (pj_flow_key job) src dst"
    and "\<not> isIPBlocked rm src" and "\<not> isIPBlocked rm dst" and "getPayload job = None"
    and "undecided (pj_flow_key job) (fp_connection_tracker fp)"
  shows "\<exists>fp'. processPacket now rm job fp = Inr fp' \<and> fp_output fp' = fp_output fp @ [(job, FORWARD)] \<and>
    accounted fp' \<and> undecided (pj_flow_key job) (fp_connection_tracker fp')"
proof -
  let ?key = "pj_flow_key job"
  have wf: "wf_tracker (fp_connection_tracker fp)" using assms(1) by (simp add: accounted_def)
  obtain ct0 c0 where e: "getOrCreateConnection now ?key (fp_connection_tracker fp) = Inr ct0"
    "getConnection ct0 ?key = Some c0" "entry_for now ?key (fp_connection_tracker fp) c0"
    using entry_exists [OF ipv4_one_family [OF assms(3)]] by blast
  have fk: "c_flow_key c0 = fk_canonical ?key" by (rule entry_flow_key [OF wf e(3)])
  have st: "c_state c0 \<notin> {BLOCKED, CLASSIFIED}"
    using e(3) assms(7) by (auto simp: entry_for_def undecided_def new_connection_fields split: option.splits)
  have "acted (processPacket now rm job fp) fp job FORWARD (\<lambda>c. c_state c \<notin> {BLOCKED, CLASSIFIED})"
  proof (rule processPacket_acted [OF assms(2) e(1,2)])
    let ?c = "packet_fields now job (client_side ?key c0) c0"
    fix ct assume c: "getConnection ct ?key = Some ?c"
    have "ip_rule_applies rm ?c = Inr False"
      using ip_rule_applies_ipv4 [OF assms(3), of ?c rm] fk assms(4,5) by simp
    moreover have "inspectPayload now ?key job b ct = Inr ct" for b by (simp add: inspectPayload_def assms(6))
    moreover have "c_state ?c \<notin> {BLOCKED, CLASSIFIED}" using st by simp
    ultimately show "\<exists>ct' c. decide_packet now rm job (client_side ?key c0) ct = Inr (FORWARD, ct') \<and>
        getConnection ct' ?key = Some c \<and> c_state c \<notin> {BLOCKED, CLASSIFIED}"
      using c by (intro exI [of _ ct] exI [of _ ?c]) (simp add: decide_packet_def conn_at_def Let_def)
  qed
  then obtain fp' where "processPacket now rm job fp = Inr fp'" "fp_output fp' = fp_output fp @ [(job, FORWARD)]"
    "undecided ?key (fp_connection_tracker fp')"
    by (auto simp: acted_def undecided_def)
  then show ?thesis using processPacket_accounted [OF assms(1)] by blast
qed

section \<open>A sample capture\<close>

text \<open>A TCP segment without payload; a capture that holds it \<open>n\<close> times; an engine with one lane.\<close>

definition bare_segment :: tcp_segment where
  "bare_segment = \<lparr>sg_src_port = 50000, sg_dst_port = 443, sg_seq = 1000, sg_ack = 0, sg_reserved = 0,
     sg_flags = 0x10, sg_window_checksum_urgent = [1, 2, 3, 4, 0, 0], sg_options = [], sg_payload = []\<rparr>"

definition bare_frame :: bytes where
  "bare_frame = ethernet_bytes [1, 2, 3, 4, 5, 6] [6, 5, 4, 3, 2, 1] 0x0800 @ ipv4_header_bytes 6 sample_ip @
     tcp_header_bytes bare_segment"

definition sample_capture :: "nat \<Rightarrow> bytes option" where
  "sample_capture n = Some (store_global_header True sample_header @ output_body True (replicate n (7, 9, bare_frame)))"

definition sample_raw :: "nat \<Rightarrow> RawPacketJob" where
  "sample_raw i = \<lparr>rj_packet_id = of_nat i, rj_ts_sec = 7, rj_ts_usec = 9, rj_data = bare_frame\<rparr>"

definition one_lane :: "int \<Rightarrow> nat \<Rightarrow> Config" where
  "one_lane workers n = \<lparr>num_parser_workers = workers, num_load_balancers = 1, fps_per_lb = 1, queue_size = n,
     rules_file = [], verbose = False\<rparr>"

lemma sample_capture_read:
  "\<exists>reader. pcap_open True (sample_capture n) closed_reader = (True, reader) \<and>
     pr_global_header reader = sample_header \<and> raw_jobs (read_packets True reader) = map sample_raw [0..<n]"
proof -
  have len: "length bare_frame = 54"
    by (simp add: bare_frame_def ethernet_bytes_def store16_def ipv4_header_bytes_def sample_ip_def quad_def
        tcp_header_bytes_def store32_def bare_segment_def)
  then have fits: "\<forall>p \<in> set (replicate n (7, 9, bare_frame)). fits (snaplen sample_header) p"
    by (auto simp: fits_def sample_header_def)
  have "magic_number sample_header = PCAP_MAGIC_NATIVE" by (simp add: sample_header_def PCAP_MAGIC_NATIVE_def)
  from capture_read_back [OF this fits, of True closed_reader] obtain r where
    r: "pcap_open True (sample_capture n) closed_reader = (True, r)" "pr_global_header r = sample_header"
      "read_packets True r = map Pcap.raw_of (replicate n (7, 9, bare_frame))"
    by (auto simp: sample_capture_def)
  moreover have "raw_jobs (map Pcap.raw_of (replicate n (7, 9, bare_frame))) = map sample_raw [0..<n]"
    by (rule nth_equalityI)
      (simp_all add: raw_jobs_def sample_raw_def output_packet_header_def nth_enumerate_eq)
  ultimately show ?thesis by auto
qed

lemma bare_job:
  "\<exists>job. job_of True (sample_raw i) = Inr (Some job) \<and> pj_has_flow_key job \<and> getPayload job = None \<and>
     pj_flow_key job = fromFiveTuple \<lparr>ft_src_ip = load32_at True [10, 0, 0, 1] 0, ft_dst_ip = load32_at True [10, 0, 0, 2] 0,
       ft_src_port = 50000, ft_dst_port = 443, ft_protocol = 6\<rparr>"
proof -
  have "wf_segment bare_segment" "wf_ipv4_packet sample_ip"
    by (simp_all add: wf_segment_def bare_segment_def wf_ipv4_packet_def sample_ip_def)
  from tcp4_frame_parsed [OF this, of "[1, 2, 3, 4, 5, 6]" "[6, 5, 4, 3, 2, 1]" "raw_packet (sample_raw i)" True]
  obtain pk where pk: "parse True (raw_packet (sample_raw i)) = Inr (True, pk)" "pp_ip_version pk = 4" "pp_has_tcp pk"
    "pp_payload_data pk = []" "pp_src_ip_raw pk = load32_at True [10, 0, 0, 1] 0"
    "pp_dst_ip_raw pk = load32_at True [10, 0, 0, 2] 0" "pp_src_port pk = 50000" "pp_dest_port pk = 443"
    by (auto simp: raw_packet_def sample_raw_def bare_frame_def bare_segment_def sample_ip_def quad_def)
  have "pp_protocol pk = 6" using parse_wf [OF pk(1)] pk(3) by (simp add: wf_parsed_def)
  then show ?thesis
    using ipv4_job [OF pk(1,2), of "rj_packet_id (sample_raw i)"] pk
    by (auto simp: job_of_def tuple_of_def proper_job_def)
qed

lemma launch_one_lane: "\<exists>en. launch (one_lane workers n) files rm now input = Inr en"
proof -
  have "new_lb_manager 1 1 [0] = Inr (standard_lbs 1 1)"
    using new_lb_manager_standard [of 1 1] by simp
  moreover have "length (new_fp_manager 1) = 1" using new_fp_manager_nat [of 1] by simp
  ultimately show ?thesis
    by (simp add: launch_def initialize_def processFile_def one_lane_def new_engine_def Let_def)
qed

section \<open>Runs of one lane\<close>

text \<open>The start of an engine with one lane, the rounds of its fast path, and the steps of all threads.\<close>

lemma lane_launch:
  assumes "num_load_balancers config = 1" and "fps_per_lb config = 1" and "num_parser_workers config = 1"
    and "launch config rc rm now input = Inr en"
  shows "en = (new_engine config)
    \<lparr>en_rule_manager := Some rm, en_fps := [fp_start (new_fast_path 0)],
     en_lbs := [lb_start (new_load_balancer 0 [0] 0)], en_parsers := [pw_start (new_parser_worker 0)],
     en_output_file := Some [], en_running := True, en_output_pc := Out_Test, en_fp_pcs := [FP_Loop now],
     en_reads_file := True, en_reader_pc := Rd_Open input, en_main_pc := M_JoinReader\<rparr>"
proof -
  have cfg: "num_load_balancers config = int 1" "fps_per_lb config = int 1" using assms by simp_all
  have lists: "fresh_fps (1 * 1) = [fp_start (new_fast_path 0)]" "fresh_lbs 1 1 = [lb_start (new_load_balancer 0 [0] 0)]"
    "fresh_parsers 1 = [pw_start (new_parser_worker 0)]" "replicate (1 * 1) (FP_Loop now) = [FP_Loop now]"
    by (simp_all add: fresh_fps_def fresh_lbs_def standard_lbs_def fresh_parsers_def pm_startAll_def
        new_parser_manager_def Let_def)
  show ?thesis by (rule launch_state [OF cfg assms(4), unfolded assms(3) lists])
qed

lemma lane_first_round:
  fixes fp' :: FastPath
  assumes "processPacket now rm job (fp_start (new_fast_path 0)) = Inr fp'"
  shows "fp_round now rm ((fp_start (new_fast_path 0))
      \<lparr>fp_input_queue := \<lparr>tq_items = [job], tq_max_size = 10000, tq_shutdown = False\<rparr>\<rparr>, now) = Inr (True, fp', now)"
    and "fp_running fp'" and "fp_input_queue fp' = new_queue 10000" and "accounted fp'"
proof -
  have "accounted (fp_start (new_fast_path 0))"
    using accounted_new [of 0] by (simp add: accounted_def fp_start_def)
  from processPacket_accounted [OF this assms]
  show "fp_running fp'" "fp_input_queue fp' = new_queue 10000" "accounted fp'"
    by (simp_all add: fp_start_def new_fast_path_def)
qed (use assms in \<open>simp add: fp_round_def tsq_popWithTimeout_def take_front_def Let_def fp_start_def
    new_fast_path_def new_queue_def\<close>)

lemma lane_last_round:
  assumes "fp_running fp'" and "fp_input_queue fp' = new_queue 10000"
  shows "fp_round now rm (fp_stop fp', now) = Inr (False, fp_stop fp', now)"
  using assms
  by (simp add: fp_round_def tsq_popWithTimeout_def take_front_def Let_def fp_stop_def new_queue_def
      tsq_shutdown_def tsq_empty_def)

lemmas lane_steps = thread_step_def new_engine_def reader_step_def writeOutputHeader_def new_queue_def tsq_push_def
  parser_step_def pw_take_def tsq_popWithTimeout_def take_front_def getLBForPacket_def pw_put_def lb_step_def
  lb_take_def selectFP_def lb_put_def pw_start_def new_parser_worker_def lb_start_def new_load_balancer_def
  Let_def main_step_def tsq_shutdown_def pw_stop_def lb_stop_def tsq_empty_def output_step_def fp_step_def
  fp_publish_def handleOutput_def count_read_def fp_start_def new_fast_path_def

section \<open>A lost packet\<close>

text \<open>
  The main thread clears \<open>running_\<close> while the packet is still queued for the fast path; the output thread
  finds its own queue empty and ends.
\<close>

definition lossy_schedule :: "nat \<Rightarrow> thread list" where
  "lossy_schedule now =
     [T_Reader, T_Reader, T_Reader, T_Reader, T_Parser 0, T_Parser 0, T_LB 0, T_LB 0, T_Main, T_Main, T_Parser 0,
      T_Main, T_Main, T_Main, T_Output, T_FP now 0, T_FP now 0, T_Main, T_LB 0, T_Main, T_Main, T_Main,
      T_FP now 0, T_Main, T_Main, T_Main, T_Main]"

lemma lossy_run:
  fixes fp' :: FastPath
  assumes "num_load_balancers config = 1" and "fps_per_lb config = 1" and "num_parser_workers config = 1"
    and "0 < queue_size config"
    and "launch config rc rm now input = Inr en"
    and "pcap_open le input closed_reader = (True, reader)" and "raw_jobs (read_packets le reader) = [rj]"
    and "job_of le rj = Inr (Some job)"
    and "processPacket now rm job (fp_start (new_fast_path 0)) = Inr fp'" and "fp_output fp' = [(job, FORWARD)]"
  shows "\<exists>en'. schedule le sh (lossy_schedule now) en = Some en' \<and> en_main_pc en' = M_Done \<and>
    fp_output (en_fps en' ! 0) = [(job, FORWARD)] \<and>
    forwarded_packets (en_stats en') = 1 \<and> tq_items (en_output_queue en') = [job] \<and>
    en_output_file en' = Some (store_global_header le (pr_global_header reader))"
proof -
  note start = lane_launch [OF assms(1-3,5)] and r1 = lane_first_round [OF assms(9)]
  note r2 = lane_last_round [OF r1(2,3), of now rm]
  show ?thesis
    unfolding start lossy_schedule_def using assms(4,6-8,10) r1 r2 by (simp add: lane_steps)
qed

text \<open>
  C16. Forwarding a packet does not put it into the output. The engine's \<open>stop\<close> clears \<open>running_\<close> before the
  fast paths have drained their queues; an output thread that finds its queue empty at that moment ends,
  and what is forwarded afterwards stays in the queue: the program finishes normally, reports the packet
  as forwarded, and the output file consists of the header alone.
\<close>

theorem forwarded_packet_can_be_lost:
  assumes "num_load_balancers config = 1" and "fps_per_lb config = 1" and "num_parser_workers config = 1"
    and "0 < queue_size config"
    and "launch config rc rm now input = Inr en"
    and "pcap_open le input closed_reader = (True, reader)" and "raw_jobs (read_packets le reader) = [rj]"
    and "job_of le rj = Inr (Some job)"
    and "processPacket now rm job (fp_start (new_fast_path 0)) = Inr fp'" and "fp_output fp' = [(job, FORWARD)]"
  shows "\<exists>en'. e_run le sh en en' \<and> en_main_pc en' = M_Done \<and> forwarded_packets (en_stats en') = 1 \<and>
    en_output_file en' = Some (store_global_header le (pr_global_header reader))"
  using lossy_run [OF assms(1-10)] schedule_run by blast

lemma bare_job_forwarded:
  assumes "job_of True (sample_raw i) = Inr (Some job)" and "pj_has_flow_key job" and "getPayload job = None"
    and "pj_flow_key job = fromFiveTuple t"
    and "accounted fp" and "undecided (fromFiveTuple t) (fp_connection_tracker fp)"
  shows "\<exists>fp'. processPacket now no_rules job fp = Inr fp' \<and> fp_output fp' = fp_output fp @ [(job, FORWARD)] \<and>
    accounted fp' \<and> undecided (fromFiveTuple t) (fp_connection_tracker fp')"
  using bare_packet_forwarded [OF assms(5,2), of "ft_src_ip t" "ft_dst_ip t" no_rules] assms
  by (simp add: ipv4_key_def fromFiveTuple_def isIPBlocked_def no_rules_def)

lemma fresh_fp: "accounted (fp_start (new_fast_path i))" "undecided key (fp_connection_tracker (fp_start (new_fast_path i)))"
  "fp_output (fp_start (new_fast_path i)) = []"
  using accounted_new [of i]
  by (simp_all add: accounted_def fp_start_def undecided_def new_fast_path_def new_tracker_def getConnection_def)

text \<open>The sample meets what \<open>lossy_run\<close> asks for.\<close>

lemma lossy_sample:
  "\<exists>en reader job fp'. launch (one_lane 1 10000) (\<lambda>_. None) no_rules 0 (sample_capture 1) = Inr en \<and>
     pcap_open True (sample_capture 1) closed_reader = (True, reader) \<and> pr_global_header reader = sample_header \<and>
     raw_jobs (read_packets True reader) = [sample_raw 0] \<and> job_of True (sample_raw 0) = Inr (Some job) \<and>
     processPacket 0 no_rules job (fp_start (new_fast_path 0)) = Inr fp' \<and> fp_output fp' = [(job, FORWARD)]"
proof -
  obtain job t where j: "job_of True (sample_raw 0) = Inr (Some job)" and rest: "pj_has_flow_key job" "getPayload job = None"
    and t: "pj_flow_key job = fromFiveTuple t"
    using bare_job [of 0] by blast
  obtain fp' where "processPacket 0 no_rules job (fp_start (new_fast_path 0)) = Inr fp'" "fp_output fp' = [(job, FORWARD)]"
    using bare_job_forwarded [OF j rest t fresh_fp(1,2), of 0 0] fresh_fp(3) by auto
  moreover obtain reader where "pcap_open True (sample_capture 1) closed_reader = (True, reader)"
    "pr_global_header reader = sample_header" "raw_jobs (read_packets True reader) = [sample_raw 0]"
    using sample_capture_read [of 1] by auto
  moreover obtain en where "launch (one_lane 1 10000) (\<lambda>_. None) no_rules 0 (sample_capture 1) = Inr en"
    using launch_one_lane by blast
  ultimately show ?thesis using j by blast
qed

lemma forwarded_packet_can_be_lost_witness:
  "\<exists>en en'. launch (one_lane 1 10000) (\<lambda>_. None) no_rules 0 (sample_capture 1) = Inr en \<and> e_run True sample_hash en en' \<and>
     en_main_pc en' = M_Done \<and> forwarded_packets (en_stats en') = 1 \<and>
     en_output_file en' = Some (store_global_header True sample_header)"
proof -
  obtain en reader job fp' where h: "launch (one_lane 1 10000) (\<lambda>_. None) no_rules 0 (sample_capture 1) = Inr en"
    "pcap_open True (sample_capture 1) closed_reader = (True, reader)" "raw_jobs (read_packets True reader) = [sample_raw 0]"
    "job_of True (sample_raw 0) = Inr (Some job)"
    "processPacket 0 no_rules job (fp_start (new_fast_path 0)) = Inr fp'" "fp_output fp' = [(job, FORWARD)]"
    and r: "pr_global_header reader = sample_header"
    using lossy_sample by blast
  from forwarded_packet_can_be_lost [OF _ _ _ _ h, of sample_hash] show ?thesis
    using h(1) r by (auto simp: one_lane_def)
qed

lemma each_packet_is_decided_once_witness:
  "\<exists>en en' job. launch (one_lane 1 10000) (\<lambda>_. None) no_rules 0 (sample_capture 1) = Inr en \<and>
     e_run True sample_hash en en' \<and> en_main_pc en' = M_Done \<and> mset (map fst (decisions en')) = {#job#}"
proof -
  obtain en reader job fp' where h: "launch (one_lane 1 10000) (\<lambda>_. None) no_rules 0 (sample_capture 1) = Inr en"
    "pcap_open True (sample_capture 1) closed_reader = (True, reader)" "raw_jobs (read_packets True reader) = [sample_raw 0]"
    "job_of True (sample_raw 0) = Inr (Some job)"
    "processPacket 0 no_rules job (fp_start (new_fast_path 0)) = Inr fp'" "fp_output fp' = [(job, FORWARD)]"
    using lossy_sample by blast
  obtain en' where "schedule True sample_hash (lossy_schedule 0) en = Some en'" and done_: "en_main_pc en' = M_Done"
    using lossy_run [OF _ _ _ _ h, of sample_hash] by (auto simp: one_lane_def)
  then have run: "e_run True sample_hash en en'" by (blast intro: schedule_run)
  have "file_jobs True (sample_capture 1) = [job]" using h by (simp add: file_jobs_def jobs_def made_def)
  then have "mset (map fst (decisions en')) = {#job#}"
    using each_packet_is_decided_once [OF _ _ _ _ h(1) run done_, of 1 1] by (simp add: one_lane_def)
  with h(1) run done_ show ?thesis by (intro exI conjI)
qed

section \<open>A shutdown that never ends\<close>

text \<open>A fast path waits for room in the output queue, which is full, and nobody empties it.\<close>

definition stuck :: "nat \<Rightarrow> Engine \<Rightarrow> bool" where
  "stuck i en \<longleftrightarrow> i < length (en_fps en) \<and> en_output_pc en = Out_Ended \<and>
     tq_max_size (en_output_queue en) \<le> length (tq_items (en_output_queue en)) \<and>
     \<not> tq_shutdown (en_output_queue en) \<and> (\<exists>job t. en_fp_pcs en ! i = FP_Output job t)"

lemma same_stuck:
  assumes "stuck i en" and "length (en_fps en') = length (en_fps en)" and "en_output_pc en' = en_output_pc en"
    and "en_output_queue en' = en_output_queue en" and "en_fp_pcs en' ! i = en_fp_pcs en ! i"
  shows "stuck i en'"
  using assms by (simp add: stuck_def)

lemma full_push: "tq_max_size q \<le> length (tq_items q) \<Longrightarrow> \<not> tq_shutdown q \<Longrightarrow> tsq_push x q = None"
  by (simp add: tsq_push_def)

lemma fp_publish_fields:
  "length (en_fps (fp_publish j r en)) = length (en_fps en)"
  "en_output_pc (fp_publish j r en) = en_output_pc en" "en_output_queue (fp_publish j r en) = en_output_queue en"
  "i \<noteq> j \<Longrightarrow> en_fp_pcs (fp_publish j r en) ! i = en_fp_pcs en ! i"
  by (simp_all add: fp_publish_def Let_def split: prod.split list.split)

lemma stuck_step:
  assumes "e_step le sh en en'" and "pipeline_inv le sh L F J en" and "stuck i en"
  shows "stuck i en'"
  using assms(1)
proof cases
  case reader
  then show ?thesis
    by (intro same_stuck [OF assms(3)])
      (auto simp: reader_step_def writeOutputHeader_def
        split: reader_pc.splits list.splits option.splits prod.splits bool.splits)
next
  case (parser j)
  then show ?thesis
    by (intro same_stuck [OF assms(3)])
      (auto simp: parser_step_def rbind_Inr_iff split: pw_pc.splits option.splits)
next
  case (lb j)
  then show ?thesis
    by (intro same_stuck [OF assms(3)])
      (auto simp: lb_step_def rbind_Inr_iff Let_def split: lb_pc.splits option.splits)
next
  case (fp j now)
  have full: "tsq_push x (en_output_queue en) = None" for x
    using assms(3) by (intro full_push) (simp_all add: stuck_def)
  have "i \<noteq> j"
    using fp(3) assms(3) full by (auto simp: fp_step_def stuck_def)
  moreover obtain r where "en' = fp_publish j r en"
    using fp(3) full by (auto simp: fp_step_def rbind_Inr_iff split: fp_pc.splits option.splits)
  ultimately show ?thesis by (intro same_stuck [OF assms(3)]) (simp_all add: fp_publish_fields)
next
  case writer
  then show ?thesis using assms(3) by (simp add: output_step_def stuck_def)
next
  case main
  have "en_main_pc en \<noteq> M_ShutdownOutput"
    using assms(2,3) by (auto simp: pipeline_inv_def downstream_def stuck_def)
  with main show ?thesis
    by (intro same_stuck [OF assms(3)]) (auto simp: main_step_def split: main_pc.splits if_splits)
qed (auto intro: same_stuck [OF assms(3)])

lemma stuck_forever:
  assumes "e_run le sh en en'" and "pipeline_inv le sh L F J en" and "stuck i en"
  shows "en_main_pc en' \<noteq> M_Done"
proof -
  have "stuck i en' \<and> pipeline_inv le sh L F J en'"
    using assms
  proof (induction)
    case (step en1 en2)
    then show ?case using stuck_step [OF step.hyps(2)] step_inv [OF step.hyps(2)] by blast
  qed simp
  then show ?thesis by (auto simp: pipeline_inv_def downstream_def stuck_def)
qed

definition blocking_schedule :: "nat \<Rightarrow> thread list" where
  "blocking_schedule now =
     [T_Reader, T_Reader, T_Reader, T_Parser 0, T_Parser 0, T_Reader, T_Reader, T_Parser 0, T_Parser 0, T_Reader,
      T_Main, T_Main, T_Parser 0, T_Main, T_Main, T_Main, T_Output,
      T_LB 0, T_LB 0, T_FP now 0, T_FP now 0, T_LB 0, T_LB 0, T_FP now 0]"

lemma blocking_run:
  fixes fp1 fp2 :: FastPath
  assumes "num_load_balancers config = 1" and "fps_per_lb config = 1" and "num_parser_workers config = 1"
    and "queue_size config = 1"
    and "launch config rc rm now input = Inr en"
    and "pcap_open le input closed_reader = (True, reader)" and "raw_jobs (read_packets le reader) = [rj1, rj2]"
    and "job_of le rj1 = Inr (Some job1)" and "job_of le rj2 = Inr (Some job2)"
    and "processPacket now rm job1 (fp_start (new_fast_path 0)) = Inr fp1" and "fp_output fp1 = [(job1, FORWARD)]"
    and "processPacket now rm job2 fp1 = Inr fp2" and "fp_output fp2 = fp_output fp1 @ [(job2, FORWARD)]"
  shows "\<exists>en'. schedule le sh (blocking_schedule now) en = Some en' \<and> \<not> en_running en' \<and> stuck 0 en'"
proof -
  note start = lane_launch [OF assms(1-3,5)] and r1 = lane_first_round [OF assms(10)]
  have fp2: "fp_input_queue fp2 = new_queue 10000"
    using processPacket_accounted [OF r1(4) assms(12)] r1(3) by simp
  have "fp1\<lparr>fp_input_queue := \<lparr>tq_items = [], tq_max_size = 10000, tq_shutdown = False\<rparr>\<rparr> = fp1"
    using r1(3) by (simp add: new_queue_def)
  then have r2: "fp_round now rm (fp1\<lparr>fp_input_queue :=
      \<lparr>tq_items = [job2], tq_max_size = 10000, tq_shutdown = False\<rparr>\<rparr>, now) = Inr (True, fp2, now)"
    using assms(12) by (simp add: fp_round_def tsq_popWithTimeout_def take_front_def Let_def)
  show ?thesis
    unfolding start blocking_schedule_def
    using assms(4,6-9,11,13) r1 r2 fp2 by (simp add: lane_steps stuck_def)
qed

text \<open>
  C18. The same early end of the output thread can make \<open>stop\<close> wait for ever. With an output queue of
  capacity one and two forwarded packets, the program reaches a state, with \<open>running_\<close> already cleared,
  in which the fast path waits for room in the output queue, from which no thread takes packets any more:
  no continuation ends the shutdown.
\<close>

theorem shutdown_can_block_forever:
  fixes fp1 fp2 :: FastPath
  assumes "num_load_balancers config = 1" and "fps_per_lb config = 1" and "num_parser_workers config = 1"
    and "queue_size config = 1"
    and "launch config rc rm now input = Inr en"
    and "pcap_open le input closed_reader = (True, reader)" and "raw_jobs (read_packets le reader) = [rj1, rj2]"
    and "job_of le rj1 = Inr (Some job1)" and "job_of le rj2 = Inr (Some job2)"
    and "processPacket now rm job1 (fp_start (new_fast_path 0)) = Inr fp1" and "fp_output fp1 = [(job1, FORWARD)]"
    and "processPacket now rm job2 fp1 = Inr fp2" and "fp_output fp2 = fp_output fp1 @ [(job2, FORWARD)]"
  shows "\<exists>en'. e_run le sh en en' \<and> \<not> en_running en' \<and>
    (\<forall>en''. e_run le sh en' en'' \<longrightarrow> en_main_pc en'' \<noteq> M_Done)"
proof -
  obtain en' where s: "schedule le sh (blocking_schedule now) en = Some en'" and stop: "\<not> en_running en'" "stuck 0 en'"
    using blocking_run [OF assms] by blast
  have run: "e_run le sh en en'" by (rule schedule_run [OF s])
  have "pipeline_inv le sh 1 1 (mset (file_jobs le input)) en"
    by (rule launch_inv [OF _ _ _ _ assms(5)]) (simp_all add: assms(1,2))
  note inv = run_inv [OF run this]
  show ?thesis using run stop stuck_forever [OF _ inv stop(2)] by blast
qed

lemma shutdown_can_block_forever_witness:
  "\<exists>en en'. launch (one_lane 1 1) (\<lambda>_. None) no_rules 0 (sample_capture 2) = Inr en \<and> e_run True sample_hash en en' \<and>
     (\<forall>en''. e_run True sample_hash en' en'' \<longrightarrow> en_main_pc en'' \<noteq> M_Done)"
proof -
  obtain en where en: "launch (one_lane 1 1) (\<lambda>_. None) no_rules 0 (sample_capture 2) = Inr en"
    using launch_one_lane by blast
  obtain reader where r: "pcap_open True (sample_capture 2) closed_reader = (True, reader)"
    "raw_jobs (read_packets True reader) = [sample_raw 0, sample_raw 1]"
    using sample_capture_read [of 2] by (auto simp: upt_rec)
  obtain job1 job2 t where j: "job_of True (sample_raw 0) = Inr (Some job1)" "job_of True (sample_raw 1) = Inr (Some job2)"
    and k: "pj_has_flow_key job1" "getPayload job1 = None" "pj_flow_key job1 = fromFiveTuple t"
      "pj_has_flow_key job2" "getPayload job2 = None" "pj_flow_key job2 = fromFiveTuple t"
    using bare_job [of 0] bare_job [of 1] by metis
  obtain fp1 where p1: "processPacket 0 no_rules job1 (fp_start (new_fast_path 0)) = Inr fp1" "fp_output fp1 = [(job1, FORWARD)]"
    and a: "accounted fp1" "undecided (fromFiveTuple t) (fp_connection_tracker fp1)"
    using bare_job_forwarded [OF j(1) k(1,2,3) fresh_fp(1,2), of 0 0] fresh_fp(3) by auto
  obtain fp2 where p2: "processPacket 0 no_rules job2 fp1 = Inr fp2" "fp_output fp2 = fp_output fp1 @ [(job2, FORWARD)]"
    using bare_job_forwarded [OF j(2) k(4,5,6) a, of 0] by blast
  from shutdown_can_block_forever [OF _ _ _ _ en r j p1 p2, of sample_hash] show ?thesis
    using en by (auto simp: one_lane_def)
qed

section \<open>Packets that overtake each other\<close>

definition overtaking_schedule :: "thread list" where
  "overtaking_schedule =
     [T_Reader, T_Reader, T_Reader, T_Parser 0, T_Reader, T_Reader, T_Parser 1, T_Parser 1, T_Parser 0,
      T_LB 0, T_LB 0, T_LB 0, T_LB 0]"

text \<open>
  C31. With two parser workers the packets of a flow need not reach the fast path in the order in which
  they were captured: the second packet of the input, of the same flow or not, can be queued in front of
  the first, so a segment can be inspected before the segment or the handshake that precedes it.
\<close>

theorem parser_workers_reorder:
  assumes "num_load_balancers config = 1" and "fps_per_lb config = 1" and "num_parser_workers config = 2"
    and "0 < queue_size config"
    and "launch config rc rm now input = Inr en"
    and "pcap_open le input closed_reader = (True, reader)" and "raw_jobs (read_packets le reader) = [rj1, rj2]"
    and "job_of le rj1 = Inr (Some job1)" and "job_of le rj2 = Inr (Some job2)"
  shows "\<exists>en'. e_run le sh en en' \<and> tq_items (fp_input_queue (en_fps en' ! 0)) = [job2, job1]"
proof -
  have cfg: "num_load_balancers config = int 1" "fps_per_lb config = int 1" using assms by simp_all
  have lists: "fresh_fps (1 * 1) = [fp_start (new_fast_path 0)]" "fresh_lbs 1 1 = [lb_start (new_load_balancer 0 [0] 0)]"
    "fresh_parsers 2 = [pw_start (new_parser_worker 0), pw_start (new_parser_worker 1)]"
    "replicate (1 * 1) (FP_Loop now) = [FP_Loop now]"
    by (simp_all add: fresh_fps_def fresh_lbs_def standard_lbs_def fresh_parsers_def pm_startAll_def
        new_parser_manager_def Let_def upto_rec1)
  note en = launch_state [OF cfg assms(5), unfolded assms(3) lists]
  have "\<exists>en'. schedule le sh overtaking_schedule en = Some en' \<and> tq_items (fp_input_queue (en_fps en' ! 0)) = [job2, job1]"
    unfolding en overtaking_schedule_def
    using assms(4,6-9)
    by (simp add: thread_step_def new_engine_def reader_step_def writeOutputHeader_def new_queue_def tsq_push_def
       parser_step_def pw_take_def tsq_popWithTimeout_def take_front_def getLBForPacket_def pw_put_def lb_step_def
       lb_take_def selectFP_def lb_put_def pw_start_def new_parser_worker_def lb_start_def new_load_balancer_def
       Let_def fp_start_def new_fast_path_def)
  then show ?thesis using schedule_run by blast
qed

lemma parser_workers_reorder_witness:
  "\<exists>en en' job1 job2. launch (one_lane 2 10000) (\<lambda>_. None) no_rules 0 (sample_capture 2) = Inr en \<and>
     job_of True (sample_raw 0) = Inr (Some job1) \<and> job_of True (sample_raw 1) = Inr (Some job2) \<and>
     pj_flow_key job1 = pj_flow_key job2 \<and> e_run True sample_hash en en' \<and>
     tq_items (fp_input_queue (en_fps en' ! 0)) = [job2, job1]"
proof -
  obtain en where en: "launch (one_lane 2 10000) (\<lambda>_. None) no_rules 0 (sample_capture 2) = Inr en"
    using launch_one_lane by blast
  obtain reader where r: "pcap_open True (sample_capture 2) closed_reader = (True, reader)"
    "raw_jobs (read_packets True reader) = [sample_raw 0, sample_raw 1]"
    using sample_capture_read [of 2] by (auto simp: upt_rec)
  obtain job1 job2 where j: "job_of True (sample_raw 0) = Inr (Some job1)" "job_of True (sample_raw 1) = Inr (Some job2)"
    and k: "pj_flow_key job1 = pj_flow_key job2"
    using bare_job [of 0] bare_job [of 1] by metis
  from parser_workers_reorder [OF _ _ _ _ en r j, of sample_hash] obtain en' where
    "e_run True sample_hash en en'" "tq_items (fp_input_queue (en_fps en' ! 0)) = [job2, job1]"
    by (auto simp: one_lane_def)
  with en j k show ?thesis by (intro exI conjI)
qed

end
