(* ===== verification/Report.thy ===== *)
theory Report
  imports Engine
begin

text \<open>
  The text reports: the banner of the constructor, the statistics of \<open>DPIEngine::generateReport\<close>, the connection report of
  \<open>GlobalConnectionTable::generateReport\<close> and the live status of \<open>DPIEngine::printStatus\<close>. Text that is
  printed from a \<open>double\<close> is a parameter. The order in which an \<open>unordered_map\<close> is iterated, and in which
  \<open>std::sort\<close> leaves equal elements, is not fixed by the language: here it is the order of the enumeration
  for applications, and the order \<open>getGlobalStats\<close> gives for domains.
\<close>

section \<open>Formatted text\<close>

definition box_line :: "string \<Rightarrow> string" where
  "box_line s = [CHR 0xE2, CHR 0x95, CHR 0x91] @ s"

definition bar :: string where
  "bar = [CHR 0xE2, CHR 0x95, CHR 0x91, newline]"

definition rule_line :: "char \<Rightarrow> char \<Rightarrow> string" where
  "rule_line l r = [CHR 0xE2, CHR 0x95, l] @ concat (replicate 62 [CHR 0xE2, CHR 0x95, CHR 0x90]) @
     [CHR 0xE2, CHR 0x95, r, newline]"

definition top_line :: string where "top_line = rule_line (CHR 0x94) (CHR 0x97)"
definition mid_line :: string where "mid_line = rule_line (CHR 0xA0) (CHR 0xA3)"
definition end_line :: string where "end_line = rule_line (CHR 0x9A) (CHR 0x9D)"

definition spaces :: "nat \<Rightarrow> string" where
  "spaces n = replicate n CHR '' ''"

text \<open>\<open>std::setw(n)\<close>, right- or left-aligned.\<close>

definition setw :: "nat \<Rightarrow> string \<Rightarrow> string" where
  "setw n s = spaces (n - length s) @ s"

definition setw_left :: "nat \<Rightarrow> string \<Rightarrow> string" where
  "setw_left n s = s @ spaces (n - length s)"

definition stat_line :: "string \<Rightarrow> nat \<Rightarrow> string" where
  "stat_line label n = box_line label @ setw 12 (to_string n) @ spaces 24 @ bar"

section \<open>The banner\<close>

text \<open>What the constructor prints.\<close>

definition config_line :: "string \<Rightarrow> int \<Rightarrow> string" where
  "config_line label i =
     box_line label @ setw 3 ((if i < 0 then ''-'' else []) @ to_string (nat \<bar>i\<bar>)) @ spaces 39 @ bar"

definition engine_banner :: "Config \<Rightarrow> string" where
  "engine_banner config =
     [newline] @ top_line @
     box_line (''                    DPI ENGINE v1.0                            '' @ bar) @
     box_line (''               Deep Packet Inspection System                   '' @ bar) @
     mid_line @
     box_line ('' Configuration:                                                '' @ bar) @
     config_line ''   Parser Workers:    '' (num_parser_workers config) @
     config_line ''   Load Balancers:    '' (num_load_balancers config) @
     config_line ''   FPs per LB:        '' (fps_per_lb config) @
     config_line ''   Total FP threads:  '' (num_load_balancers config * fps_per_lb config) @
     end_line"

section \<open>The statistics report\<close>

text \<open>\<open>rate\<close> prints the drop rate from the numbers of dropped and of all packets.\<close>

definition generateReport :: "(nat \<Rightarrow> nat \<Rightarrow> string) \<Rightarrow> Engine \<Rightarrow> string" where
  "generateReport rate en =
     (let st = en_stats en in
      [newline] @ top_line @
      box_line (''                    DPI ENGINE STATISTICS                      '' @ bar) @
      mid_line @
      box_line ('' PACKET STATISTICS                                             '' @ bar) @
      stat_line ''   Total Packets:      '' (total_packets st) @
      stat_line ''   Total Bytes:        '' (total_bytes st) @
      stat_line ''   TCP Packets:        '' (tcp_packets st) @
      stat_line ''   UDP Packets:        '' (udp_packets st) @
      mid_line @
      box_line ('' FILTERING STATISTICS                                          '' @ bar) @
      stat_line ''   Forwarded:          '' (forwarded_packets st) @
      stat_line ''   Dropped/Blocked:    '' (dropped_packets st) @
      (if total_packets st > 0 then
         box_line ''   Drop Rate:          '' @ setw 11 (rate (dropped_packets st) (total_packets st)) @
         ''%                        '' @ bar
       else []) @
      (case en_rule_manager en of
         None \<Rightarrow> []
       | Some rm \<Rightarrow>
           let (received, dispatched) = lbm_getAggregatedStats (en_lbs en);
               fp_stats = getAggregatedStats (en_fps en);
               rule_stats = rule_stats rm
           in mid_line @
              box_line ('' LOAD BALANCER STATISTICS                                      '' @ bar) @
              stat_line ''   LB Received:        '' received @
              stat_line ''   LB Dispatched:      '' dispatched @
              mid_line @
              box_line ('' FAST PATH STATISTICS                                          '' @ bar) @
              stat_line ''   FP Processed:       '' (total_processed fp_stats) @
              stat_line ''   FP Forwarded:       '' (total_forwarded fp_stats) @
              stat_line ''   FP Dropped:         '' (total_dropped fp_stats) @
              stat_line ''   Active Connections: '' (total_connections fp_stats) @
              mid_line @
              box_line ('' BLOCKING RULES                                                '' @ bar) @
              stat_line ''   Blocked IPs:        '' (rs_blocked_ips rule_stats) @
              stat_line ''   Blocked Apps:       '' (rs_blocked_apps rule_stats) @
              stat_line ''   Blocked Domains:    '' (rs_blocked_domains rule_stats) @
              stat_line ''   Blocked Ports:      '' (rs_blocked_ports rule_stats)) @
      end_line)"

definition generateClassificationReport :: "Engine \<Rightarrow> string" where
  "generateClassificationReport en = (if en_rule_manager en = None then [] else fpm_report (en_fps en))"

definition printStatus :: "Engine \<Rightarrow> string" where
  "printStatus en =
     (let st = en_stats en in
      [newline] @ ''--- Live Status ---'' @ [newline] @
      ''Packets: '' @ to_string (total_packets st) @ '' | Forwarded: '' @ to_string (forwarded_packets st) @
      '' | Dropped: '' @ to_string (dropped_packets st) @ [newline] @
      (if en_rule_manager en = None then []
       else ''Connections: '' @ to_string (total_connections (getAggregatedStats (en_fps en))) @ [newline]))"

section \<open>The connection report\<close>

definition domain_text :: "string \<Rightarrow> string" where
  "domain_text domain = (if length domain > 35 then take 32 domain @ ''...'' else domain)"

text \<open>\<open>percent\<close> prints a share, one digit after the point, five characters wide.\<close>

definition connection_report :: "(nat \<Rightarrow> nat \<Rightarrow> string) \<Rightarrow> ConnectionTracker option list \<Rightarrow> string" where
  "connection_report percent trackers =
     (let stats = getGlobalStats trackers;
          apps = filter (\<lambda>(_, n). n \<noteq> 0) (map (\<lambda>a. (a, gs_app_distribution stats a)) (all_apps @ [APP_COUNT]));
          total = sum_list (map snd apps);
          sorted_apps = sort_key (\<lambda>(_, n). - int n) apps
      in [newline] @ top_line @
         box_line (''               CONNECTION STATISTICS REPORT                    '' @ bar) @
         mid_line @
         box_line '' Active Connections:     '' @ setw 10 (to_string (gs_total_active_connections stats)) @
         spaces 26 @ bar @
         box_line '' Total Connections Seen: '' @ setw 10 (to_string (gs_total_connections_seen stats)) @
         spaces 26 @ bar @
         mid_line @
         box_line (''                    APPLICATION BREAKDOWN                      '' @ bar) @
         mid_line @
         concat (map (\<lambda>(a, n). box_line '' '' @ setw_left 20 (appTypeToString a) @ setw 10 (to_string n) @
             '' ('' @ percent n total @ ''%)           '' @ bar) sorted_apps) @
         (if gs_top_domains stats = [] then []
          else mid_line @
               box_line (''                      TOP DOMAINS                             '' @ bar) @
               mid_line @
               concat (map (\<lambda>(domain, n). box_line '' '' @ setw_left 40 (domain_text domain) @
                 setw 10 (to_string n) @ ''           '' @ bar) (gs_top_domains stats))) @
         end_line)"

end
