(* ===== verification/Json_Report.thy ===== *)
theory Json_Report
  imports Report
begin

text \<open>
  The JSON document of \<open>DPIEngine::generateJSONReport\<close>, line by line as the code prints it, and what it
  is as a JSON value. Numbers printed from a \<open>double\<close> are texts given as parameters. An \<open>unordered_map\<close>
  is the list of its entries in the order of insertion.
\<close>

section \<open>The summaries\<close>

record AppSummary =
  as_flows :: nat
  as_packets :: u64
  as_bytes :: u64
  as_blocked :: bool

record DomainSummary =
  ds_app :: string
  ds_packets :: u64
  ds_blocked :: bool

text \<open>An access \<open>m[k]\<close> that creates the entry when it is missing, and its update.\<close>

fun at_entry :: "'k \<Rightarrow> 'v \<Rightarrow> ('v \<Rightarrow> 'v) \<Rightarrow> ('k \<times> 'v) list \<Rightarrow> ('k \<times> 'v) list" where
  "at_entry k init f [] = [(k, f init)]"
| "at_entry k init f ((k', v) # m) = (if k' = k then (k', f v) # m else (k', v) # at_entry k init f m)"

definition conn_packets :: "Connection \<Rightarrow> u64" where
  "conn_packets c = c_packets_in c + c_packets_out c"

definition conn_bytes :: "Connection \<Rightarrow> u64" where
  "conn_bytes c = c_bytes_in c + c_bytes_out c"

definition conn_blocked :: "Connection \<Rightarrow> bool" where
  "conn_blocked c \<longleftrightarrow> c_action c = DROP \<or> c_state c = BLOCKED"

definition summarize_app :: "Connection \<Rightarrow> (string \<times> AppSummary) list \<Rightarrow> (string \<times> AppSummary) list" where
  "summarize_app c =
     at_entry (appTypeToString (c_app_type c)) \<lparr>as_flows = 0, as_packets = 0, as_bytes = 0, as_blocked = False\<rparr>
       (\<lambda>s. \<lparr>as_flows = as_flows s + 1, as_packets = as_packets s + conn_packets c,
             as_bytes = as_bytes s + conn_bytes c, as_blocked = (conn_blocked c \<or> as_blocked s)\<rparr>)"

definition summarize_domain :: "Connection \<Rightarrow> (string \<times> DomainSummary) list \<Rightarrow> (string \<times> DomainSummary) list" where
  "summarize_domain c m =
     (if bestDomain c = [] then m
      else at_entry (bestDomain c) \<lparr>ds_app = [], ds_packets = 0, ds_blocked = False\<rparr>
        (\<lambda>s. \<lparr>ds_app = appTypeToString (c_app_type c), ds_packets = ds_packets s + conn_packets c,
              ds_blocked = (conn_blocked c \<or> ds_blocked s)\<rparr>) m)"

definition app_map :: "Connection list \<Rightarrow> (string \<times> AppSummary) list" where
  "app_map conns = fold summarize_app conns []"

definition domain_map :: "Connection list \<Rightarrow> (string \<times> DomainSummary) list" where
  "domain_map conns = fold summarize_domain conns []"

text \<open>The packets per protocol: the engine's counters, or the sums over the flows when both are 0.\<close>

definition flow_packets :: "u8 \<Rightarrow> Connection list \<Rightarrow> u64" where
  "flow_packets proto conns = sum_list (map conn_packets (filter (\<lambda>c. fk_protocol (c_flow_key c) = proto) conns))"

definition protocol_packets :: "DPIStats \<Rightarrow> Connection list \<Rightarrow> u64 \<times> u64 \<times> u64" where
  "protocol_packets st conns =
     (let total = of_nat (total_packets st);
          tcp = of_nat (tcp_packets st);
          udp = of_nat (udp_packets st);
          (tcp, udp) = (if tcp = 0 \<and> udp = 0 then (flow_packets 6 conns, flow_packets 17 conns) else (tcp, udp));
          other = (if tcp + udp < total then total - tcp - udp else of_nat (other_packets st))
      in (tcp, udp, other))"

section \<open>The document\<close>

abbreviation u64_text :: "u64 \<Rightarrow> string" where
  "u64_text n \<equiv> to_string (unat n)"

definition line :: "string \<Rightarrow> string" where
  "line s = s @ [newline]"

definition status_text :: "bool \<Rightarrow> string" where
  "status_text blocked = (if blocked then ''BLOCKED'' else ''FORWARDED'')"

text \<open>The entries of an array, all but the last followed by a comma.\<close>

definition json_entries :: "('a \<Rightarrow> string) \<Rightarrow> 'a list \<Rightarrow> string" where
  "json_entries f xs =
     concat (map (\<lambda>(i, x). line (f x @ (if i + 1 < length xs then '','' else []))) (enumerate 0 xs))"

definition json_app :: "string \<times> AppSummary \<Rightarrow> string" where
  \<open>json_app = (\<lambda>(name, s).
     line ''    {'' @
     line (''      "name": "'' @ name @ ''",'') @
     line (''      "flows": '' @ to_string (as_flows s) @ '','') @
     line (''      "packets": '' @ u64_text (as_packets s) @ '','') @
     line (''      "bytes": '' @ u64_text (as_bytes s) @ '','') @
     line (''      "status": "'' @ status_text (as_blocked s) @ ''"'') @
     ''    }'')\<close>

definition json_domain :: "string \<times> DomainSummary \<Rightarrow> string" where
  \<open>json_domain = (\<lambda>(domain, s).
     line ''    {'' @
     line (''      "domain": "'' @ domain @ ''",'') @
     line (''      "application": "'' @ ds_app s @ ''",'') @
     line (''      "packets": '' @ u64_text (ds_packets s) @ '','') @
     line (''      "status": "'' @ status_text (ds_blocked s) @ ''"'') @
     ''    }'')\<close>

definition state_text :: "ConnectionState \<Rightarrow> string" where
  "state_text st =
     (if st = ESTABLISHED then ''ESTABLISHED''
      else if st = CLASSIFIED then ''CLASSIFIED''
      else if st = BLOCKED then ''BLOCKED''
      else if st = CLOSED then ''CLOSED''
      else ''NEW'')"

definition json_protocol :: "u8 \<Rightarrow> string" where
  "json_protocol p = (if p = 6 then ''TCP'' else if p = 17 then ''UDP'' else ''OTHER'')"

definition action_text :: "PacketAction \<Rightarrow> string" where
  "action_text a = (if a = DROP then ''DROP'' else ''FORWARD'')"

definition json_flow :: "string \<times> Connection \<Rightarrow> string" where
  \<open>json_flow = (\<lambda>(flow, c).
     line ''    {'' @
     line (''      "flow": "'' @ flow @ ''",'') @
     line (''      "protocol": "'' @ json_protocol (fk_protocol (c_flow_key c)) @ ''",'') @
     line (''      "application": "'' @ appTypeToString (c_app_type c) @ ''",'') @
     line (''      "domain": "'' @ bestDomain c @ ''",'') @
     line (''      "state": "'' @ state_text (c_state c) @ ''",'') @
     line (''      "action": "'' @ action_text (c_action c) @ ''",'') @
     line (''      "packets": '' @ u64_text (conn_packets c) @ '','') @
     line (''      "bytes": '' @ u64_text (conn_bytes c)) @
     ''    }'')\<close>

text \<open>The three numbers printed from a \<open>double\<close>: the elapsed seconds, the packets and the megabits per second.\<close>

record rate_texts =
  rt_elapsed :: string
  rt_pps :: string
  rt_mbps :: string

definition json_summary :: "rate_texts \<Rightarrow> DPIStats \<Rightarrow> u64 \<times> u64 \<times> u64 \<Rightarrow> string" where
  \<open>json_summary rt st = (\<lambda>(tcp, udp, other).
     line ''  "summary": {'' @
     line (''    "total_packets": '' @ u64_text (of_nat (total_packets st)) @ '','') @
     line (''    "total_bytes": '' @ u64_text (of_nat (total_bytes st)) @ '','') @
     line (''    "forwarded_packets": '' @ u64_text (of_nat (forwarded_packets st)) @ '','') @
     line (''    "dropped_packets": '' @ u64_text (of_nat (dropped_packets st)) @ '','') @
     line (''    "tcp_packets": '' @ u64_text tcp @ '','') @
     line (''    "udp_packets": '' @ u64_text udp @ '','') @
     line (''    "other_packets": '' @ u64_text other @ '','') @
     line (''    "elapsed_seconds": '' @ rt_elapsed rt @ '','') @
     line (''    "packets_per_second": '' @ rt_pps rt @ '','') @
     line (''    "mb_per_second": '' @ rt_mbps rt) @
     line ''  },'')\<close>

definition json_protocols :: "u64 \<times> u64 \<times> u64 \<Rightarrow> string" where
  \<open>json_protocols = (\<lambda>(tcp, udp, other).
     line ''  "protocols": {'' @
     line (''    "TCP": '' @ u64_text tcp @ '','') @
     line (''    "UDP": '' @ u64_text udp @ '','') @
     line (''    "Other": '' @ u64_text other) @
     line ''  },'')\<close>

definition json_document :: "rate_texts \<Rightarrow> DPIStats \<Rightarrow> (string \<times> Connection) list \<Rightarrow> string" where
  \<open>json_document rt st flows =
     (let conns = map snd flows;
          protocols = protocol_packets st conns
      in line ''{'' @
         json_summary rt st protocols @
         json_protocols protocols @
         line ''  "applications": ['' @
         json_entries json_app (app_map conns) @
         line ''  ],'' @
         line ''  "domains": ['' @
         json_entries json_domain (domain_map conns) @
         line ''  ],'' @
         line ''  "flows": ['' @
         json_entries json_flow flows @
         line ''  ]'' @
         line ''}'')\<close>

text \<open>
  The report of an engine: \<open>rates\<close> prints the rates from the elapsed time and the totals. Before
  \<open>initialize\<close> there are no connections; afterwards those of \<open>getFP(0)\<close> to \<open>getFP(total_fps - 1)\<close>.
  \<open>None\<close>: an address has no text (it always has).
\<close>

definition all_connections :: "Engine \<Rightarrow> Connection list" where
  "all_connections en =
     (if en_rule_manager en = None then []
      else let total_fps = nat (num_load_balancers (en_config en) * fps_per_lb (en_config en))
           in concat (map (\<lambda>i. getAllConnections (fp_connection_tracker (en_fps en ! i))) [0..<total_fps]))"

definition with_flow_text :: "Connection \<Rightarrow> (string \<times> Connection) option" where
  "with_flow_text c = map_option (\<lambda>t. (t, c)) (FlowKey_toString (c_flow_key c))"

definition generateJSONReport :: "(nat \<Rightarrow> nat \<Rightarrow> rate_texts) \<Rightarrow> Engine \<Rightarrow> string option" where
  "generateJSONReport rates en =
     map_option (json_document (rates (total_packets (en_stats en)) (total_bytes (en_stats en))) (en_stats en))
       (those (map with_flow_text (all_connections en)))"

section \<open>JSON values\<close>

text \<open>
  A reader for JSON texts: objects, arrays, numbers (kept as texts) and strings without escapes. The
  fuel bounds the nesting; the length of the text is always enough for what \<open>render\<close> prints.
\<close>

datatype json = JNum string | JStr string | JObj "(string \<times> json) list" | JArr "json list"

definition is_ws :: "char \<Rightarrow> bool" where
  "is_ws c \<longleftrightarrow> c = CHR '' '' \<or> c = newline \<or> c = CHR 0x09 \<or> c = CHR 0x0D"

definition quote :: char where
  "quote = CHR 0x22"

definition plain_char :: "char \<Rightarrow> bool" where
  "plain_char c \<longleftrightarrow> c \<noteq> quote \<and> c \<noteq> CHR 0x5C \<and> 32 \<le> (of_char c :: nat)"

definition num_char :: "char \<Rightarrow> bool" where
  "num_char c \<longleftrightarrow> is_digit c \<or> c = CHR ''.''"

definition skip_ws :: "string \<Rightarrow> string" where
  "skip_ws s = dropWhile is_ws s"

definition read_string :: "string \<Rightarrow> (string \<times> string) option" where
  "read_string s =
     (case s of
        [] \<Rightarrow> None
      | c # r \<Rightarrow>
          if c \<noteq> quote then None
          else (case dropWhile plain_char r of
                  [] \<Rightarrow> None
                | c' # r' \<Rightarrow> if c' = quote then Some (takeWhile plain_char r, r') else None))"

fun read_value :: "nat \<Rightarrow> string \<Rightarrow> (json \<times> string) option"
  and read_members :: "nat \<Rightarrow> string \<Rightarrow> ((string \<times> json) list \<times> string) option"
  and read_elements :: "nat \<Rightarrow> string \<Rightarrow> (json list \<times> string) option" where
  "read_value 0 s = None"
| "read_value (Suc n) s =
     (case skip_ws s of
        [] \<Rightarrow> None
      | c # r \<Rightarrow>
          if c = quote then map_option (\<lambda>(t, r). (JStr t, r)) (read_string (c # r))
          else if c = CHR ''{'' then
            (if skip_ws r \<noteq> [] \<and> hd (skip_ws r) = CHR ''}'' then Some (JObj [], tl (skip_ws r))
             else map_option (\<lambda>(fs, r). (JObj fs, r)) (read_members n r))
          else if c = CHR ''['' then
            (if skip_ws r \<noteq> [] \<and> hd (skip_ws r) = CHR '']'' then Some (JArr [], tl (skip_ws r))
             else map_option (\<lambda>(vs, r). (JArr vs, r)) (read_elements n r))
          else if num_char c then Some (JNum (takeWhile num_char (c # r)), dropWhile num_char (c # r))
          else None)"
| "read_members 0 s = None"
| "read_members (Suc n) s =
     (case read_string (skip_ws s) of
        None \<Rightarrow> None
      | Some (k, r) \<Rightarrow>
          if skip_ws r \<noteq> [] \<and> hd (skip_ws r) = CHR '':'' then
            (case read_value n (tl (skip_ws r)) of
               None \<Rightarrow> None
             | Some (v, r) \<Rightarrow>
                 (case skip_ws r of
                    [] \<Rightarrow> None
                  | c # r \<Rightarrow>
                      if c = CHR '','' then map_option (\<lambda>(fs, r). ((k, v) # fs, r)) (read_members n r)
                      else if c = CHR ''}'' then Some ([(k, v)], r)
                      else None))
          else None)"
| "read_elements 0 s = None"
| "read_elements (Suc n) s =
     (case read_value n s of
        None \<Rightarrow> None
      | Some (v, r) \<Rightarrow>
          (case skip_ws r of
             [] \<Rightarrow> None
           | c # r \<Rightarrow>
               if c = CHR '','' then map_option (\<lambda>(vs, r). (v # vs, r)) (read_elements n r)
               else if c = CHR '']'' then Some ([v], r)
               else None))"

definition json_read :: "string \<Rightarrow> json option" where
  "json_read s =
     (case read_value (length s) s of
        Some (v, r) \<Rightarrow> if skip_ws r = [] then Some v else None
      | None \<Rightarrow> None)"

text \<open>The layout of the report: two more spaces per level, one member or element per line.\<close>

definition quoted :: "string \<Rightarrow> string" where
  "quoted s = quote # s @ [quote]"

fun rows :: "string list \<Rightarrow> string" where
  "rows [] = []"
| "rows [r] = line r"
| "rows (r # rs) = line (r @ '','') @ rows rs"

fun render :: "nat \<Rightarrow> json \<Rightarrow> string" where
  "render n (JNum t) = t"
| "render n (JStr t) = quoted t"
| "render n (JObj fs) =
     line ''{'' @ rows (map (\<lambda>(k, v). spaces (n + 2) @ quoted k @ '': '' @ render (n + 2) v) fs) @ spaces n @ ''}''"
| "render n (JArr vs) =
     line ''['' @ rows (map (\<lambda>v. spaces (n + 2) @ render (n + 2) v) vs) @ spaces n @ '']''"

definition number_text :: "string \<Rightarrow> bool" where
  "number_text t \<longleftrightarrow> t \<noteq> [] \<and> list_all num_char t"

fun plain_json :: "json \<Rightarrow> bool" where
  "plain_json (JNum t) = number_text t"
| "plain_json (JStr t) = list_all plain_char t"
| "plain_json (JObj fs) = list_all (\<lambda>(k, v). list_all plain_char k \<and> plain_json v) fs"
| "plain_json (JArr vs) = list_all plain_json vs"

section \<open>What is rendered is read back\<close>

lemma not_ws: "\<not> is_ws quote" "\<not> is_ws CHR ''{''" "\<not> is_ws CHR ''}''" "\<not> is_ws CHR ''[''" "\<not> is_ws CHR '']''"
  "\<not> is_ws CHR '',''" "\<not> is_ws CHR '':''" "num_char c \<Longrightarrow> \<not> is_ws c"
  by (auto simp: is_ws_def quote_def newline_def num_char_def is_digit_def)

lemma special_chars: "quote \<noteq> CHR ''{''" "quote \<noteq> CHR ''[''" "\<not> plain_char quote"
  "num_char c \<Longrightarrow> c \<noteq> quote \<and> c \<noteq> CHR ''{'' \<and> c \<noteq> CHR ''['' \<and> c \<noteq> CHR '']'' \<and> c \<noteq> CHR ''}''"
  by (auto simp: quote_def plain_char_def num_char_def is_digit_def)

lemma skip_ws_simps [simp]:
  "skip_ws [] = []" "skip_ws (newline # s) = skip_ws s" "skip_ws (CHR '' '' # s) = skip_ws s"
  "\<not> is_ws c \<Longrightarrow> skip_ws (c # s) = c # s" "skip_ws (spaces n @ s) = skip_ws s"
proof -
  show "skip_ws (spaces n @ s) = skip_ws s"
    by (induction n) (simp_all add: skip_ws_def spaces_def is_ws_def)
qed (simp_all add: skip_ws_def is_ws_def)

lemma read_string_quoted [simp]: "list_all plain_char s \<Longrightarrow> read_string (quoted s @ r) = Some (s, r)"
  by (simp add: read_string_def quoted_def takeWhile_append2 dropWhile_append2 list_all_iff special_chars
      takeWhile_append dropWhile_append)

lemma num_run:
  assumes "list_all num_char t" and "r = [] \<or> \<not> num_char (hd r)"
  shows "takeWhile num_char (t @ r) = t" and "dropWhile num_char (t @ r) = r"
  using assms by (induction t) (cases r; auto)+

text \<open>What may follow a value.\<close>

definition ends_value :: "string \<Rightarrow> bool" where
  "ends_value r \<longleftrightarrow> r = [] \<or> \<not> num_char (hd r)"

lemma ends_value_simps [simp]: "ends_value []" "ends_value (newline # r)" "ends_value (CHR '','' # r)"
  by (simp_all add: ends_value_def num_char_def newline_def is_digit_def)

fun cost :: "json \<Rightarrow> nat" where
  "cost (JNum t) = 1"
| "cost (JStr t) = 1"
| "cost (JObj fs) = 1 + sum_list (map (\<lambda>(k, v). 1 + cost v) fs)"
| "cost (JArr vs) = 1 + sum_list (map (\<lambda>v. 1 + cost v) vs)"

lemma skip_ws_render:
  assumes "plain_json v"
  shows "\<exists>c s. render n v = c # s \<and> \<not> is_ws c \<and> c \<noteq> CHR '']''"
  using assms
  by (cases v) (auto simp: quoted_def line_def not_ws not_ws(1) [unfolded quote_def] special_chars number_text_def
      neq_Nil_conv quote_def)

lemma rows_starts: "r \<noteq> [] \<Longrightarrow> \<exists>s. rows (r # rs) = r @ s"
  by (cases rs) (auto simp: line_def)

lemma read_value_ws:
  assumes "skip_ws s = skip_ws s'"
  shows "read_value n s = read_value n s'"
  using assms by (cases n) simp_all

lemma read_members_ws: "read_members m (newline # s) = read_members m s"
  by (cases m) simp_all

lemma read_elements_ws: "read_elements m (newline # s) = read_elements m s"
  by (cases m) (simp_all add: read_value_ws [of "newline # s" s])

lemma member_rows_start:
  assumes "fs \<noteq> []"
  shows "\<exists>s. skip_ws (rows (map (\<lambda>(k, v). spaces i @ quoted k @ g v) fs) @ r) = quote # s"
proof -
  obtain k v fs' where "fs = (k, v) # fs'" using assms by (cases fs) auto
  moreover obtain s where "rows ((spaces i @ quoted k @ g v) # map (\<lambda>(k, v). spaces i @ quoted k @ g v) fs') =
      (spaces i @ quoted k @ g v) @ s"
    using rows_starts [of "spaces i @ quoted k @ g v"] by (auto simp: quoted_def)
  ultimately show ?thesis by (simp add: quoted_def not_ws)
qed

lemma element_rows_start:
  assumes "vs \<noteq> []" and "list_all plain_json vs"
  shows "\<exists>c s. skip_ws (rows (map (\<lambda>v. spaces i @ render j v) vs) @ r) = c # s \<and> c \<noteq> CHR '']''"
proof -
  obtain v vs' where vs: "vs = v # vs'" using assms by (cases vs) auto
  then obtain c s where c: "render j v = c # s" "\<not> is_ws c" "c \<noteq> CHR '']''"
    using skip_ws_render [of v j] assms by auto
  obtain t where "rows ((spaces i @ render j v) # map (\<lambda>v. spaces i @ render j v) vs') = (spaces i @ render j v) @ t"
    using rows_starts [of "spaces i @ render j v"] c by auto
  then show ?thesis using c vs by simp
qed

lemma read_members_rows:
  assumes "fs \<noteq> []" and "sum_list (map (\<lambda>(k, v). 1 + cost v) fs) \<le> m"
    and "\<And>k v m r. (k, v) \<in> set fs \<Longrightarrow> cost v \<le> m \<Longrightarrow> ends_value r \<Longrightarrow>
      read_value m (render (n + 2) v @ r) = Some (v, r)"
    and "\<And>k v. (k, v) \<in> set fs \<Longrightarrow> list_all plain_char k"
  shows "read_members m (rows (map (\<lambda>(k, v). spaces (n + 2) @ quoted k @ '': '' @ render (n + 2) v) fs) @
    spaces n @ ''}'' @ r) = Some (fs, r)"
  using assms
proof (induction fs arbitrary: m)
  case (Cons f fs)
  obtain k v where f: "f = (k, v)" by fastforce
  obtain m' where m: "m = Suc m'" "cost v \<le> m'" "sum_list (map (\<lambda>(k, v). 1 + cost v) fs) \<le> m'"
    using Cons.prems(2) f by (cases m) auto
  have k: "list_all plain_char k" using Cons.prems(4) [of k v] f by simp
  have v: "read_value m' (CHR '' '' # render (n + 2) v @ r') = Some (v, r')" if "ends_value r'" for r'
    using Cons.prems(3) [of k v m' r'] f m(2) that read_value_ws [of "CHR '' '' # render (n + 2) v @ r'"] by simp
  have q: "skip_ws (quoted k @ s) = quoted k @ s" for s by (simp add: quoted_def not_ws)
  show ?case
  proof (cases fs)
    case Nil
    then show ?thesis using k v by (simp add: m f line_def q not_ws)
  next
    case (Cons f' fs')
    have "read_members m' (rows (map (\<lambda>(k, v). spaces (n + 2) @ quoted k @ '': '' @ render (n + 2) v) fs) @
        spaces n @ ''}'' @ r) = Some (fs, r)"
    proof (rule Cons.IH [OF _ m(3)])
      show "fs \<noteq> []" using Cons by simp
    qed (use Cons.prems(3,4) in \<open>meson list.set_intros(2)\<close>)+
    then have "read_members m' (newline # rows (map (\<lambda>(k, v). spaces (n + 2) @ quoted k @ '': '' @ render (n + 2) v) fs) @
        spaces n @ ''}'' @ r) = Some (fs, r)"
      by (cases m') simp_all
    then show ?thesis using k v Cons by (simp add: m f line_def q not_ws)
  qed
qed simp

lemma read_elements_rows:
  assumes "vs \<noteq> []" and "sum_list (map (\<lambda>v. 1 + cost v) vs) \<le> m"
    and "\<And>v m r. v \<in> set vs \<Longrightarrow> cost v \<le> m \<Longrightarrow> ends_value r \<Longrightarrow>
      read_value m (render (n + 2) v @ r) = Some (v, r)"
  shows "read_elements m (rows (map (\<lambda>v. spaces (n + 2) @ render (n + 2) v) vs) @ spaces n @ '']'' @ r) =
    Some (vs, r)"
  using assms
proof (induction vs arbitrary: m)
  case (Cons v vs)
  obtain m' where m: "m = Suc m'" "cost v \<le> m'" "sum_list (map (\<lambda>v. 1 + cost v) vs) \<le> m'"
    using Cons.prems(2) by (cases m) auto
  have v: "read_value m' (spaces i @ render (n + 2) v @ r') = Some (v, r')" if "ends_value r'" for i r'
    using Cons.prems(3) [of v m' r'] m(2) that read_value_ws [of "spaces i @ render (n + 2) v @ r'"] by simp
  show ?case
  proof (cases vs)
    case Nil
    then show ?thesis using v by (simp add: m line_def not_ws)
  next
    case (Cons v' vs')
    have "read_elements m' (rows (map (\<lambda>v. spaces (n + 2) @ render (n + 2) v) vs) @ spaces n @ '']'' @ r) = Some (vs, r)"
    proof (rule Cons.IH [OF _ m(3)])
      show "vs \<noteq> []" using Cons by simp
    qed (use Cons.prems(3) in \<open>meson list.set_intros(2)\<close>)+
    then have "read_elements m' (newline # rows (map (\<lambda>v. spaces (n + 2) @ render (n + 2) v) vs) @ spaces n @ '']'' @ r) =
        Some (vs, r)"
      using read_value_ws [of "newline # _"] by (cases m') simp_all
    then show ?thesis using v Cons by (simp add: m line_def not_ws)
  qed
qed simp

lemma read_render:
  "plain_json v \<Longrightarrow> cost v \<le> m \<Longrightarrow> ends_value r \<Longrightarrow> read_value m (render n v @ r) = Some (v, r)"
proof (induction v arbitrary: m n r)
  case (JNum t)
  then obtain m' c t' where "m = Suc m'" "t = c # t'" "num_char c"
    by (cases m; cases t) (auto simp: number_text_def)
  then show ?case
    using JNum num_run [of t r] special_chars(4) [of c] not_ws(8) [of c]
    by (auto simp: number_text_def ends_value_def)
next
  case (JStr t)
  then obtain m' where "m = Suc m'" by (cases m) auto
  moreover have "skip_ws (quoted t @ r) = quoted t @ r" "quoted t @ r = quote # (t @ quote # r)"
    by (simp_all add: quoted_def not_ws)
  ultimately show ?case using JStr read_string_quoted [of t r] by simp
next
  case (JObj fs)
  then obtain m' where m: "m = Suc m'" "sum_list (map (\<lambda>(k, v). 1 + cost v) fs) \<le> m'" by (cases m) auto
  show ?case
  proof (cases "fs = []")
    case False
    have "read_members m' (rows (map (\<lambda>(k, v). spaces (n + 2) @ quoted k @ '': '' @ render (n + 2) v) fs) @
        spaces n @ ''}'' @ r) = Some (fs, r)"
      using JObj.prems(1) by (intro read_members_rows [OF False m(2)] JObj.IH) (auto simp: list_all_iff)
    then show ?thesis
      using member_rows_start [OF False, of "n + 2" "\<lambda>v. '': '' @ render (n + 2) v" "spaces n @ ''}'' @ r"]
      by (auto simp: m line_def not_ws special_chars read_members_ws quote_def)
  qed (simp add: m line_def not_ws special_chars(1) [symmetric])
next
  case (JArr vs)
  then obtain m' where m: "m = Suc m'" "sum_list (map (\<lambda>v. 1 + cost v) vs) \<le> m'" by (cases m) auto
  show ?case
  proof (cases "vs = []")
    case False
    have "read_elements m' (rows (map (\<lambda>v. spaces (n + 2) @ render (n + 2) v) vs) @ spaces n @ '']'' @ r) = Some (vs, r)"
      using JArr.prems(1) by (intro read_elements_rows [OF False m(2)] JArr.IH) (auto simp: list_all_iff)
    then show ?thesis
      using element_rows_start [OF False, of "n + 2" "n + 2" "spaces n @ '']'' @ r"] JArr.prems(1)
      by (auto simp: m line_def not_ws special_chars(2) [symmetric] read_elements_ws)
  qed (simp add: m line_def not_ws special_chars(2) [symmetric])
qed

lemma length_rows:
  "(\<And>x. x \<in> set xs \<Longrightarrow> g x \<le> Suc (length (f x))) \<Longrightarrow> sum_list (map g xs) \<le> length (rows (map f xs))"
proof (induction xs)
  case (Cons x xs)
  then have "g x \<le> Suc (length (f x))" "sum_list (map g xs) \<le> length (rows (map f xs))" by simp_all
  then show ?case by (cases xs) (simp_all add: line_def)
qed simp

lemma cost_le: "plain_json v \<Longrightarrow> cost v \<le> length (render n v)"
proof (induction v arbitrary: n)
  case (JNum t)
  then show ?case by (cases t) (auto simp: number_text_def)
next
  case (JObj fs)
  have "sum_list (map (\<lambda>(k, v). 1 + cost v) fs) \<le>
      length (rows (map (\<lambda>(k, v). spaces (n + 2) @ quoted k @ '': '' @ render (n + 2) v) fs))"
  proof (rule length_rows, clarify)
    fix k v
    assume "(k, v) \<in> set fs"
    then have "cost v \<le> length (render (n + 2) v)" using JObj by (force simp: list_all_iff)
    then show "1 + cost v \<le> Suc (length (spaces (n + 2) @ quoted k @ '': '' @ render (n + 2) v))"
      unfolding length_append by linarith
  qed
  then show ?case by (simp add: line_def)
next
  case (JArr vs)
  have "sum_list (map (\<lambda>v. 1 + cost v) vs) \<le> length (rows (map (\<lambda>v. spaces (n + 2) @ render (n + 2) v) vs))"
  proof (rule length_rows)
    fix v
    assume "v \<in> set vs"
    then have "cost v \<le> length (render (n + 2) v)" using JArr by (force simp: list_all_iff)
    then show "1 + cost v \<le> Suc (length (spaces (n + 2) @ render (n + 2) v))"
      unfolding length_append by linarith
  qed
  then show ?case by (simp add: line_def)
qed (simp add: quoted_def)

lemma json_read_render: "plain_json v \<Longrightarrow> json_read (render n v @ [newline]) = Some v"
  using read_render [of v "length (render n v @ [newline])" "[newline]" n] cost_le [of v n]
  by (simp add: json_read_def)

section \<open>The document as a JSON value\<close>

abbreviation JU64 :: "u64 \<Rightarrow> json" where
  "JU64 n \<equiv> JNum (u64_text n)"

definition app_value :: "string \<times> AppSummary \<Rightarrow> json" where
  "app_value = (\<lambda>(name, s). JObj
     [(''name'', JStr name), (''flows'', JNum (to_string (as_flows s))), (''packets'', JU64 (as_packets s)),
      (''bytes'', JU64 (as_bytes s)), (''status'', JStr (status_text (as_blocked s)))])"

definition domain_value :: "string \<times> DomainSummary \<Rightarrow> json" where
  "domain_value = (\<lambda>(domain, s). JObj
     [(''domain'', JStr domain), (''application'', JStr (ds_app s)), (''packets'', JU64 (ds_packets s)),
      (''status'', JStr (status_text (ds_blocked s)))])"

definition flow_value :: "string \<times> Connection \<Rightarrow> json" where
  "flow_value = (\<lambda>(flow, c). JObj
     [(''flow'', JStr flow), (''protocol'', JStr (json_protocol (fk_protocol (c_flow_key c)))),
      (''application'', JStr (appTypeToString (c_app_type c))), (''domain'', JStr (bestDomain c)),
      (''state'', JStr (state_text (c_state c))), (''action'', JStr (action_text (c_action c))),
      (''packets'', JU64 (conn_packets c)), (''bytes'', JU64 (conn_bytes c))])"

definition summary_value :: "rate_texts \<Rightarrow> DPIStats \<Rightarrow> u64 \<times> u64 \<times> u64 \<Rightarrow> json" where
  "summary_value rt st = (\<lambda>(tcp, udp, other). JObj
     [(''total_packets'', JU64 (of_nat (total_packets st))), (''total_bytes'', JU64 (of_nat (total_bytes st))),
      (''forwarded_packets'', JU64 (of_nat (forwarded_packets st))),
      (''dropped_packets'', JU64 (of_nat (dropped_packets st))),
      (''tcp_packets'', JU64 tcp), (''udp_packets'', JU64 udp), (''other_packets'', JU64 other),
      (''elapsed_seconds'', JNum (rt_elapsed rt)), (''packets_per_second'', JNum (rt_pps rt)),
      (''mb_per_second'', JNum (rt_mbps rt))])"

definition report_value :: "rate_texts \<Rightarrow> DPIStats \<Rightarrow> (string \<times> Connection) list \<Rightarrow> json" where
  "report_value rt st flows =
     (let conns = map snd flows;
          protocols = protocol_packets st conns
      in JObj
        [(''summary'', summary_value rt st protocols),
         (''protocols'', (case protocols of (tcp, udp, other) \<Rightarrow>
            JObj [(''TCP'', JU64 tcp), (''UDP'', JU64 udp), (''Other'', JU64 other)])),
         (''applications'', JArr (map app_value (app_map conns))),
         (''domains'', JArr (map domain_value (domain_map conns))),
         (''flows'', JArr (map flow_value flows))])"

lemma json_entries_rows: "json_entries f xs = rows (map f xs)"
proof -
  have "concat (map (\<lambda>(i, x). line (f x @ (if i + 1 < n + length xs then '','' else []))) (enumerate n xs)) =
      rows (map f xs)" for n
  proof (induction xs arbitrary: n)
    case (Cons x xs)
    then show ?case using Cons.IH [of "Suc n"] by (cases xs) simp_all
  qed simp
  from this [of 0] show ?thesis by (simp add: json_entries_def)
qed

lemmas render_simps = line_def quoted_def quote_def spaces_def numeral_eq_Suc

lemma json_app_render: "json_app x = spaces 4 @ render 4 (app_value x)"
  by (cases x) (simp add: json_app_def app_value_def render_simps)

lemma json_domain_render: "json_domain x = spaces 4 @ render 4 (domain_value x)"
  by (cases x) (simp add: json_domain_def domain_value_def render_simps)

lemma json_flow_render: "json_flow x = spaces 4 @ render 4 (flow_value x)"
  by (cases x) (simp add: json_flow_def flow_value_def render_simps)

lemma json_document_render: "json_document rt st flows = render 0 (report_value rt st flows) @ [newline]"
proof -
  obtain tcp udp other where p: "protocol_packets st (map snd flows) = (tcp, udp, other)"
    by (metis prod_cases3)
  have e: "json_app = (\<lambda>x. spaces 4 @ render 4 (app_value x))" "json_domain = (\<lambda>x. spaces 4 @ render 4 (domain_value x))"
    "json_flow = (\<lambda>x. spaces 4 @ render 4 (flow_value x))"
    by (simp_all add: fun_eq_iff json_app_render json_domain_render json_flow_render)
  show ?thesis
    unfolding json_document_def report_value_def Let_def p json_entries_rows e
    by (simp add: json_summary_def summary_value_def json_protocols_def render_simps comp_def)
qed

section \<open>The report is JSON when the names are plain\<close>

lemma list_all_fold_at_entry:
  assumes "list_all P m" and "\<And>v. P (k, v) \<Longrightarrow> P (k, f v)" and "P (k, f init)"
  shows "list_all P (at_entry k init f m)"
  using assms(1)
proof (induction m)
  case (Cons e m)
  then show ?case using assms(2) by (cases e) auto
qed (use assms(3) in simp)

lemma plain_letter [simp]:
  "93 \<le> (of_char c :: nat) \<Longrightarrow> plain_char c"
  "35 \<le> (of_char c :: nat) \<Longrightarrow> (of_char c :: nat) \<le> 91 \<Longrightarrow> plain_char c"
  by (auto simp: plain_char_def quote_def)

lemma plain_appTypeToString [simp]: "list_all plain_char (appTypeToString a)"
  by (cases a) simp_all

lemma plain_texts [simp]: "list_all plain_char (status_text b)" "list_all plain_char (state_text st)"
  "list_all plain_char (json_protocol p)" "list_all plain_char (action_text act)"
  by (simp_all add: status_text_def state_text_def json_protocol_def action_text_def)

lemma number_to_string [simp]: "number_text (to_string n)"
  using to_string_digits by (auto simp: number_text_def list_all_iff num_char_def)

lemma plain_digit: "is_digit c \<Longrightarrow> plain_char c"
  by (auto simp: is_digit_def plain_char_def quote_def)

lemma plain_to_string [simp]: "list_all plain_char (to_string n)"
  using to_string_digits plain_digit by (auto simp: list_all_iff)

lemma plain_app_map: "list_all (\<lambda>x. plain_json (app_value x)) (app_map conns)"
proof -
  have "list_all (\<lambda>x. plain_json (app_value x)) (fold summarize_app conns m)"
    if "list_all (\<lambda>x. plain_json (app_value x)) m" for m
    using that
  proof (induction conns arbitrary: m)
    case (Cons c conns)
    have "list_all (\<lambda>x. plain_json (app_value x)) (summarize_app c m)"
      unfolding summarize_app_def
      by (rule list_all_fold_at_entry [OF Cons.prems]) (simp_all add: app_value_def)
    then show ?case using Cons.IH by simp
  qed simp
  then show ?thesis by (simp add: app_map_def)
qed

lemma plain_domain_map:
  assumes "list_all (\<lambda>c. list_all plain_char (bestDomain c)) conns"
  shows "list_all (\<lambda>x. plain_json (domain_value x)) (domain_map conns)"
proof -
  have "list_all (\<lambda>x. plain_json (domain_value x)) (fold summarize_domain conns m)"
    if "list_all (\<lambda>x. plain_json (domain_value x)) m" for m
    using that assms
  proof (induction conns arbitrary: m)
    case (Cons c conns)
    have "list_all (\<lambda>x. plain_json (domain_value x)) (summarize_domain c m)"
    proof (cases "bestDomain c = []")
      case False
      have "list_all (\<lambda>x. plain_json (domain_value x)) (at_entry (bestDomain c) i f m)"
        if "\<And>v. ds_app (f v) = appTypeToString (c_app_type c)" for i f
        by (rule list_all_fold_at_entry [OF Cons.prems(1)])
          (use Cons.prems(2) that in \<open>simp_all add: domain_value_def\<close>)
      then show ?thesis using False by (simp add: summarize_domain_def)
    qed (use Cons.prems(1) in \<open>simp add: summarize_domain_def\<close>)
    then show ?case using Cons by simp
  qed simp
  then show ?thesis by (simp add: domain_map_def)
qed

lemma json_document_read:
  assumes "list_all (\<lambda>(t, c). list_all plain_char t \<and> list_all plain_char (bestDomain c)) flows"
    and "number_text (rt_elapsed rt)" and "number_text (rt_pps rt)" and "number_text (rt_mbps rt)"
  shows "json_read (json_document rt st flows) = Some (report_value rt st flows)"
proof -
  have "list_all (\<lambda>c. list_all plain_char (bestDomain c)) (map snd flows)"
    using assms(1) by (auto simp: list_all_iff)
  then have "list_all (\<lambda>x. plain_json (domain_value x)) (domain_map (map snd flows))" by (rule plain_domain_map)
  moreover have "list_all (\<lambda>x. plain_json (flow_value x)) flows"
    using assms(1)
  proof (induction flows)
    case (Cons x flows)
    then show ?case by (cases x) (simp add: flow_value_def)
  qed simp
  ultimately have "plain_json (report_value rt st flows)"
    using assms(2-4) plain_app_map [of "map snd flows"]
    by (simp add: report_value_def Let_def summary_value_def split_def list.pred_map comp_def)
  then show ?thesis by (simp add: json_document_render json_read_render)
qed

text \<open>The texts of flows are plain whatever the addresses.\<close>

lemma plain_to_hex [simp]: "list_all plain_char (to_hex n)"
proof (induction n rule: to_hex.induct)
  case (1 n)
  have "plain_char (hex_char d)" if "d < 16" for d
  proof -
    have "(of_char (hex_char d) :: nat) = (if d < 10 then 48 + d else 87 + d)"
      using that by (simp add: hex_char_def of_char_of)
    then show ?thesis using that by (cases "d < 10") (auto simp: plain_char_def quote_def)
  qed
  then show ?case using 1 by (subst to_hex.simps) simp
qed

lemma plain_ipv6_emit: "ipv6_emit fuel g s l i c = Some t \<Longrightarrow> list_all plain_char t"
  by (induction fuel g s l i c arbitrary: t rule: ipv6_emit.induct) (auto split: if_splits)

lemma plain_addr_text: "\<exists>t. addr_text a = Some t \<and> list_all plain_char t"
proof (cases a)
  case (IPv6Addr x)
  obtain t where t: "ipv6ToString x = Some t" using ipv6ToString_Some by blast
  then have "list_all plain_char t"
    unfolding ipv6ToString_def Let_def split_def by (rule plain_ipv6_emit)
  then show ?thesis using t IPv6Addr by simp
qed (simp add: ipv4ToString_def)

lemma plain_FlowKey_toString: "\<exists>t. FlowKey_toString k = Some t \<and> list_all plain_char t"
proof -
  obtain s d where "addr_text (fk_src_addr k) = Some s" "list_all plain_char s"
    "addr_text (fk_dst_addr k) = Some d" "list_all plain_char d"
    using plain_addr_text by metis
  moreover have "list_all plain_char (proto_text p)" for p
    by (simp add: proto_text_def)
  moreover have "plain_char CHR '' ''" by (simp add: plain_char_def quote_def)
  ultimately show ?thesis by (simp add: FlowKey_toString_def)
qed

lemma those_flow_texts:
  "\<exists>flows. those (map with_flow_text conns) = Some flows \<and> map snd flows = conns \<and>
     list_all (\<lambda>(t, c). FlowKey_toString (c_flow_key c) = Some t \<and> list_all plain_char t) flows"
proof (induction conns)
  case (Cons c conns)
  then show ?case using plain_FlowKey_toString [of "c_flow_key c"] by (auto simp: with_flow_text_def)
qed simp

text \<open>
  C22. The JSON report can be read: when no domain of a connection has a quotation mark, a backslash or a
  control character, the document is a JSON text, and reading it gives the summary of the statistics, the
  protocol counts, the applications and domains, and every connection of every fast path as a flow, in
  this order and with the values the engine holds.
\<close>

theorem json_report_is_json:
  assumes "list_all (\<lambda>c. list_all plain_char (bestDomain c)) (all_connections en)"
    and "rt = rates (total_packets (en_stats en)) (total_bytes (en_stats en))"
    and "number_text (rt_elapsed rt)" and "number_text (rt_pps rt)" and "number_text (rt_mbps rt)"
  shows "\<exists>doc flows. generateJSONReport rates en = Some doc \<and> map snd flows = all_connections en \<and>
    list_all (\<lambda>(t, c). FlowKey_toString (c_flow_key c) = Some t) flows \<and>
    json_read doc = Some (report_value rt (en_stats en) flows)"
proof -
  obtain flows where f: "those (map with_flow_text (all_connections en)) = Some flows"
    "map snd flows = all_connections en"
    "list_all (\<lambda>(t, c). FlowKey_toString (c_flow_key c) = Some t \<and> list_all plain_char t) flows"
    using those_flow_texts by blast
  have "list_all (\<lambda>(t, c). list_all plain_char t \<and> list_all plain_char (bestDomain c)) flows"
    using f(3) assms(1) unfolding f(2) [symmetric] by (auto simp: list_all_iff)
  then have "json_read (json_document rt (en_stats en) flows) = Some (report_value rt (en_stats en) flows)"
    by (rule json_document_read [OF _ assms(3-5)])
  moreover have "list_all (\<lambda>(t, c). FlowKey_toString (c_flow_key c) = Some t) flows"
    using f(3) by (auto simp: list_all_iff)
  ultimately show ?thesis using f(1,2) by (auto simp: generateJSONReport_def assms(2))
qed

text \<open>An engine with one fast path that tracks one named connection.\<close>

definition named_connection :: "string \<Rightarrow> Connection" where
  "named_connection name =
     (case new_connection 0 \<lparr>fk_src_addr = IPv4Addr 1, fk_dst_addr = IPv4Addr 2, fk_src_port = 9,
        fk_dst_port = 443, fk_protocol = 6\<rparr> of Inr c \<Rightarrow> c\<lparr>c_sni := name\<rparr>)"

definition tracking_engine :: "Connection list \<Rightarrow> Engine" where
  "tracking_engine conns =
     (new_engine \<lparr>num_parser_workers = 1, num_load_balancers = 1, fps_per_lb = 1, queue_size = 1,
        rules_file = [], verbose = False\<rparr>)
       \<lparr>en_rule_manager := Some no_rules,
        en_fps := [(new_fast_path 0)\<lparr>fp_connection_tracker :=
          (new_tracker 0 100)\<lparr>ct_connections := map (\<lambda>c. (c_flow_key c, c)) conns\<rparr>\<rparr>]\<rparr>"

lemma tracking_engine_connections: "all_connections (tracking_engine conns) = conns"
  by (simp add: all_connections_def tracking_engine_def new_engine_def getAllConnections_def comp_def)

lemma json_report_is_json_witness:
  "\<exists>doc flows. generateJSONReport (\<lambda>p b. \<lparr>rt_elapsed = ''0.5000'', rt_pps = to_string p, rt_mbps = ''0.00''\<rparr>)
      (tracking_engine [named_connection ''a.io'']) = Some doc \<and>
    map snd flows = [named_connection ''a.io''] \<and>
    list_all (\<lambda>(t, c). FlowKey_toString (c_flow_key c) = Some t) flows \<and>
    json_read doc = Some (report_value \<lparr>rt_elapsed = ''0.5000'', rt_pps = ''0'', rt_mbps = ''0.00''\<rparr>
      (en_stats (tracking_engine [])) flows)"
proof -
  let ?rates = "\<lambda>p b :: nat. \<lparr>rt_elapsed = ''0.5000'', rt_pps = to_string p, rt_mbps = ''0.00''\<rparr>"
  let ?en = "tracking_engine [named_connection ''a.io'']"
  have st: "en_stats ?en = en_stats (tracking_engine [])" "total_packets (en_stats (tracking_engine [])) = 0"
    by (simp_all add: tracking_engine_def new_engine_def)
  have "bestDomain (named_connection ''a.io'') = ''a.io''"
    by (simp add: named_connection_def new_connection_def Let_def fk_isIPv6_def bestDomain_def split: sum.split)
  moreover have "to_string 0 = ''0''" by code_simp
  ultimately show ?thesis
    using json_report_is_json [of ?en _ ?rates, OF _ refl]
    by (simp add: st tracking_engine_connections number_text_def num_char_def is_digit_def)
qed

section \<open>What the aggregation adds up\<close>

definition of_app :: "Connection list \<Rightarrow> string \<Rightarrow> Connection list" where
  "of_app conns name = filter (\<lambda>c. appTypeToString (c_app_type c) = name) conns"

lemma of_app_snoc: "of_app (conns @ [c]) name = of_app conns name @ (if appTypeToString (c_app_type c) = name then [c] else [])"
  by (simp add: of_app_def)

lemma map_of_at_entry:
  "map_of (at_entry k i f m) k' =
     (if k' = k then Some (f (case map_of m k of None \<Rightarrow> i | Some v \<Rightarrow> v)) else map_of m k')"
  by (induction m) auto

lemma distinct_at_entry: "distinct (map fst m) \<Longrightarrow> distinct (map fst (at_entry k i f m))"
proof (induction m)
  case (Cons e m)
  have "fst ` set (at_entry k i f m) = insert k (fst ` set m)" for m
    unfolding dom_map_of_conv_image_fst [symmetric] by (auto simp: map_of_at_entry split: if_splits)
  then show ?case using Cons by (cases e) auto
qed simp

text \<open>
  The applications of the JSON report are a partition of the connections: every application name
  is listed once, exactly if some connection has it, with the number of its connections, the sums of
  their packets and bytes, and as blocked exactly if one of them is.
\<close>

theorem json_applications_add_up:
  "distinct (map fst (app_map conns)) \<and>
   map_of (app_map conns) name =
     (if of_app conns name = [] then None
      else Some \<lparr>as_flows = length (of_app conns name), as_packets = sum_list (map conn_packets (of_app conns name)),
        as_bytes = sum_list (map conn_bytes (of_app conns name)), as_blocked = list_ex conn_blocked (of_app conns name)\<rparr>)"
proof (induction conns rule: rev_induct)
  case (snoc c conns)
  have "app_map (conns @ [c]) = summarize_app c (app_map conns)" by (simp add: app_map_def)
  then show ?case
    using snoc by (cases "of_app conns name = []")
      (auto simp: summarize_app_def map_of_at_entry distinct_at_entry of_app_snoc ac_simps)
qed (simp add: app_map_def of_app_def)

section \<open>Names are not escaped\<close>

text \<open>
  The name that makes one flow look like two: the rest of a first entry, its end, and the start of a
  second entry up to its domain.
\<close>

definition forged_name :: "Connection \<Rightarrow> string \<Rightarrow> Connection \<Rightarrow> string" where
  \<open>forged_name c1 flow2 c2 =
     bestDomain c1 @ line ''",'' @
     line (''      "state": "'' @ state_text (c_state c1) @ ''",'') @
     line (''      "action": "'' @ action_text (c_action c1) @ ''",'') @
     line (''      "packets": '' @ u64_text (conn_packets c1) @ '','') @
     line (''      "bytes": '' @ u64_text (conn_bytes c1)) @
     line ''    },'' @
     line ''    {'' @
     line (''      "flow": "'' @ flow2 @ ''",'') @
     line (''      "protocol": "'' @ json_protocol (fk_protocol (c_flow_key c2)) @ ''",'') @
     line (''      "application": "'' @ appTypeToString (c_app_type c2) @ ''",'') @
     ''      "domain": "'' @ bestDomain c2\<close>

text \<open>
  Server names go into the JSON report as they are: for any two flows there is a name that, when
  a single connection has it, makes the list of flows of that one connection the same text as the
  list of the two flows. Whoever reads the report cannot tell them apart, so a client can hide its flow
  behind one of its own invention.
\<close>

theorem json_name_forges_flow:
  "let c = c2\<lparr>c_flow_key := c_flow_key c1, c_app_type := c_app_type c1, c_sni := forged_name c1 flow2 c2\<rparr>
   in json_entries json_flow [(flow1, c)] = json_entries json_flow [(flow1, c1), (flow2, c2)]"
proof -
  have "forged_name c1 flow2 c2 \<noteq> []" by (simp add: forged_name_def line_def)
  then have "bestDomain (c2\<lparr>c_flow_key := k, c_app_type := a, c_sni := forged_name c1 flow2 c2\<rparr>) =
      forged_name c1 flow2 c2" for k a
    by (simp add: bestDomain_def)
  then show ?thesis
    by (simp add: Let_def json_entries_rows json_flow_def forged_name_def line_def conn_packets_def conn_bytes_def)
qed

end
