(* ===== verification/Command_Line.thy ===== *)
theory Command_Line
  imports Shutdown Json_Report
begin

text \<open>
  The command line program of \<open>src/main_dpi.cpp\<close>: its options, the rules it sets up, the start of the
  engine and the JSON file it leaves. Of what it prints, the usage is modelled.
\<close>

definition usage_text :: "string \<Rightarrow> string" where
  "usage_text program_name =
     put_line [] @
     top_line @
     box_line (''                    DPI ENGINE v1.0                            '' @ bar) @
     box_line (''               Deep Packet Inspection System                   '' @ bar) @
     end_line @
     put_line [] @
     put_line (''Usage: '' @ program_name @ '' <input.pcap> <output.pcap> [options]'') @
     put_line [] @
     put_line ''Arguments:'' @
     put_line ''  input.pcap     Input PCAP file (captured user traffic)'' @
     put_line ''  output.pcap    Output PCAP file (filtered traffic to internet)'' @
     put_line [] @
     put_line ''Options:'' @
     put_line ''  --block-ip <ip>        Block packets from source IP'' @
     put_line ''  --block-app <app>      Block application (e.g., YouTube, Facebook)'' @
     put_line ''  --block-domain <dom>   Block domain (supports wildcards: *.facebook.com)'' @
     put_line ''  --rules <file>         Load blocking rules from file'' @
     put_line ''  --json <file>          Export structured JSON report for dashboard'' @
     put_line ''  --lbs <n>              Number of load balancer threads (default: 2)'' @
     put_line ''  --fps <n>              FP threads per LB (default: 2)'' @
     put_line ''  --verbose              Enable verbose output''"

section \<open>Options\<close>

record Options =
  op_config :: Config
  op_block_ips :: "string list"
  op_block_apps :: "string list"
  op_block_domains :: "string list"
  op_rules_file :: string
  op_json_file :: string

definition default_config :: Config where
  "default_config = \<lparr>num_parser_workers = 2, num_load_balancers = 2, fps_per_lb = 2, queue_size = 10000,
     rules_file = [], verbose = False\<rparr>"

definition default_options :: Options where
  "default_options = \<lparr>op_config = default_config\<lparr>num_load_balancers := 2, fps_per_lb := 2\<rparr>, op_block_ips = [],
     op_block_apps = [], op_block_domains = [], op_rules_file = [], op_json_file = []\<rparr>"

definition on_config :: "(Config \<Rightarrow> Config) \<Rightarrow> Options \<Rightarrow> Options" where
  "on_config f op = op\<lparr>op_config := f (op_config op)\<rparr>"

text \<open>
  The loop over the arguments: \<open>None\<close> when it meets a request for help. An option that takes a value and
  is the last argument, and any other argument, are passed over. A number that \<open>std::stoi\<close> does not
  accept ends the program by an exception.
\<close>

fun parse_options :: "string list \<Rightarrow> Options \<Rightarrow> Options option res" where
  "parse_options [] op = Inr (Some op)"
| "parse_options (arg # rest) op =
     (if arg = ''--block-ip'' \<and> rest \<noteq> [] then
        parse_options (tl rest) (op\<lparr>op_block_ips := op_block_ips op @ [hd rest]\<rparr>)
      else if arg = ''--block-app'' \<and> rest \<noteq> [] then
        parse_options (tl rest) (op\<lparr>op_block_apps := op_block_apps op @ [hd rest]\<rparr>)
      else if arg = ''--block-domain'' \<and> rest \<noteq> [] then
        parse_options (tl rest) (op\<lparr>op_block_domains := op_block_domains op @ [hd rest]\<rparr>)
      else if arg = ''--rules'' \<and> rest \<noteq> [] then
        parse_options (tl rest) (op\<lparr>op_rules_file := hd rest\<rparr>)
      else if arg = ''--json'' \<and> rest \<noteq> [] then
        parse_options (tl rest) (op\<lparr>op_json_file := hd rest\<rparr>)
      else if (arg = ''--parser-workers'' \<or> arg = ''-p'') \<and> rest \<noteq> [] then
        rbind (stoi (hd rest)) (\<lambda>p.
          parse_options (tl rest) (on_config (\<lambda>c. c\<lparr>num_parser_workers := (if p < 1 then 1 else p)\<rparr>) op))
      else if arg = ''--lbs'' \<and> rest \<noteq> [] then
        rbind (stoi (hd rest)) (\<lambda>n. parse_options (tl rest) (on_config (\<lambda>c. c\<lparr>num_load_balancers := n\<rparr>) op))
      else if arg = ''--fps'' \<and> rest \<noteq> [] then
        rbind (stoi (hd rest)) (\<lambda>n. parse_options (tl rest) (on_config (\<lambda>c. c\<lparr>fps_per_lb := n\<rparr>) op))
      else if arg = ''--verbose'' then
        parse_options rest (on_config (\<lambda>c. c\<lparr>verbose := True\<rparr>) op)
      else if arg = ''--help'' \<or> arg = ''-h'' then Inr None
      else parse_options rest op)"

text \<open>The words of a text; nothing calls it.\<close>

function split_words :: "string \<Rightarrow> string list" where
  "split_words s =
     (let t = dropWhile is_space s in
      if t = [] then [] else takeWhile (\<lambda>c. \<not> is_space c) t # split_words (dropWhile (\<lambda>c. \<not> is_space c) t))"
  by pat_completeness auto

termination
proof (relation "measure length")
  fix s t
  assume t: "t = dropWhile is_space s" and ne: "t \<noteq> []"
  then have "\<not> is_space (hd t)" using hd_dropWhile [of is_space s] by auto
  then have "dropWhile (\<lambda>c. \<not> is_space c) t = dropWhile (\<lambda>c. \<not> is_space c) (tl t)"
    using ne by (cases t) auto
  then have "length (dropWhile (\<lambda>c. \<not> is_space c) t) \<le> length (tl t)" by (metis length_dropWhile_le)
  also have "\<dots> < length t" using ne by (cases t) auto
  also have "\<dots> \<le> length s" unfolding t by (rule length_dropWhile_le)
  finally show "(dropWhile (\<lambda>c. \<not> is_space c) t, s) \<in> measure length" by simp
qed simp

section \<open>The program\<close>

text \<open>The rules of the command line, applied in this order after the rules file.\<close>

fun block_ips :: "string list \<Rightarrow> Engine \<Rightarrow> Engine res" where
  "block_ips [] en = Inr en"
| "block_ips (ip # ips) en = rbind (en_blockIP ip en) (block_ips ips)"

definition apply_rules :: "(string \<Rightarrow> string option) \<Rightarrow> Options \<Rightarrow> Engine \<Rightarrow> Engine res" where
  "apply_rules files op en =
     rbind (if op_rules_file op \<noteq> [] then rbind (en_loadRules (files (op_rules_file op)) en) (\<lambda>(_, en). Inr en)
            else Inr en) (\<lambda>en.
     rbind (block_ips (op_block_ips op) en) (\<lambda>en.
       Inr (fold en_blockDomain (op_block_domains op) (fold en_blockApp_name (op_block_apps op) en))))"

text \<open>
  \<open>main\<close> up to the wait for the reader: it ends with an exit code, or has started the threads.
  \<open>captures\<close> are the contents of the files as bytes, \<open>creates\<close> tells which files can be created.
\<close>

datatype started = Exit int | Running Options Engine

definition main_dpi ::
  "nat \<Rightarrow> (string \<Rightarrow> string option) \<Rightarrow> (string \<Rightarrow> bytes option) \<Rightarrow> (string \<Rightarrow> bool) \<Rightarrow> string list \<Rightarrow> started res" where
  "main_dpi now files captures creates argv =
     (if length argv < 3 then Inr (Exit 1)
      else rbind (parse_options (drop 3 argv) default_options) (\<lambda>parsed.
        case parsed of
          None \<Rightarrow> Inr (Exit 0)
        | Some op \<Rightarrow>
            rbind (initialize files (new_engine (op_config op))) (\<lambda>en.
            rbind (apply_rules files op en) (\<lambda>en.
            rbind (processFile now files (captures (argv ! 1)) (creates (argv ! 2)) en) (\<lambda>(ok, en).
              Inr (if ok then Running op en else Exit 1))))))"

text \<open>What it does when \<open>processFile\<close> has returned: the content of the JSON file, if one is to be written.\<close>

definition write_json :: "(nat \<Rightarrow> nat \<Rightarrow> rate_texts) \<Rightarrow> (string \<Rightarrow> bool) \<Rightarrow> Options \<Rightarrow> Engine \<Rightarrow> (string \<times> string option) option" where
  "write_json rates creates op en =
     (if op_json_file op \<noteq> [] \<and> creates (op_json_file op)
      then Some (op_json_file op, generateJSONReport rates en) else None)"

section \<open>Options are read back\<close>

datatype cmd_option =
    OBlockIP string | OBlockApp string | OBlockDomain string | ORules string | OJson string
  | OParsers nat | OLbs nat | OFps nat | OVerbose

fun option_args :: "cmd_option \<Rightarrow> string list" where
  "option_args (OBlockIP s) = [''--block-ip'', s]"
| "option_args (OBlockApp s) = [''--block-app'', s]"
| "option_args (OBlockDomain s) = [''--block-domain'', s]"
| "option_args (ORules s) = [''--rules'', s]"
| "option_args (OJson s) = [''--json'', s]"
| "option_args (OParsers n) = [''--parser-workers'', to_string n]"
| "option_args (OLbs n) = [''--lbs'', to_string n]"
| "option_args (OFps n) = [''--fps'', to_string n]"
| "option_args OVerbose = [''--verbose'']"

fun set_option :: "cmd_option \<Rightarrow> Options \<Rightarrow> Options" where
  "set_option (OBlockIP s) op = op\<lparr>op_block_ips := op_block_ips op @ [s]\<rparr>"
| "set_option (OBlockApp s) op = op\<lparr>op_block_apps := op_block_apps op @ [s]\<rparr>"
| "set_option (OBlockDomain s) op = op\<lparr>op_block_domains := op_block_domains op @ [s]\<rparr>"
| "set_option (ORules s) op = op\<lparr>op_rules_file := s\<rparr>"
| "set_option (OJson s) op = op\<lparr>op_json_file := s\<rparr>"
| "set_option (OParsers n) op = on_config (\<lambda>c. c\<lparr>num_parser_workers := max 1 (int n)\<rparr>) op"
| "set_option (OLbs n) op = on_config (\<lambda>c. c\<lparr>num_load_balancers := int n\<rparr>) op"
| "set_option (OFps n) op = on_config (\<lambda>c. c\<lparr>fps_per_lb := int n\<rparr>) op"
| "set_option OVerbose op = on_config (\<lambda>c. c\<lparr>verbose := True\<rparr>) op"

fun small_option :: "cmd_option \<Rightarrow> bool" where
  "small_option (OParsers n) = (n < 2 ^ 31)"
| "small_option (OLbs n) = (n < 2 ^ 31)"
| "small_option (OFps n) = (n < 2 ^ 31)"
| "small_option _ = True"

lemma parse_option_args:
  assumes "small_option x"
  shows "parse_options (option_args x @ rest) op = parse_options rest (set_option x op)"
  using assms by (cases x) (simp_all add: stoi_to_string max_def)

lemma parse_options_args:
  "list_all small_option xs \<Longrightarrow> parse_options (concat (map option_args xs)) op = Inr (Some (fold set_option xs op))"
  by (induction xs arbitrary: op) (simp_all add: parse_option_args del: parse_options.simps(2))

section \<open>The rules of the command line are in force\<close>

lemma initialize_rules:
  assumes "initialize files (new_engine config) = Inr en"
  shows "\<exists>rm. en_rule_manager en = Some rm"
  using assms by (auto simp: initialize_def rbind_Inr_iff Let_def split: if_splits)

lemma block_ips_effect:
  assumes "block_ips ips en = Inr en'" and "en_rule_manager en = Some rm"
  shows "\<exists>addrs. map parseIPv4Address ips = map Inr addrs \<and> en' = en\<lparr>en_rule_manager := Some (fold blockIP addrs rm)\<rparr>"
  using assms
proof (induction ips arbitrary: en rm)
  case Nil
  then show ?case by simp
next
  case (Cons ip ips)
  then obtain a where a: "parseIPv4Address ip = Inr a"
    "block_ips ips (en\<lparr>en_rule_manager := Some (blockIP a rm)\<rparr>) = Inr en'"
    by (auto simp: rbind_Inr_iff en_blockIP_def try_rules_def blockIP_text_def)
  then obtain addrs where "map parseIPv4Address ips = map Inr addrs"
    "en' = en\<lparr>en_rule_manager := Some (fold blockIP addrs (blockIP a rm))\<rparr>"
    using Cons.IH [OF a(2)] by auto
  then show ?case using a(1) by (intro exI [of _ "a # addrs"]) simp
qed

definition block_named :: "string \<Rightarrow> RuleManager \<Rightarrow> RuleManager" where
  "block_named name rm = (case app_by_name name of Some app \<Rightarrow> blockApp app rm | None \<Rightarrow> rm)"

lemma fold_en_rules:
  assumes "en_rule_manager en = Some rm"
  shows "fold en_blockApp_name names en = en\<lparr>en_rule_manager := Some (fold block_named names rm)\<rparr>"
    and "fold en_blockDomain domains en = en\<lparr>en_rule_manager := Some (fold blockDomain domains rm)\<rparr>"
proof -
  show "fold en_blockApp_name names en = en\<lparr>en_rule_manager := Some (fold block_named names rm)\<rparr>"
    using assms
  proof (induction names arbitrary: en rm)
    case (Cons n names)
    have "en_blockApp_name n en = en\<lparr>en_rule_manager := Some (block_named n rm)\<rparr>"
      using Cons.prems
      by (simp add: en_blockApp_name_def en_blockApp_def with_rules_def block_named_def split: option.split)
    then show ?case using Cons.IH [of "en\<lparr>en_rule_manager := Some (block_named n rm)\<rparr>"] by simp
  qed simp
  show "fold en_blockDomain domains en = en\<lparr>en_rule_manager := Some (fold blockDomain domains rm)\<rparr>"
    using assms
  proof (induction domains arbitrary: en rm)
    case (Cons d domains)
    then show ?case
      using Cons.IH [of "en\<lparr>en_rule_manager := Some (blockDomain d rm)\<rparr>"]
      by (simp add: en_blockDomain_def with_rules_def)
  qed simp
qed

text \<open>What the program adds to the rules it has loaded.\<close>

definition with_option_rules :: "u32 list \<Rightarrow> Options \<Rightarrow> RuleManager \<Rightarrow> RuleManager" where
  "with_option_rules addrs op rm =
     fold blockDomain (op_block_domains op) (fold block_named (op_block_apps op) (fold blockIP addrs rm))"

lemma apply_rules_effect:
  assumes "apply_rules files op en = Inr en'" and "en_rule_manager en = Some rm"
  shows "\<exists>rm0 addrs. map parseIPv4Address (op_block_ips op) = map Inr addrs \<and>
    (op_rules_file op = [] \<longrightarrow> rm0 = rm) \<and>
    en' = en\<lparr>en_rule_manager := Some (with_option_rules addrs op rm0)\<rparr>"
proof -
  obtain en1 en2 where 1: "(if op_rules_file op \<noteq> [] then rbind (en_loadRules (files (op_rules_file op)) en) (\<lambda>(_, en). Inr en)
      else Inr en) = Inr en1"
    and 2: "block_ips (op_block_ips op) en1 = Inr en2"
    and 3: "en' = fold en_blockDomain (op_block_domains op) (fold en_blockApp_name (op_block_apps op) en2)"
    using assms(1) unfolding apply_rules_def rbind_Inr_iff by auto
  have "\<exists>rm0. en1 = en\<lparr>en_rule_manager := Some rm0\<rparr> \<and> (op_rules_file op = [] \<longrightarrow> rm0 = rm)"
  proof (cases "op_rules_file op = []")
    case True
    then show ?thesis using 1 assms(2) by (intro exI [of _ rm]) simp
  next
    case False
    then show ?thesis
      using 1 assms(2)
      by (cases "files (op_rules_file op)") (auto simp: en_loadRules_def rbind_Inr_iff intro: exI [of _ rm])
  qed
  then obtain rm0 where rm0: "en1 = en\<lparr>en_rule_manager := Some rm0\<rparr>" "op_rules_file op = [] \<longrightarrow> rm0 = rm" by blast
  then obtain addrs where a: "map parseIPv4Address (op_block_ips op) = map Inr addrs"
    "en2 = en\<lparr>en_rule_manager := Some (fold blockIP addrs rm0)\<rparr>"
    using block_ips_effect [OF 2, of rm0] by auto
  have "en' = en\<lparr>en_rule_manager := Some (with_option_rules addrs op rm0)\<rparr>"
    unfolding 3 a(2)
    by (simp add: fold_en_rules(1) [of _ "fold blockIP addrs rm0"])
      (simp add: fold_en_rules(2) [of _ "fold block_named (op_block_apps op) (fold blockIP addrs rm0)"] with_option_rules_def)
  then show ?thesis using a(1) rm0(2) by blast
qed

text \<open>What is blocked after that.\<close>

lemma named_fields [simp]:
  "rm_blocked_ips (block_named n rm) = rm_blocked_ips rm" "rm_blocked_domains (block_named n rm) = rm_blocked_domains rm"
  "rm_domain_patterns (block_named n rm) = rm_domain_patterns rm"
  "rm_blocked_ips (blockDomain d rm) = rm_blocked_ips rm" "rm_blocked_apps (blockDomain d rm) = rm_blocked_apps rm"
  "rm_blocked_apps (blockIP a rm) = rm_blocked_apps rm"
  by (simp_all add: block_named_def blockApp_def blockDomain_def blockIP_def Let_def split: option.split)

lemma fold_fields [simp]:
  "rm_blocked_ips (fold block_named ns rm) = rm_blocked_ips rm" "rm_blocked_ips (fold blockDomain ds rm) = rm_blocked_ips rm"
  "rm_blocked_apps (fold blockDomain ds rm) = rm_blocked_apps rm" "rm_blocked_apps (fold blockIP as rm) = rm_blocked_apps rm"
proof -
  show "rm_blocked_ips (fold block_named ns rm) = rm_blocked_ips rm" by (induction ns arbitrary: rm) simp_all
  show "rm_blocked_ips (fold blockDomain ds rm) = rm_blocked_ips rm"
    "rm_blocked_apps (fold blockDomain ds rm) = rm_blocked_apps rm" by (induction ds arbitrary: rm) simp_all
  show "rm_blocked_apps (fold blockIP as rm) = rm_blocked_apps rm" by (induction as arbitrary: rm) simp_all
qed

lemma set_fold_named:
  "set (rm_blocked_apps (fold block_named ns rm)) = set (rm_blocked_apps rm) \<union> {a. \<exists>n \<in> set ns. app_by_name n = Some a}"
  by (induction ns arbitrary: rm) (auto simp: block_named_def blockApp_def split: option.splits)

lemma set_fold_domains:
  "set (rm_blocked_domains (fold blockDomain ds rm)) =
     set (rm_blocked_domains rm) \<union> {normalize_rule d | d. d \<in> set ds \<and> CHR ''*'' \<notin> set (normalize_rule d)}"
  by (induction ds arbitrary: rm) (auto simp: blockDomain_def Let_def)

lemma option_values:
  assumes "op' = fold set_option xs op"
  shows "OBlockIP s \<in> set xs \<Longrightarrow> s \<in> set (op_block_ips op')"
    and "OBlockApp s \<in> set xs \<Longrightarrow> s \<in> set (op_block_apps op')"
    and "OBlockDomain s \<in> set xs \<Longrightarrow> s \<in> set (op_block_domains op')"
proof -
  have "(OBlockIP s \<in> set xs \<longrightarrow> s \<in> set (op_block_ips op')) \<and> (OBlockApp s \<in> set xs \<longrightarrow> s \<in> set (op_block_apps op')) \<and>
      (OBlockDomain s \<in> set xs \<longrightarrow> s \<in> set (op_block_domains op'))"
    unfolding assms
  proof (induction xs rule: rev_induct)
    case (snoc x xs)
    then show ?case by (cases x) (auto simp: on_config_def)
  qed simp
  then show "OBlockIP s \<in> set xs \<Longrightarrow> s \<in> set (op_block_ips op')" "OBlockApp s \<in> set xs \<Longrightarrow> s \<in> set (op_block_apps op')"
    "OBlockDomain s \<in> set xs \<Longrightarrow> s \<in> set (op_block_domains op')" by blast+
qed

lemma with_option_rules_block:
  assumes "map parseIPv4Address (op_block_ips op) = map Inr addrs"
  shows "s \<in> set (op_block_ips op) \<Longrightarrow> parseIPv4Address s = Inr a \<Longrightarrow> isIPBlocked (with_option_rules addrs op rm) a"
    and "s \<in> set (op_block_apps op) \<Longrightarrow> app_by_name s = Some app \<Longrightarrow> isAppBlocked (with_option_rules addrs op rm) app"
    and "d \<in> set (op_block_domains op) \<Longrightarrow> d \<noteq> [] \<Longrightarrow> CHR ''*'' \<notin> set (normalize_rule d) \<Longrightarrow>
      isDomainBlocked (with_option_rules addrs op rm) d"
proof -
  show "isIPBlocked (with_option_rules addrs op rm) a" if "s \<in> set (op_block_ips op)" "parseIPv4Address s = Inr a"
  proof -
    have "Inr a \<in> set (map parseIPv4Address (op_block_ips op))" using that by force
    then have "a \<in> set addrs" unfolding assms by auto
    then have "isIPBlocked (fold blockIP addrs rm) a" by (simp add: ips.member_fold_add)
    then show ?thesis by (simp add: isIPBlocked_def with_option_rules_def)
  qed
  show "isAppBlocked (with_option_rules addrs op rm) app" if "s \<in> set (op_block_apps op)" "app_by_name s = Some app"
    using that by (auto simp: isAppBlocked_def with_option_rules_def set_fold_named)
  show "isDomainBlocked (with_option_rules addrs op rm) d"
    if "d \<in> set (op_block_domains op)" "d \<noteq> []" "CHR ''*'' \<notin> set (normalize_rule d)"
    using that by (auto simp: isDomainBlocked_spec with_option_rules_def set_fold_domains)
qed

lemma main_runs:
  assumes "list_all small_option xs"
    and "main_dpi now files captures creates (prog # input # output # concat (map option_args xs)) = Inr (Running op en)"
  shows "op = fold set_option xs default_options \<and>
    (\<exists>rm0 addrs. map parseIPv4Address (op_block_ips op) = map Inr addrs \<and>
      launch (op_config op) files (with_option_rules addrs op rm0) now (captures input) = Inr en)"
proof -
  define op' where "op' = fold set_option xs default_options"
  have p: "parse_options (concat (map option_args xs)) default_options = Inr (Some op')"
    using parse_options_args [OF assms(1)] by (simp add: op'_def)
  obtain en1 en2 ok en3 where init: "initialize files (new_engine (op_config op')) = Inr en1"
    and rules: "apply_rules files op' en1 = Inr en2"
    and start: "processFile now files (captures input) (creates output) en2 = Inr (ok, en3)"
    and run: "(if ok then Running op' en3 else Exit 1) = Running op en"
    using assms(2) by (auto simp: main_dpi_def p rbind_Inr_iff)
  obtain rm where rm: "en_rule_manager en1 = Some rm" using initialize_rules [OF init] by blast
  obtain rm0 addrs where r: "map parseIPv4Address (op_block_ips op') = map Inr addrs"
    "en2 = en1\<lparr>en_rule_manager := Some (with_option_rules addrs op' rm0)\<rparr>"
    using apply_rules_effect [OF rules rm] by blast
  from run have ok: "ok" "op = op'" "en = en3" by (auto split: if_splits)
  have "creates output" using start ok(1) by (cases "creates output") (auto simp: processFile_def r(2))
  then have "launch (op_config op') files (with_option_rules addrs op' rm0) now (captures input) = Inr en"
    using start ok by (simp add: launch_def init r(2))
  then show ?thesis using r(1) ok(2) op'_def by blast
qed

text \<open>
  C21. The command line means what its help says: options given in any order, each with its value, are
  read as given, and when the program runs, the engine is the one these options configure, started on
  the input file, with every address, application and domain that is to be blocked blocked by its rules.
\<close>

theorem command_line_rules_in_force:
  assumes "list_all small_option xs"
    and "main_dpi now files captures creates (prog # input # output # concat (map option_args xs)) = Inr (Running op en)"
  shows "\<exists>rm. launch (op_config op) files rm now (captures input) = Inr en \<and>
    op = fold set_option xs default_options \<and>
    (\<forall>a. OBlockIP (ipv4ToString a) \<in> set xs \<longrightarrow> isIPBlocked rm a) \<and>
    (\<forall>app. OBlockApp (appTypeToString app) \<in> set xs \<and> app \<noteq> APP_COUNT \<longrightarrow> isAppBlocked rm app) \<and>
    (\<forall>d. OBlockDomain d \<in> set xs \<and> d \<noteq> [] \<and> CHR ''*'' \<notin> set (normalize_rule d) \<longrightarrow> isDomainBlocked rm d)"
proof -
  obtain rm0 addrs where op: "op = fold set_option xs default_options"
    and a: "map parseIPv4Address (op_block_ips op) = map Inr addrs"
    and l: "launch (op_config op) files (with_option_rules addrs op rm0) now (captures input) = Inr en"
    using main_runs [OF assms] by blast
  note v = option_values [OF op] and b = with_option_rules_block [OF a]
  show ?thesis
    using l op v(1) [THEN b(1)] v(2) [THEN b(2)] v(3) [THEN b(3)] parse_ipv4ToString app_by_name_appTypeToString
    by (intro exI [of _ "with_option_rules addrs op rm0"]) blast
qed

lemma launch_initialize: "launch config files rm now input = Inr en \<Longrightarrow> \<exists>en. initialize files (new_engine config) = Inr en"
  by (auto simp: launch_def rbind_Inr_iff)

lemma command_line_rules_in_force_witness:
  "\<exists>op en rm. main_dpi 0 (\<lambda>_. None) (\<lambda>_. sample_capture 1) (\<lambda>_. True)
      (''dpi'' # ''in'' # ''out'' # concat (map option_args [OParsers 1, OBlockIP (ipv4ToString 7), OLbs 1, OFps 1,
         OBlockDomain ''a.io''])) = Inr (Running op en) \<and>
    launch (one_lane 1 10000) (\<lambda>_. None) rm 0 (sample_capture 1) = Inr en \<and>
    isIPBlocked rm 7 \<and> isDomainBlocked rm ''a.io''"
proof -
  let ?xs = "[OParsers 1, OBlockIP (ipv4ToString 7), OLbs 1, OFps 1, OBlockDomain ''a.io'']"
  define op where "op = fold set_option ?xs default_options"
  have op: "op_config op = one_lane 1 10000" "op_rules_file op = []" "op_block_ips op = [ipv4ToString 7]"
    "op_block_apps op = []" "op_block_domains op = [''a.io'']"
    by (simp_all add: op_def default_options_def default_config_def on_config_def one_lane_def)
  have small: "list_all small_option ?xs" by simp
  note p = parse_options_args [OF small, of default_options, folded op_def]
  obtain en where en: "initialize (\<lambda>_. None) (new_engine (one_lane 1 10000)) = Inr en"
    using launch_one_lane launch_initialize by meson
  then obtain rm where "en_rule_manager en = Some rm" using initialize_rules by blast
  then have "apply_rules (\<lambda>_. None) op en = Inr (en\<lparr>en_rule_manager := Some (blockDomain ''a.io'' (blockIP 7 rm))\<rparr>)"
    by (simp add: apply_rules_def op en_blockIP_def try_rules_def blockIP_text_def parse_ipv4ToString
        en_blockDomain_def with_rules_def)
  with en obtain en3 where run: "main_dpi 0 (\<lambda>_. None) (\<lambda>_. sample_capture 1) (\<lambda>_. True)
      (''dpi'' # ''in'' # ''out'' # concat (map option_args ?xs)) = Inr (Running op en3)"
    by (simp add: main_dpi_def p op(1) processFile_def del: option_args.simps list.map concat.simps One_nat_def)
  have "CHR ''*'' \<notin> set (normalize_rule ''a.io'')" by (simp add: normalize_rule_def Let_def to_lower_def)
  then show ?thesis
    using command_line_rules_in_force [OF small run] run unfolding op(1) by fastforce
qed

section \<open>No workers\<close>

lemma zero_lane_faults:
  assumes "num_load_balancers config = int 0" and "fps_per_lb config = int F" and "0 < queue_size config"
    and "launch config files rm now input = Inr en"
    and "left_to_read le (Rd_Open input) = rj # rest" and "job_of le rj = Inr (Some job)"
  shows "\<exists>en'. e_run le sh en en' \<and> en_fault en' = Some DivisionByZero"
proof -
  obtain reader where open_: "pcap_open le input closed_reader = (True, reader)"
    and jobs: "raw_jobs (read_packets le reader) = rj # rest"
    using assms(5) by (auto split: prod.splits if_splits)
  note en = launch_state [OF assms(1,2,4)]
  have "\<exists>en1. schedule le sh [T_Reader, T_Reader, T_Reader] en = Some en1 \<and> en_fault en1 = None \<and> en_lbs en1 = [] \<and>
      en_parsers en1 = fresh_parsers (num_parser_workers config) \<and> tq_items (en_raw_packet_queue en1) = [rj]"
    using assms(3) open_ jobs
    by (simp add: en thread_step_def new_engine_def reader_step_def writeOutputHeader_def new_queue_def tsq_push_def
        fresh_lbs_def standard_lbs_def)
  then obtain en1 where run: "e_run le sh en en1" and en1: "en_fault en1 = None" "en_lbs en1 = []"
    "en_parsers en1 = fresh_parsers (num_parser_workers config)" "tq_items (en_raw_packet_queue en1) = [rj]"
    using schedule_run by blast
  have "pw_pc (en_parsers en1 ! 0) = PW_Pop" and len: "0 < length (en_parsers en1)"
    using fresh_parser [of 0] fresh_parsers_nonempty by (simp_all add: en1(3))
  then have "parser_step le sh 0 en1 = Inl DivisionByZero"
    using assms(6) by (simp add: parser_step_def pw_take_def tsq_popWithTimeout_def take_front_def en1(2,4) getLBForPacket_def)
  then have "e_step le sh en1 (en1\<lparr>en_fault := Some DivisionByZero\<rparr>)" by (rule e_step.parser_fault [OF en1(1) len])
  then show ?thesis using run by (intro exI [of _ "en1\<lparr>en_fault := Some DivisionByZero\<rparr>"]) simp
qed

text \<open>
  The numbers of threads are not checked: with \<open>--lbs 0\<close> the program starts, and the first packet
  its parser accepts makes it divide by zero.
\<close>

theorem zero_load_balancers_fault:
  assumes "main_dpi now files captures creates [prog, input, output, ''--lbs'', ''0''] = Inr (Running op en)"
    and "left_to_read le (Rd_Open (captures input)) = rj # rest" and "job_of le rj = Inr (Some job)"
  shows "\<exists>en'. e_run le sh en en' \<and> en_fault en' = Some DivisionByZero"
proof -
  have args: "concat (map option_args [OLbs 0]) = [''--lbs'', ''0'']" by code_simp
  have run: "main_dpi now files captures creates (prog # input # output # concat (map option_args [OLbs 0])) =
      Inr (Running op en)"
    unfolding args by (rule assms(1))
  have "op = fold set_option [OLbs 0] default_options" and
    l: "\<exists>rm. launch (op_config op) files rm now (captures input) = Inr en"
    using main_runs [OF _ run] by auto
  then have "num_load_balancers (op_config op) = int 0" "fps_per_lb (op_config op) = int 2" "0 < queue_size (op_config op)"
    by (simp_all add: default_options_def default_config_def on_config_def)
  from zero_lane_faults [OF this _ assms(2,3)] l show ?thesis by blast
qed

lemma zero_load_balancers_fault_witness:
  "\<exists>op en en'. main_dpi 0 (\<lambda>_. None) (\<lambda>_. sample_capture 1) (\<lambda>_. True) [''dpi'', ''in'', ''out'', ''--lbs'', ''0''] =
      Inr (Running op en) \<and> e_run True sample_hash en en' \<and> en_fault en' = Some DivisionByZero"
proof -
  have zero: "stoi ''0'' = Inr 0" by code_simp
  have "new_lb_manager 0 2 [] = Inr (standard_lbs 0 2)" using new_lb_manager_standard [of 0 2] by simp
  then have "\<exists>op en. main_dpi 0 (\<lambda>_. None) (\<lambda>_. sample_capture 1) (\<lambda>_. True) [''dpi'', ''in'', ''out'', ''--lbs'', ''0''] =
      Inr (Running op en)"
    using new_fp_manager_nat [of 0]
    by (simp add: main_dpi_def zero initialize_def new_engine_def Let_def
        default_options_def default_config_def on_config_def apply_rules_def processFile_def)
  then obtain op en where run: "main_dpi 0 (\<lambda>_. None) (\<lambda>_. sample_capture 1) (\<lambda>_. True)
      [''dpi'', ''in'', ''out'', ''--lbs'', ''0''] = Inr (Running op en)" by blast
  obtain reader job where "pcap_open True (sample_capture 1) closed_reader = (True, reader)"
    "raw_jobs (read_packets True reader) = [sample_raw 0]" "job_of True (sample_raw 0) = Inr (Some job)"
    using sample_capture_read [of 1] bare_job [of 0] by auto
  then have "left_to_read True (Rd_Open (sample_capture 1)) = [sample_raw 0]" "job_of True (sample_raw 0) = Inr (Some job)"
    by simp_all
  from zero_load_balancers_fault [OF run this, of sample_hash] run show ?thesis by blast
qed

end
