(* ===== verification/Profiling.thy ===== *)
theory Profiling
  imports Report "HOL-Library.Multiset"
begin

text \<open>
  The profiler of \<open>include/profiler.h\<close> and \<open>src/profiler.cpp\<close>: counters that the stages of the pipeline add
  times to, and the report on them. The counters have no effect on packets; the threads' models leave them
  out. Times come from the clock and are arguments; texts printed from a \<open>double\<close> are parameters.
\<close>

section \<open>The counters\<close>

record Profiler =
  reader_gen_raw_ns :: u64
  reader_parse_ns :: u64
  reader_job_create_ns :: u64
  reader_lb_lookup_ns :: u64
  reader_push_wait_ns :: u64
  lb_pop_lock_ns :: u64
  lb_idle_ns :: u64
  lb_select_fp_ns :: u64
  lb_push_wait_ns :: u64
  fp_pop_lock_ns :: u64
  fp_idle_ns :: u64
  fp_conn_lookup_ns :: u64
  fp_rule_check_ns :: u64
  fp_inspect_ns :: u64
  fp_handle_action_ns :: u64
  output_pop_lock_ns :: u64
  output_idle_ns :: u64
  output_write_ns :: u64
  reader_packets :: u64
  lb_packets :: u64
  fp_packets :: u64
  output_packets :: u64
  total_wall_time_ns :: u64

definition new_profiler :: Profiler where
  "new_profiler =
     \<lparr>reader_gen_raw_ns = 0, reader_parse_ns = 0, reader_job_create_ns = 0, reader_lb_lookup_ns = 0,
      reader_push_wait_ns = 0, lb_pop_lock_ns = 0, lb_idle_ns = 0, lb_select_fp_ns = 0, lb_push_wait_ns = 0,
      fp_pop_lock_ns = 0, fp_idle_ns = 0, fp_conn_lookup_ns = 0, fp_rule_check_ns = 0, fp_inspect_ns = 0,
      fp_handle_action_ns = 0, output_pop_lock_ns = 0, output_idle_ns = 0, output_write_ns = 0,
      reader_packets = 0, lb_packets = 0, fp_packets = 0, output_packets = 0, total_wall_time_ns = 0\<rparr>"

definition profiler_reset :: "Profiler \<Rightarrow> Profiler" where
  "profiler_reset p =
     p\<lparr>reader_gen_raw_ns := 0, reader_parse_ns := 0, reader_job_create_ns := 0, reader_lb_lookup_ns := 0,
       reader_push_wait_ns := 0, lb_pop_lock_ns := 0, lb_idle_ns := 0, lb_select_fp_ns := 0,
       lb_push_wait_ns := 0, fp_pop_lock_ns := 0, fp_idle_ns := 0, fp_conn_lookup_ns := 0,
       fp_rule_check_ns := 0, fp_inspect_ns := 0, fp_handle_action_ns := 0, output_pop_lock_ns := 0,
       output_idle_ns := 0, output_write_ns := 0, reader_packets := 0, lb_packets := 0, fp_packets := 0,
       output_packets := 0, total_wall_time_ns := 0\<rparr>"

text \<open>
  The destructor of \<open>ScopedNsTimer\<close>, begun at \<open>t0\<close> and ended at \<open>t1\<close>: the difference, converted to the
  unsigned type, is added to the counter. The clock need not be monotonic.
\<close>

definition timer_end :: "int \<Rightarrow> int \<Rightarrow> u64 \<Rightarrow> u64" where
  "timer_end t0 t1 acc = acc + word_of_int (t1 - t0)"

section \<open>The report\<close>

text \<open>
  How a \<open>double\<close> is printed with a number of digits after the point: nanoseconds as seconds and as
  milliseconds, packets per second, and a share as a percentage, where \<open>None\<close> is the constant \<open>0.0\<close>.
\<close>

record DoubleText =
  seconds_text :: "nat \<Rightarrow> u64 \<Rightarrow> string"
  ms_text :: "nat \<Rightarrow> u64 \<Rightarrow> string"
  rate_text :: "nat \<Rightarrow> u64 \<Rightarrow> u64 \<Rightarrow> string"
  percent_text :: "nat \<Rightarrow> (u64 \<times> u64) option \<Rightarrow> string"

definition time_line :: "DoubleText \<Rightarrow> string \<Rightarrow> u64 \<Rightarrow> u64 \<Rightarrow> string" where
  "time_line dt name ns ref_ns =
     ''  - '' @ setw_left 32 name @ setw 10 (ms_text dt 2 ns) @ '' ms ('' @
     setw 6 (percent_text dt 2 (if 0 < ref_ns then Some (ns, ref_ns) else None)) @ put_line ''%)''"

definition ms_line :: "DoubleText \<Rightarrow> nat \<Rightarrow> string \<Rightarrow> u64 \<Rightarrow> string" where
  "ms_line dt digits label ns = label @ ms_text dt digits ns @ put_line '' ms''"

definition reader_active_total :: "Profiler \<Rightarrow> u64" where
  "reader_active_total p = reader_gen_raw_ns p + reader_parse_ns p + reader_job_create_ns p + reader_lb_lookup_ns p +
     reader_push_wait_ns p"

definition lb_active_total :: "Profiler \<Rightarrow> u64" where
  "lb_active_total p = lb_pop_lock_ns p + lb_select_fp_ns p + lb_push_wait_ns p"

definition fp_active_total :: "Profiler \<Rightarrow> u64" where
  "fp_active_total p = fp_pop_lock_ns p + fp_conn_lookup_ns p + fp_rule_check_ns p + fp_inspect_ns p +
     fp_handle_action_ns p"

definition out_active_total :: "Profiler \<Rightarrow> u64" where
  "out_active_total p = output_pop_lock_ns p + output_write_ns p"

text \<open>The precision set for one number stays in force for the next ones.\<close>

definition printReport :: "DoubleText \<Rightarrow> int \<Rightarrow> Profiler \<Rightarrow> string" where
  "printReport dt workers p =
     (let wall = total_wall_time_ns p; pkts = reader_packets p; digits = (if 0 < wall then 0 else 4);
          workers_text = (if workers < 0 then ''-'' else []) @ to_string (nat \<bar>workers\<bar>);
          rule = put_line (replicate 51 (CHR ''=''))
      in put_line [] @ rule @
      put_line (''     PHASE 3.1 PIPELINE PROFILING REPORT ('' @ workers_text @ '' FP Workers)'') @
      rule @
      put_line (''Total Packets Processed: '' @ to_string (unat pkts)) @
      put_line (''Total Wall-Clock Time:   '' @ seconds_text dt 4 wall @ '' s'') @
      (if 0 < wall then put_line (''Throughput:              '' @ rate_text dt 0 pkts wall @ '' pkts/sec'') else []) @
      put_line [] @ put_line ''--- 1. READER THREAD BREAKDOWN (Sequential Upstream) ---'' @
      ms_line dt digits ''Total Reader Thread Active Time: '' (reader_active_total p) @
      time_line dt ''Raw Packet Input / Generation'' (reader_gen_raw_ns p) (reader_active_total p) @
      time_line dt ''PacketParser::parse()'' (reader_parse_ns p) (reader_active_total p) @
      time_line dt ''createPacketJob()'' (reader_job_create_ns p) (reader_active_total p) @
      time_line dt ''getLBForPacket()'' (reader_lb_lookup_ns p) (reader_active_total p) @
      time_line dt ''Queue Push Wait (LB queue full)'' (reader_push_wait_ns p) (reader_active_total p) @
      put_line [] @ put_line ''--- 2. LOAD BALANCER THREAD BREAKDOWN ---'' @
      ms_line dt 2 ''Total LB Thread Active CPU Time: '' (lb_active_total p) @
      time_line dt ''Queue Lock Acquisition'' (lb_pop_lock_ns p) (lb_active_total p) @
      time_line dt ''selectFP() & Dispatch'' (lb_select_fp_ns p) (lb_active_total p) @
      time_line dt ''FP Queue Push Wait'' (lb_push_wait_ns p) (lb_active_total p) @
      ms_line dt 2 ''  - Idle / Waiting for Reader:     '' (lb_idle_ns p) @
      put_line [] @
      put_line (''--- 3. FASTPATH WORKER THREADS BREAKDOWN (Aggregated across '' @ workers_text @ '' workers) ---'') @
      ms_line dt 2 ''Total FP Workers Active CPU Time: '' (fp_active_total p) @
      time_line dt ''Queue Lock Acquisition'' (fp_pop_lock_ns p) (fp_active_total p) @
      time_line dt ''Connection Tracker Lookup/Update'' (fp_conn_lookup_ns p) (fp_active_total p) @
      time_line dt ''Rule Manager Checks'' (fp_rule_check_ns p) (fp_active_total p) @
      time_line dt ''Payload Inspection / Reassembly'' (fp_inspect_ns p) (fp_active_total p) @
      time_line dt ''Action Handling & Output Push'' (fp_handle_action_ns p) (fp_active_total p) @
      ms_line dt 2 ''  - Total FP Idle Time (Waiting):  '' (fp_idle_ns p) @
      put_line [] @ put_line ''--- 4. OUTPUT WRITER THREAD BREAKDOWN ---'' @
      ms_line dt 2 ''Total Output Thread Active Time:  '' (out_active_total p) @
      time_line dt ''Queue Lock Acquisition'' (output_pop_lock_ns p) (out_active_total p) @
      time_line dt ''writeOutputPacket() / I/O'' (output_write_ns p) (out_active_total p) @
      ms_line dt 2 ''  - Total Output Idle Time:        '' (output_idle_ns p) @
      put_line [] @ put_line ''--- 5. SYNCHRONIZATION & QUEUE SUMMARY ---'' @
      ms_line dt 2 ''Total Mutex Lock Acquisition Time: '' (lb_pop_lock_ns p + fp_pop_lock_ns p + output_pop_lock_ns p) @
      ms_line dt 2 ''Total Queue Backpressure Wait Time: '' (reader_push_wait_ns p + lb_push_wait_ns p) @
      rule @ put_line [])"

section \<open>What the counters hold\<close>

text \<open>
  The timers of all threads add to a counter atomically: in whatever order they end, it holds the sum of
  their times, modulo \<open>2 ^ 64\<close>.
\<close>

lemma timers_sum: "fold (\<lambda>(t0, t1). timer_end t0 t1) ts acc = acc + word_of_int (sum_list (map (\<lambda>(t0, t1). t1 - t0) ts))"
  by (induction ts arbitrary: acc) (auto simp: timer_end_def of_int_add add.assoc)

lemma timers_any_order:
  assumes "mset ts = mset us"
  shows "fold (\<lambda>(t0, t1). timer_end t0 t1) ts acc = fold (\<lambda>(t0, t1). timer_end t0 t1) us acc"
  using assms by (simp add: timers_sum) (metis mset_map sum_mset_sum_list)

lemma reset_forgets: "profiler_reset p = new_profiler"
  by (simp add: profiler_reset_def new_profiler_def)

text \<open>After a reset no share is computed: the report prints \<open>0.0\<close> and never divides by zero.\<close>

lemma empty_totals:
  "reader_active_total (profiler_reset p) = 0" "lb_active_total (profiler_reset p) = 0"
  "fp_active_total (profiler_reset p) = 0" "out_active_total (profiler_reset p) = 0"
  by (simp_all add: reset_forgets new_profiler_def reader_active_total_def lb_active_total_def fp_active_total_def
      out_active_total_def)

end
