(* ===== verification/Flow_Order.thy ===== *)
theory Flow_Order
  imports Shutdown "HOL-Library.Sublist"
begin

text \<open>
  The order of packets through the engine of \<open>src/dpi_engine.cpp\<close> when it has one parser worker: under
  every interleaving of the threads each fast path sees its packets in the order of the capture, so the
  threads refine the program that deals the packets of the file out one after the other.
\<close>

section \<open>The packets on their way to a fast path\<close>

text \<open>
  The part of a list that belongs to fast path \<open>i\<close>; what a fast path has decided and still has queued; what
  its load balancer holds; what the parsers hold, the raw queue and the reader.
\<close>

definition own :: "std_hash \<Rightarrow> nat \<Rightarrow> nat \<Rightarrow> nat \<Rightarrow> PacketJob list \<Rightarrow> PacketJob list" where
  "own sh L F i = filter (\<lambda>job. route sh L F (pj_tuple job) = i)"

definition fp_seq :: "FastPath \<Rightarrow> PacketJob list" where
  "fp_seq fp = map fst (fp_output fp) @ tq_items (fp_input_queue fp)"

definition lb_seq :: "LoadBalancer \<Rightarrow> PacketJob list" where
  "lb_seq lb = lb_in_hand (lb_pc lb) @ tq_items (lb_input_queue lb)"

definition feed :: "bool \<Rightarrow> Engine \<Rightarrow> PacketJob list" where
  "feed le en = concat (map (\<lambda>w. in_hand (pw_pc w)) (en_parsers en)) @
     jobs le (tq_items (en_raw_packet_queue en)) @ jobs le (left_to_read le (en_reader_pc en))"

definition path :: "bool \<Rightarrow> std_hash \<Rightarrow> nat \<Rightarrow> nat \<Rightarrow> nat \<Rightarrow> Engine \<Rightarrow> PacketJob list" where
  "path le sh L F i en =
     fp_seq (en_fps en ! i) @ own sh L F i (lb_seq (en_lbs en ! (i div F))) @ own sh L F i (feed le en)"

definition in_order :: "bool \<Rightarrow> std_hash \<Rightarrow> nat \<Rightarrow> nat \<Rightarrow> PacketJob list \<Rightarrow> Engine \<Rightarrow> bool" where
  "in_order le sh L F J en \<longleftrightarrow> length (en_parsers en) = 1 \<and> (\<forall>i < L * F. path le sh L F i en = own sh L F i J)"

lemma own_simps [simp]:
  "own sh L F i [] = []" "own sh L F i (xs @ ys) = own sh L F i xs @ own sh L F i ys"
  "own sh L F i (job # xs) = (if route sh L F (pj_tuple job) = i then [job] else []) @ own sh L F i xs"
  by (simp_all add: own_def)

lemma route_div: "0 < F \<Longrightarrow> route sh L F (pj_tuple job) div F = hash_of sh job mod L"
  by (simp add: route_def hash_of_def Let_def)

lemma index_div: "i < L * F \<Longrightarrow> i div F < (L :: nat)"
  by (simp add: less_mult_imp_div_less)

lemma same_order:
  assumes "in_order le sh L F J en" and "en_parsers en' = en_parsers en" "en_lbs en' = en_lbs en"
    "en_fps en' = en_fps en" "en_raw_packet_queue en' = en_raw_packet_queue en" "en_reader_pc en' = en_reader_pc en"
  shows "in_order le sh L F J en'"
  using assms by (simp add: in_order_def path_def feed_def)

section \<open>Every step keeps the order\<close>

lemma reader_order:
  assumes "in_order le sh L F J en" and "pipeline_inv le sh L F M en" and "reader_step le en = Some en'"
  shows "in_order le sh L F J en'"
proof -
  have "en_reader_pc en \<noteq> Rd_Done" using assms(3) by (auto simp: reader_step_def)
  then have up: "\<not> tq_shutdown (en_raw_packet_queue en)"
    using assms(2) by (auto simp: pipeline_inv_def upstream_def split: if_splits)
  have same: "en_parsers en' = en_parsers en" "en_lbs en' = en_lbs en" "en_fps en' = en_fps en"
    using assms(3)
    by (auto simp: reader_step_def writeOutputHeader_def split: reader_pc.splits list.splits option.splits prod.splits bool.splits)
  have "jobs le (tq_items (en_raw_packet_queue en')) @ jobs le (left_to_read le (en_reader_pc en')) =
      jobs le (tq_items (en_raw_packet_queue en)) @ jobs le (left_to_read le (en_reader_pc en))"
  proof (cases "en_reader_pc en")
    case (Rd_Open content)
    then show ?thesis
      using assms(3)
      by (auto simp: reader_step_def writeOutputHeader_def split: option.splits prod.splits bool.splits)
  next
    case (Rd_Loop rjs)
    then show ?thesis using assms(3) by (cases rjs) (auto simp: reader_step_def)
  next
    case (Rd_Push rj rjs)
    then obtain ok q where "tsq_push rj (en_raw_packet_queue en) = Some (ok, q)"
      and "en' = en\<lparr>en_raw_packet_queue := q, en_reader_pc := Rd_Loop rjs\<rparr>"
      using assms(3) by (auto simp: reader_step_def split: option.splits)
    then show ?thesis using push_open up Rd_Push by fastforce
  qed (use assms(3) in \<open>simp add: reader_step_def\<close>)
  then have "feed le en' = feed le en" by (simp add: feed_def same)
  then show ?thesis using assms(1) by (simp add: in_order_def path_def same)
qed

lemma parser_order:
  assumes "in_order le sh L F J en" and "pipeline_inv le sh L F M en" and "i < length (en_parsers en)"
    and "parser_step le sh i en = Inr (Some en')"
  shows "in_order le sh L F J en'"
proof -
  note parts = assms(2) [unfolded pipeline_inv_def]
  obtain p where p: "en_parsers en = [p]" using assms(1) by (auto simp: in_order_def length_Suc_conv)
  then have i: "i = 0" using assms(3) by simp
  show ?thesis
  proof (cases "pw_pc p")
    case PW_Pop
    then obtain w q where take: "pw_take le (getLBForPacket sh (en_lbs en)) p (en_raw_packet_queue en) = Inr (w, q)"
      and en': "en' = en\<lparr>en_parsers := [w], en_raw_packet_queue := q\<rparr>"
      using assms(4) by (auto simp: parser_step_def p i rbind_Inr_iff)
    have "in_hand (pw_pc w) @ jobs le (tq_items q) = jobs le (tq_items (en_raw_packet_queue en))"
      using PW_Pop by (cases rule: pw_take_cases [OF take]) auto
    then have "feed le en' = feed le en" by (simp add: feed_def en' p PW_Pop)
    then show ?thesis using assms(1) by (simp add: in_order_def path_def en')
  next
    case (PW_Push l job)
    then obtain w q where put: "pw_put job p (lb_input_queue (en_lbs en ! l)) = Some (w, q)"
      and en': "en' = en\<lparr>en_parsers := [w], en_lbs := (en_lbs en)[l := (en_lbs en ! l)\<lparr>lb_input_queue := q\<rparr>]\<rparr>"
      using assms(4) by (auto simp: parser_step_def p i split: option.splits)
    have l: "l = hash_of sh job mod L" and F: "0 < F" and len: "length (en_lbs en) = L" "l < L"
      using parts PW_Push by (auto simp: routed_def p wired_def)
    have st: "stage (en_main_pc en) < 3"
    proof (rule ccontr)
      assume "\<not> stage (en_main_pc en) < 3"
      then have "over 1 (en_main_pc en) 0" by (simp add: over_def)
      then show False using parts PW_Push by (auto simp: upstream_def p)
    qed
    then have "\<not> tq_shutdown (lb_input_queue (en_lbs en ! l))" using parts len by (auto simp: midstream_def)
    note q = pw_put_effect(1) [OF put] pw_put_effect(3) [OF put this]
    have "path le sh L F j en' = path le sh L F j en" for j
      using l route_div [OF F, of sh L job] len q
      by (cases "j div F = l") (auto simp: path_def en' feed_def p PW_Push lb_seq_def)
    then show ?thesis using assms(1) by (simp add: in_order_def en')
  qed (use assms(4) in \<open>simp add: parser_step_def p i\<close>)
qed

lemma lb_order:
  assumes "in_order le sh L F J en" and "pipeline_inv le sh L F M en" and "i < length (en_lbs en)"
    and "lb_step sh i en = Inr (Some en')"
  shows "in_order le sh L F J en'"
proof -
  note parts = assms(2) [unfolded pipeline_inv_def]
  have len: "length (en_lbs en) = L" "length (en_fps en) = L * F" "i < L" "0 < F" "0 < L"
    using parts assms(3) by (simp_all add: wired_def)
  show ?thesis
  proof (cases "lb_pc (en_lbs en ! i)")
    case At_Pop
    then obtain lb where take: "lb_take sh (en_lbs en ! i) = Inr lb" and en': "en' = en\<lparr>en_lbs := (en_lbs en)[i := lb]\<rparr>"
      using assms(4) by (auto simp: lb_step_def rbind_Inr_iff)
    have "lb_seq lb = lb_seq (en_lbs en ! i)"
      using At_Pop by (cases rule: lb_take_cases [OF take]) (auto simp: lb_seq_def)
    then have "path le sh L F j en' = path le sh L F j en" for j
      using assms(3) by (cases "j div F = i") (simp_all add: path_def en' feed_def)
    then show ?thesis using assms(1) by (simp add: in_order_def en')
  next
    case (At_Push fp_index job)
    define f where "f = lb_fp_queues (en_lbs en ! i) ! fp_index"
    obtain lb q where put: "lb_put fp_index job (en_lbs en ! i) (fp_input_queue (en_fps en ! f)) = Some (lb, q)"
      and en': "en' = en\<lparr>en_lbs := (en_lbs en)[i := lb], en_fps := (en_fps en)[f := (en_fps en ! f)\<lparr>fp_input_queue := q\<rparr>]\<rparr>"
      using assms(4) At_Push by (auto simp: lb_step_def Let_def f_def split: option.splits)
    have h: "hash_of sh job mod L = i" "fp_index = hash_of sh job mod F" "lb_fp_queues (en_lbs en ! i) = [i * F..<i * F + F]"
      using parts At_Push len by (auto simp: routed_def wired_def)
    then have f: "route sh L F (pj_tuple job) = f"
      using len by (simp add: f_def route_def hash_of_def Let_def)
    then have f': "f < L * F" "f div F = i"
      using route_less [OF len(5,4), of sh "pj_tuple job"] route_div [OF len(4), of sh L job] h(1) by simp_all
    have st: "stage (en_main_pc en) < 4"
    proof (rule ccontr)
      assume "\<not> stage (en_main_pc en) < 4"
      then have "over 3 (en_main_pc en) i" by (simp add: over_def)
      then show False using parts assms(3) At_Push by (auto simp: midstream_def)
    qed
    then have "\<not> tq_shutdown (fp_input_queue (en_fps en ! f))" using parts f' len by (auto simp: downstream_def)
    note q = lb_put_effect(6) [OF put this] and w = lb_put_effect(1,3) [OF put]
    have "path le sh L F j en' = path le sh L F j en" for j
    proof (cases "j = f")
      case True
      then show ?thesis
        using f' len q w At_Push f by (simp add: path_def en' feed_def lb_seq_def fp_seq_def)
    next
      case False
      then have "own sh L F j (lb_seq ((en_lbs en)[i := lb] ! (j div F))) = own sh L F j (lb_seq (en_lbs en ! (j div F)))"
        using f w At_Push len by (cases "j div F = i") (simp_all add: lb_seq_def)
      then show ?thesis using False by (simp add: path_def en' feed_def)
    qed
    then show ?thesis using assms(1) by (simp add: in_order_def en')
  qed (use assms(4) in \<open>simp add: lb_step_def\<close>)
qed

lemma fp_order:
  assumes "in_order le sh L F J en" and "pipeline_inv le sh L F M en" and "i < length (en_fps en)"
    and "fp_step now i en = Inr (Some en')"
  shows "in_order le sh L F J en'"
proof (cases "en_fp_pcs en ! i")
  case (FP_Loop t)
  then obtain rm go_on fp t' where r: "fp_round now rm (en_fps en ! i, t) = Inr (go_on, fp, t')"
    and en': "en' = fp_publish i (go_on, fp, t') en"
    using assms(4) by (auto simp: fp_step_def rbind_Inr_iff split: option.splits)
  have acc: "accounted (en_fps en ! i)" using assms(2,3) by (auto simp: pipeline_inv_def downstream_def)
  have "fp_seq fp = fp_seq (en_fps en ! i)"
    by (cases rule: fp_round_calls [OF acc r]) (auto simp: fp_seq_def)
  moreover have "en_fps en' = (en_fps en)[i := fp]" "en_raw_packet_queue en' = en_raw_packet_queue en"
    "en_parsers en' = en_parsers en" "en_lbs en' = en_lbs en" "en_reader_pc en' = en_reader_pc en"
    by (simp_all add: en' fp_publish_def Let_def split: list.split prod.split)
  ultimately have "path le sh L F j en' = path le sh L F j en" for j
    using assms(3) by (cases "j = i") (simp_all add: path_def feed_def)
  then show ?thesis using assms(1) \<open>en_parsers en' = en_parsers en\<close> by (simp add: in_order_def)
next
  case (FP_Output job t)
  then show ?thesis
    using assms(4) by (intro same_order [OF assms(1)]) (auto simp: fp_step_def split: option.splits)
qed (use assms(4) in \<open>simp add: fp_step_def\<close>)

lemma main_order:
  assumes "in_order le sh L F J en" and "main_step en = Some en'"
  shows "in_order le sh L F J en'"
proof -
  have "length (en_parsers en') = length (en_parsers en)" "map (\<lambda>w. in_hand (pw_pc w)) (en_parsers en') =
      map (\<lambda>w. in_hand (pw_pc w)) (en_parsers en)"
    "en_reader_pc en' = en_reader_pc en" "tq_items (en_raw_packet_queue en') = tq_items (en_raw_packet_queue en)"
    using assms(2) by (auto simp: main_step_def map_update_same split: main_pc.splits if_splits)
  moreover have "lb_seq (en_lbs en' ! j) = lb_seq (en_lbs en ! j)" "fp_seq (en_fps en' ! j) = fp_seq (en_fps en ! j)" for j
    using assms(2) by (auto simp: main_step_def lb_seq_def fp_seq_def split: main_pc.splits if_splits)
  ultimately show ?thesis using assms(1) by (simp add: in_order_def path_def feed_def)
qed

lemma step_order:
  assumes "e_step le sh en en'" and "in_order le sh L F J en" and "pipeline_inv le sh L F M en"
  shows "in_order le sh L F J en'"
  using assms(1)
proof cases
  case reader then show ?thesis using reader_order assms(2,3) by blast
next
  case parser then show ?thesis using parser_order assms(2,3) by blast
next
  case lb then show ?thesis using lb_order assms(2,3) by blast
next
  case fp then show ?thesis using fp_order assms(2,3) by blast
next
  case writer
  then show ?thesis
    by (intro same_order [OF assms(2)])
      (auto simp: output_step_def writeOutputPacket_def Let_def split: output_pc.splits option.splits prod.splits)
next
  case main then show ?thesis using main_order assms(2) by blast
qed (auto intro: same_order [OF assms(2)])

lemma run_order:
  assumes "e_run le sh en en'" and "in_order le sh L F J en" and "pipeline_inv le sh L F M en"
  shows "in_order le sh L F J en'"
proof -
  have "in_order le sh L F J en' \<and> pipeline_inv le sh L F M en'"
    using assms
  proof (induction)
    case (step en1 en2)
    then show ?case using step_order [OF step.hyps(2)] step_inv [OF step.hyps(2)] by blast
  qed simp
  then show ?thesis by simp
qed

section \<open>One parser worker\<close>

lemma launch_order:
  assumes "num_load_balancers config = int L" and "fps_per_lb config = int F" and "num_parser_workers config \<le> 1"
    and "launch config files rm now input = Inr en"
  shows "in_order le sh L F (file_jobs le input) en"
proof -
  note en = launch_state [OF assms(1,2,4)]
  have one: "length (fresh_parsers (num_parser_workers config)) = 1"
    using assms(3) by (simp add: fresh_parsers_def pm_startAll_def new_parser_manager_def Let_def)
  then have "map (\<lambda>w. in_hand (pw_pc w)) (en_parsers en) = [[]]"
    using fresh_parser [of 0 "num_parser_workers config"] by (auto simp: en length_Suc_conv)
  then have feed: "feed le en = file_jobs le input"
    by (simp add: feed_def en new_engine_def new_queue_def file_jobs_def del: left_to_read.simps)
  have "path le sh L F i en = own sh L F i (file_jobs le input)" if "i < L * F" for i
    using that index_div [OF that] unfolding path_def feed
    by (simp add: en fresh_fps_def fresh_lbs_def standard_lbs_def fp_seq_def lb_seq_def fp_start_def new_fast_path_def
        new_queue_def lb_start_def new_load_balancer_def)
  then show ?thesis using one by (simp add: in_order_def en)
qed

text \<open>When the engine has finished, all packets are with the fast paths and decided.\<close>

lemma path_done:
  assumes "pipeline_inv le sh L F M en" and "length (en_parsers en) = 1" and "en_main_pc en = M_Done" and "i < L * F"
  shows "path le sh L F i en = map fst (fp_output (en_fps en ! i))"
proof -
  have lens: "length (en_fps en) = L * F" "length (en_lbs en) = L" using assms(1) by (simp_all add: pipeline_inv_def wired_def)
  have "tq_items (fp_input_queue (en_fps en ! i)) = []"
    using assms(1,3,4) lens by (auto simp: pipeline_inv_def downstream_def)
  moreover have "lb_seq (en_lbs en ! (i div F)) = []"
    using assms(1,3) index_div [OF assms(4)] lens by (auto simp: pipeline_inv_def midstream_def lb_seq_def)
  moreover have "feed le en = []"
    using assms(1-3) by (auto simp: pipeline_inv_def upstream_def feed_def length_Suc_conv)
  ultimately show ?thesis by (simp add: path_def fp_seq_def)
qed

lemma launched_order:
  assumes "num_load_balancers config = int L" and "fps_per_lb config = int F" and "0 < L" and "0 < F"
    and "num_parser_workers config \<le> 1"
    and "launch config files rm now input = Inr en" and "e_run le sh en en'" and "i < L * F"
  shows "path le sh L F i en' = own sh L F i (file_jobs le input)"
    and "en_main_pc en' = M_Done \<Longrightarrow> map fst (fp_output (en_fps en' ! i)) = own sh L F i (file_jobs le input)"
proof -
  note start = launch_inv [OF assms(1-4,6)]
  have inv: "pipeline_inv le sh L F (mset (file_jobs le input)) en'" by (rule run_inv [OF assms(7) start])
  have "in_order le sh L F (file_jobs le input) en'"
    by (rule run_order [OF assms(7) launch_order [OF assms(1,2,5,6)] start])
  then show p: "path le sh L F i en' = own sh L F i (file_jobs le input)" and "en_main_pc en' = M_Done \<Longrightarrow>
      map fst (fp_output (en_fps en' ! i)) = own sh L F i (file_jobs le input)"
    using assms(8) path_done [OF inv] by (simp_all add: in_order_def)
qed

text \<open>
  C3. With one parser worker the threads keep the order of the capture: at every moment of every
  interleaving, what a fast path has decided on is a prefix of the accepted packets that belong to it, in
  the order of the file, and when the engine has finished it is all of them. As both directions of a flow
  belong to one fast path, the packets of a flow are decided in order. The concurrent engine thus refines
  the sequential program that deals the packets out to the fast paths one by one.
\<close>

theorem one_parser_keeps_order:
  assumes "num_load_balancers config = int L" and "fps_per_lb config = int F" and "0 < L" and "0 < F"
    and "num_parser_workers config \<le> 1"
    and "launch config files rm now input = Inr en" and "e_run le sh en en'" and "i < L * F"
  shows "prefix (map fst (fp_output (en_fps en' ! i))) (own sh L F i (file_jobs le input)) \<and>
    (en_main_pc en' = M_Done \<longrightarrow> map fst (fp_output (en_fps en' ! i)) = own sh L F i (file_jobs le input))"
proof -
  note order = launched_order [OF assms]
  have "prefix (map fst (fp_output (en_fps en' ! i))) (path le sh L F i en')" by (simp add: path_def fp_seq_def)
  then show ?thesis using order by simp
qed

lemma one_parser_keeps_order_witness:
  "\<exists>en en' job. launch (one_lane 1 10000) (\<lambda>_. None) no_rules 0 (sample_capture 1) = Inr en \<and>
     e_run True sample_hash en en' \<and> en_main_pc en' = M_Done \<and> map fst (fp_output (en_fps en' ! 0)) = [job]"
proof -
  obtain en reader job fp' where h: "launch (one_lane 1 10000) (\<lambda>_. None) no_rules 0 (sample_capture 1) = Inr en"
    "pcap_open True (sample_capture 1) closed_reader = (True, reader)" "raw_jobs (read_packets True reader) = [sample_raw 0]"
    "job_of True (sample_raw 0) = Inr (Some job)"
    "processPacket 0 no_rules job (fp_start (new_fast_path 0)) = Inr fp'" "fp_output fp' = [(job, FORWARD)]"
    using lossy_sample by blast
  obtain en' where "schedule True sample_hash (lossy_schedule 0) en = Some en'" and done_: "en_main_pc en' = M_Done"
    using lossy_run [OF _ _ _ _ h, of sample_hash] by (auto simp: one_lane_def)
  then have run: "e_run True sample_hash en en'" by (blast intro: schedule_run)
  have "file_jobs True (sample_capture 1) = [job]" using h by (simp add: file_jobs_def jobs_def made_def)
  then have "map fst (fp_output (en_fps en' ! 0)) = [job]"
    using one_parser_keeps_order [OF _ _ _ _ _ h(1) run, where L = 1 and F = 1 and i = 0] done_ by (auto simp: one_lane_def route_def own_def)
  with h(1) run done_ show ?thesis by (intro exI conjI)
qed

end
