(* ===== verification/Flow_Spec.thy ===== *)
theory Flow_Spec
  imports Fast_Path
begin

text \<open>
  A fast path seen from one flow. \<open>flow_step\<close> says what a packet does to its connection, without any
  table; \<open>processPacket\<close> of \<open>src/fast_path.cpp\<close> refines it, and so flows that share a fast path do not
  influence each other as long as its table does not overflow. A consequence is how long a blocked flow
  stays free once it has sent an RST.
\<close>

section \<open>The specification of a flow\<close>

definition udp_flow :: "Connection \<Rightarrow> bytes \<Rightarrow> nat \<Rightarrow> (bool \<times> Connection) res" where
  "udp_flow conn payload len =
     (if fk_src_port (c_flow_key conn) = 53 \<or> fk_dst_port (c_flow_key conn) = 53 then
        rbind (extractQuery payload len) (\<lambda>result. Inr (case result of
            None \<Rightarrow> (False, conn)
          | Some r \<Rightarrow> (True, classify_fields DNS [] [] (dns_query_domain r) conn)))
      else
        rbind (isQUICInitial payload len) (\<lambda>initial.
          if \<not> initial then Inr (False, conn) else
          rbind (QUICSNIExtractor_extract payload len) (\<lambda>result. Inr (case result of
              Some sni \<Rightarrow> (True, classify_fields (sniToAppType sni) sni [] [] conn)
            | None \<Rightarrow> (True, classify_fields QUIC [] [] [] conn)))))"

definition tcp_flow :: "nat \<Rightarrow> u32 \<Rightarrow> Connection \<Rightarrow> bytes \<Rightarrow> nat \<Rightarrow> (bool \<times> Connection) res" where
  "tcp_flow now seq conn payload len =
     rbind (if fk_src_port (c_flow_key conn) = 80 \<or> fk_dst_port (c_flow_key conn) = 80 then Inr True
            else isHTTPRequest payload len) (\<lambda>http.
       if http then
         rbind (HTTPHostExtractor_extract payload len) (\<lambda>host. Inr (case host of
             Some http_host \<Rightarrow> (True, classify_fields (sniToAppType http_host) [] http_host [] conn)
           | None \<Rightarrow> (True, classify_fields HTTP [] [] [] conn)))
       else
         rbind (tryExtractSNI default_config now seq payload len (c_reassembler_client conn)) (\<lambda>(result, reassembler).
           Inr (case result of
               Some sni \<Rightarrow> (True, classify_fields (sniToAppType sni) sni [] []
                 (conn\<lparr>c_reassembler_client := ra_clear reassembler\<rparr>))
             | None \<Rightarrow> (False, conn\<lparr>c_reassembler_client := reassembler\<rparr>))))"

definition inspect_flow :: "nat \<Rightarrow> PacketJob \<Rightarrow> bool \<Rightarrow> Connection \<Rightarrow> Connection res" where
  "inspect_flow now job is_client conn =
     (case getPayload job of
        None \<Rightarrow> Inr conn
      | Some payload \<Rightarrow>
          rbind (if fk_protocol (c_flow_key conn) = 17 then udp_flow conn payload (pj_payload_length job)
                 else if fk_protocol (c_flow_key conn) = 6 \<and> is_client then
                   tcp_flow now (pj_tcp_seq_number job) conn payload (pj_payload_length job)
                 else Inr (False, conn))
            (\<lambda>(classification_updated, conn).
              Inr (if \<not> classification_updated \<and> c_packets_in conn + c_packets_out conn > 10
                   then classify_fields UNKNOWN [] [] [] conn else conn)))"

definition block_fields :: "Connection \<Rightarrow> Connection" where
  "block_fields c = c\<lparr>c_state := BLOCKED, c_action := DROP\<rparr>"

definition judge_flow :: "nat \<Rightarrow> RuleManager \<Rightarrow> PacketJob \<Rightarrow> bool \<Rightarrow> Connection \<Rightarrow> (PacketAction \<times> Connection) res" where
  "judge_flow now rm job is_client conn =
     (if c_state conn = BLOCKED then Inr (DROP, conn) else
      rbind (ip_rule_applies rm conn) (\<lambda>ip_blocked.
      if ip_blocked then Inr (DROP, block_fields conn) else
      rbind (if c_state conn = NEW \<or> c_state conn = ESTABLISHED
             then inspect_flow now job is_client conn else Inr conn) (\<lambda>conn.
      if c_state conn = CLASSIFIED \<and> class_rule_applies rm conn
      then Inr (DROP, block_fields conn) else Inr (FORWARD, conn))))"

text \<open>The action for a packet and its connection afterwards; \<open>None\<close> when the flow is new.\<close>

definition flow_step ::
  "nat \<Rightarrow> RuleManager \<Rightarrow> PacketJob \<Rightarrow> Connection option \<Rightarrow> (PacketAction \<times> Connection) res" where
  "flow_step now rm job conn_opt =
     (if \<not> pj_has_flow_key job then Inl DanglingPointer else
      rbind (case conn_opt of Some conn \<Rightarrow> Inr conn | None \<Rightarrow> new_connection now (pj_flow_key job)) (\<lambda>conn.
        let is_client = client_side (pj_flow_key job) conn
        in judge_flow now rm job is_client (packet_fields now job is_client conn)))"

text \<open>
  What happens to a fast path: packets and clean-ups, with their times. A clean-up ends a connection that is
  closed or idle.
\<close>

datatype fp_event = Decide nat PacketJob | Clean_Up nat

definition expire :: "nat \<Rightarrow> Connection option \<Rightarrow> Connection option" where
  "expire now conn_opt = Option.bind conn_opt (\<lambda>c. if should_remove now 300 c then None else Some c)"

fun flow_run :: "RuleManager \<Rightarrow> fp_event list \<Rightarrow> Connection option \<Rightarrow> (PacketAction list \<times> Connection option) res" where
  "flow_run rm [] conn_opt = Inr ([], conn_opt)"
| "flow_run rm (Decide now job # es) conn_opt =
     rbind (flow_step now rm job conn_opt) (\<lambda>(action, conn).
     rbind (flow_run rm es (Some conn)) (\<lambda>(actions, conn_opt). Inr (action # actions, conn_opt)))"
| "flow_run rm (Clean_Up now # es) conn_opt = flow_run rm es (expire now conn_opt)"

text \<open>The packets among the events, and the events that concern one flow.\<close>

fun decided :: "fp_event list \<Rightarrow> PacketJob list" where
  "decided [] = []"
| "decided (Decide now job # es) = job # decided es"
| "decided (Clean_Up now # es) = decided es"

definition of_flow :: "FlowKey \<Rightarrow> PacketJob \<Rightarrow> bool" where
  "of_flow key job \<longleftrightarrow> fk_canonical (pj_flow_key job) = fk_canonical key"

fun concerns :: "FlowKey \<Rightarrow> fp_event \<Rightarrow> bool" where
  "concerns key (Decide now job) = of_flow key job"
| "concerns key (Clean_Up now) = True"

lemma decided_append [simp]: "decided (es @ es') = decided es @ decided es'"
  by (induction es rule: decided.induct) simp_all

lemma decided_concerns: "decided (filter (concerns key) es) = filter (of_flow key) (decided es)"
  by (induction es rule: decided.induct) simp_all

section \<open>The table holds the flow\<close>

text \<open>The table is \<open>ct0\<close> with the connection of \<open>key\<close> replaced by \<open>c\<close>.\<close>

definition tracks :: "FlowKey \<Rightarrow> ConnectionTracker \<Rightarrow> ConnectionTracker \<Rightarrow> Connection \<Rightarrow> bool" where
  "tracks key ct0 ct c \<longleftrightarrow>
     (\<forall>k. getConnection ct k = (if fk_canonical k = fk_canonical key then Some c else getConnection ct0 k)) \<and>
     map fst (ct_connections ct) = map fst (ct_connections ct0) \<and> ct_max_connections ct = ct_max_connections ct0"

text \<open>Two computations that fault alike, or return related values.\<close>

abbreviation sim :: "('a \<Rightarrow> 'b \<Rightarrow> bool) \<Rightarrow> 'a res \<Rightarrow> 'b res \<Rightarrow> bool" where
  "sim \<equiv> rel_sum (=)"

lemma sim_same: "(\<And>x. sim S (f x) (g x)) \<Longrightarrow> sim S (rbind m f) (rbind m g)"
  by (cases m) auto

lemma sim_rbind: "sim R m n \<Longrightarrow> (\<And>x y. R x y \<Longrightarrow> sim S (f x) (g y)) \<Longrightarrow> sim S (rbind m f) (rbind n g)"
  by (cases m; cases n) auto

lemma tracks_get: "tracks key ct0 ct c \<Longrightarrow> getConnection ct key = Some c"
  by (simp add: tracks_def)

lemma tracks_conn_at: "tracks key ct0 ct c \<Longrightarrow> conn_at ct key = Inr c"
  by (simp add: conn_at_def tracks_get)

lemma keys_on_connection [simp]: "map fst (ct_connections (on_connection key f ct)) = map fst (ct_connections ct)"
  by (auto simp: on_connection_def)

lemma max_on_connection [simp]: "ct_max_connections (on_connection key f ct) = ct_max_connections ct"
  by (simp add: on_connection_def)

lemma tracks_upd: "tracks key ct0 ct c \<Longrightarrow> tracks key ct0 (on_connection key f ct) (f c)"
  by (auto simp: tracks_def tracker.find_upd)

lemma tracks_counts [simp]:
  "tracks key ct0 (ct\<lparr>ct_classified_count := n\<rparr>) c = tracks key ct0 ct c"
  "tracks key ct0 (ct\<lparr>ct_blocked_count := n\<rparr>) c = tracks key ct0 ct c"
  by (simp_all add: tracks_def getConnection_def)

lemma tracks_classify:
  "tracks key ct0 ct c \<Longrightarrow> tracks key ct0 (classifyConnection key app s h d ct) (classify_fields app s h d c)"
  by (simp add: classifyConnection_def tracks_get tracks_upd)

lemma tracks_block: "tracks key ct0 ct c \<Longrightarrow> tracks key ct0 (blockConnection key ct) (block_fields c)"
  using tracks_upd [of key ct0 ct c block_fields] by (simp add: blockConnection_def block_fields_def [abs_def])

abbreviation both :: "FlowKey \<Rightarrow> ConnectionTracker \<Rightarrow> 'a \<times> ConnectionTracker \<Rightarrow> 'a \<times> Connection \<Rightarrow> bool" where
  "both key ct0 \<equiv> rel_prod (=) (tracks key ct0)"

lemma udp_sim:
  assumes "tracks key ct0 ct c"
  shows "sim (both key ct0) (inspect_udp key c payload len ct) (udp_flow c payload len)"
  unfolding inspect_udp_def udp_flow_def
  using assms by (auto intro!: sim_same tracks_classify split: option.split)

lemma tcp_sim:
  assumes "tracks key ct0 ct c"
  shows "sim (both key ct0) (inspect_tcp_client now seq key c payload len ct) (tcp_flow now seq c payload len)"
proof -
  have ra: "tracks key ct0 (on_connection key (\<lambda>c. c\<lparr>c_reassembler_client := r\<rparr>) ct) (c\<lparr>c_reassembler_client := r\<rparr>)" for r
    by (rule tracks_upd [OF assms])
  have cleared: "tracks key ct0 (on_connection key (\<lambda>c. c\<lparr>c_reassembler_client := ra_clear (c_reassembler_client c)\<rparr>)
      (classifyConnection key app sni [] [] (on_connection key (\<lambda>c. c\<lparr>c_reassembler_client := r\<rparr>) ct)))
    (classify_fields app sni [] [] (c\<lparr>c_reassembler_client := ra_clear r\<rparr>))" for app sni r
  proof -
    have eq: "(classify_fields app sni [] [] (c\<lparr>c_reassembler_client := r\<rparr>))
        \<lparr>c_reassembler_client := ra_clear (c_reassembler_client (classify_fields app sni [] [] (c\<lparr>c_reassembler_client := r\<rparr>)))\<rparr> =
      classify_fields app sni [] [] (c\<lparr>c_reassembler_client := ra_clear r\<rparr>)"
      by (simp add: classify_fields_def Let_def)
    show ?thesis
      using tracks_upd [OF tracks_classify [OF ra, of app sni "[]" "[]" r],
          of "\<lambda>c. c\<lparr>c_reassembler_client := ra_clear (c_reassembler_client c)\<rparr>"]
      unfolding eq .
  qed
  show ?thesis
    unfolding inspect_tcp_client_def tcp_flow_def
    using assms by (auto simp: Let_def intro!: sim_same tracks_classify ra cleared split: option.split)
qed

lemma inspect_sim:
  assumes "tracks key ct0 ct c"
  shows "sim (tracks key ct0) (inspectPayload now key job b ct) (inspect_flow now job b c)"
proof (cases "getPayload job")
  case (Some payload)
  let ?m = "if fk_protocol (c_flow_key c) = 17 then inspect_udp key c payload (pj_payload_length job) ct
    else if fk_protocol (c_flow_key c) = 6 \<and> b then
      inspect_tcp_client now (pj_tcp_seq_number job) key c payload (pj_payload_length job) ct
    else Inr (False, ct)"
  let ?n = "if fk_protocol (c_flow_key c) = 17 then udp_flow c payload (pj_payload_length job)
    else if fk_protocol (c_flow_key c) = 6 \<and> b then tcp_flow now (pj_tcp_seq_number job) c payload (pj_payload_length job)
    else Inr (False, c)"
  have "sim (both key ct0) ?m ?n" using udp_sim tcp_sim assms by simp
  then have "sim (tracks key ct0)
    (rbind ?m (\<lambda>(updated, ct). rbind (conn_at ct key) (\<lambda>conn.
      Inr (if \<not> updated \<and> c_packets_in conn + c_packets_out conn > 10 then classifyConnection key UNKNOWN [] [] [] ct else ct))))
    (rbind ?n (\<lambda>(updated, conn).
      Inr (if \<not> updated \<and> c_packets_in conn + c_packets_out conn > 10 then classify_fields UNKNOWN [] [] [] conn else conn)))"
    by (rule sim_rbind) (auto simp: tracks_conn_at intro: tracks_classify)
  then show ?thesis
    unfolding inspectPayload_def inspect_flow_def Some option.case tracks_conn_at [OF assms] rbind.simps Let_def .
qed (simp add: inspectPayload_def inspect_flow_def assms)

lemma judge_sim:
  assumes "tracks (pj_flow_key job) ct0 ct c"
  shows "sim (both (pj_flow_key job) ct0) (decide_packet now rm job b ct) (judge_flow now rm job b c)"
proof -
  have "sim (tracks (pj_flow_key job) ct0)
      (if c_state c = NEW \<or> c_state c = ESTABLISHED then inspectPayload now (pj_flow_key job) job b ct else Inr ct)
      (if c_state c = NEW \<or> c_state c = ESTABLISHED then inspect_flow now job b c else Inr c)"
    using inspect_sim assms by simp
  then show ?thesis
    unfolding decide_packet_def judge_flow_def
    by (auto simp: Let_def tracks_conn_at [OF assms] assms tracks_block [OF assms] tracks_conn_at
        intro!: sim_same sim_rbind tracks_block)
qed

section \<open>Flows side by side\<close>

text \<open>There is room for the flow: it is in the table, or the table is not full.\<close>

definition has_room :: "FlowKey \<Rightarrow> ConnectionTracker \<Rightarrow> bool" where
  "has_room key ct \<longleftrightarrow> getConnection ct key \<noteq> None \<or> length (ct_connections ct) < ct_max_connections ct"

text \<open>\<open>ct'\<close> is \<open>ct\<close> with the connection of \<open>key\<close> set to \<open>c\<close>, and nothing else changed.\<close>

definition sets_flow :: "FlowKey \<Rightarrow> ConnectionTracker \<Rightarrow> ConnectionTracker \<Rightarrow> Connection \<Rightarrow> bool" where
  "sets_flow key ct ct' c \<longleftrightarrow>
     (\<forall>k. getConnection ct' k = (if fk_canonical k = fk_canonical key then Some c else getConnection ct k)) \<and>
     map fst (ct_connections ct') =
       map fst (ct_connections ct) @ (if getConnection ct key = None then [fk_canonical key] else []) \<and>
     ct_max_connections ct' = ct_max_connections ct"

lemma sets_tracks: "sets_flow key ct ct1 c \<Longrightarrow> tracks key ct1 ct' c' \<Longrightarrow> sets_flow key ct ct' c'"
  by (auto simp: sets_flow_def tracks_def)

lemma sets_flow_start: "sets_flow key ct ct1 c \<Longrightarrow> tracks key ct1 ct1 c"
  by (auto simp: sets_flow_def tracks_def)

lemma create_sim:
  assumes "has_room key ct"
  shows "sim (sets_flow key ct) (getOrCreateConnection now key ct)
    (case getConnection ct key of Some c \<Rightarrow> Inr c | None \<Rightarrow> new_connection now key)"
proof (cases "getConnection ct key")
  case None
  then have "\<not> ct_max_connections ct \<le> length (ct_connections ct)" using assms by (simp add: has_room_def)
  moreover have "sets_flow key ct (ct\<lparr>ct_connections := ct_connections ct @ [(fk_canonical key, c)], ct_total_seen := n\<rparr>) c" for c n
    using None by (auto simp: sets_flow_def getConnection_def map_add_def flow_key.canon_idem split: option.split)
  ultimately show ?thesis
    using None by (cases "new_connection now key") (simp_all add: getOrCreateConnection_def getConnection_def Let_def)
next
  case (Some c)
  then have "sets_flow key ct ct c" by (auto simp: sets_flow_def getConnection_def)
  then show ?thesis using Some by (simp add: getOrCreateConnection_def getConnection_def Let_def)
qed

text \<open>What a packet does: its flow moves as the specification says, the others stay.\<close>

definition moves_flow :: "PacketJob \<Rightarrow> FastPath \<Rightarrow> FastPath \<Rightarrow> PacketAction \<times> Connection \<Rightarrow> bool" where
  "moves_flow job fp fp' = (\<lambda>(action, c).
     fp_output fp' = fp_output fp @ [(job, action)] \<and>
     sets_flow (pj_flow_key job) (fp_connection_tracker fp) (fp_connection_tracker fp') c)"

lemma process_sim:
  assumes "has_room (pj_flow_key job) (fp_connection_tracker fp)"
  shows "sim (moves_flow job fp) (processPacket now rm job fp)
    (flow_step now rm job (getConnection (fp_connection_tracker fp) (pj_flow_key job)))"
proof (cases "pj_has_flow_key job")
  case True
  let ?key = "pj_flow_key job" and ?ct = "fp_connection_tracker fp"
  note create = create_sim [OF assms, of now]
  show ?thesis
  proof (cases "getOrCreateConnection now ?key ?ct")
    case (Inl e)
    with create show ?thesis
      using True by (auto simp: processPacket_def track_packet_def flow_step_def Let_def elim: rel_sum.cases)
  next
    case (Inr ct1)
    with create obtain c where c: "(case getConnection ?ct ?key of Some c \<Rightarrow> Inr c | None \<Rightarrow> new_connection now ?key) = Inr c"
      and s: "sets_flow ?key ?ct ct1 c"
      by (auto elim: rel_sum.cases)
    let ?b = "client_side ?key c"
    let ?ct2 = "on_connection ?key (packet_fields now job ?b) ct1"
    have t: "tracks ?key ct1 ?ct2 (packet_fields now job ?b c)" by (rule tracks_upd [OF sets_flow_start [OF s]])
    have "sim (moves_flow job fp)
      (rbind (decide_packet now rm job ?b ?ct2) (\<lambda>(action, ct). Inr (handleAction job action
        (fp\<lparr>fp_stats := fp_stats fp\<lparr>total_processed := total_processed (fp_stats fp) + 1\<rparr>, fp_connection_tracker := ct\<rparr>))))
      (rbind (judge_flow now rm job ?b (packet_fields now job ?b c)) Inr)"
      by (rule sim_rbind [OF judge_sim [OF t]]) (auto simp: moves_flow_def intro: sets_tracks [OF s])
    moreover have "rbind m Inr = m" for m :: "(PacketAction \<times> Connection) res" by (cases m) simp_all
    ultimately show ?thesis
      using track_packet_entry [OF True Inr tracks_get [OF sets_flow_start [OF s]]]
      by (simp add: processPacket_def flow_step_def True c Let_def)
  qed
qed (simp add: processPacket_def track_packet_def flow_step_def)

section \<open>A fast path and its events\<close>

definition clean_up :: "nat \<Rightarrow> FastPath \<Rightarrow> FastPath" where
  "clean_up now fp = fp\<lparr>fp_connection_tracker := snd (cleanupStale now 300 (fp_connection_tracker fp))\<rparr>"

fun process_event :: "RuleManager \<Rightarrow> fp_event \<Rightarrow> FastPath \<Rightarrow> FastPath res" where
  "process_event rm (Decide now job) fp = processPacket now rm job fp"
| "process_event rm (Clean_Up now) fp = Inr (clean_up now fp)"

fun process_all :: "RuleManager \<Rightarrow> fp_event list \<Rightarrow> FastPath \<Rightarrow> FastPath res" where
  "process_all rm [] fp = Inr fp"
| "process_all rm (e # es) fp = rbind (process_event rm e fp) (process_all rm es)"

lemma process_all_append: "process_all rm (es @ es') fp = rbind (process_all rm es fp) (process_all rm es')"
proof (induction es arbitrary: fp)
  case (Cons e es)
  then show ?case by (cases "process_event rm e fp") simp_all
qed simp

abbreviation flow_keys :: "ConnectionTracker \<Rightarrow> FlowKey list" where
  "flow_keys ct \<equiv> map fst (ct_connections ct)"

abbreviation connection :: "FastPath \<Rightarrow> FlowKey \<Rightarrow> Connection option" where
  "connection fp \<equiv> getConnection (fp_connection_tracker fp)"

lemma unknown_flow: "getConnection ct key = None \<longleftrightarrow> fk_canonical key \<notin> set (flow_keys ct)"
  by (auto simp: getConnection_def map_of_eq_None_iff)

text \<open>A table of distinct flows out of \<open>K\<close>, which has room for all of \<open>K\<close>.\<close>

definition roomy :: "FlowKey set \<Rightarrow> ConnectionTracker \<Rightarrow> bool" where
  "roomy K ct \<longleftrightarrow> finite K \<and> card K \<le> ct_max_connections ct \<and> distinct (flow_keys ct) \<and> set (flow_keys ct) \<subseteq> K"

lemma roomy_has_room:
  assumes "roomy K ct" and "fk_canonical key \<in> K"
  shows "has_room key ct"
proof (cases "getConnection ct key")
  case None
  have "card (insert (fk_canonical key) (set (flow_keys ct))) \<le> card K"
    using assms by (intro card_mono) (auto simp: roomy_def)
  then show ?thesis
    using None assms(1) distinct_card [of "flow_keys ct"] by (simp add: roomy_def has_room_def unknown_flow)
qed (simp add: has_room_def)

lemma roomy_sets_flow:
  assumes "roomy K ct" and "fk_canonical key \<in> K" and "sets_flow key ct ct' c"
  shows "roomy K ct'"
  using assms unfolding roomy_def sets_flow_def by (auto simp: unknown_flow)

lemma clean_up_effect:
  assumes "roomy K (fp_connection_tracker fp)"
  shows "roomy K (fp_connection_tracker (clean_up now fp))"
    and "connection (clean_up now fp) key = expire now (connection fp key)"
    and "fp_output (clean_up now fp) = fp_output fp"
  using assms map_of_filter_value [of "ct_connections (fp_connection_tracker fp)" "\<lambda>c. \<not> should_remove now 300 c"]
  by (auto simp: roomy_def clean_up_def cleanupStale_def Let_def getConnection_def expire_def distinct_map_filter
      split: option.split)

text \<open>One event: the flows it does not concern stay as they are, the others move as the specification says.\<close>

lemma packet_apart:
  assumes "processPacket now rm job fp = Inr fp'" and "roomy K (fp_connection_tracker fp)"
    and "fk_canonical (pj_flow_key job) \<in> K"
  obtains a c where "fp_output fp' = fp_output fp @ [(job, a)]" "roomy K (fp_connection_tracker fp')"
    "\<And>key. of_flow key job \<Longrightarrow> flow_step now rm job (connection fp key) = Inr (a, c)"
    "\<And>key. connection fp' key = (if of_flow key job then Some c else connection fp key)"
proof -
  let ?ct = "fp_connection_tracker fp" and ?key = "pj_flow_key job"
  from process_sim [OF roomy_has_room [OF assms(2,3)], of now rm] assms(1) obtain a c where
    step: "flow_step now rm job (getConnection ?ct ?key) = Inr (a, c)" and m: "moves_flow job fp fp' (a, c)"
    by (auto elim: rel_sum.cases)
  have sets: "sets_flow ?key ?ct (fp_connection_tracker fp') c" using m by (simp add: moves_flow_def)
  show thesis
  proof (rule that [of a c])
    show "flow_step now rm job (connection fp key) = Inr (a, c)" if "of_flow key job" for key
      using step tracker.find_same_flow [of key ?key ?ct] that by (simp add: of_flow_def)
  qed (use m sets roomy_sets_flow [OF assms(2,3) sets] in \<open>auto simp: moves_flow_def sets_flow_def of_flow_def\<close>)
qed

lemma flows_apart:
  assumes "process_all rm es fp = Inr fp'" and "roomy K (fp_connection_tracker fp)"
    and "fk_canonical ` pj_flow_key ` set (decided es) \<subseteq> K"
  shows "\<exists>acts. fp_output fp' = fp_output fp @ zip (decided es) acts \<and> length acts = length (decided es) \<and>
    (\<forall>key. flow_run rm (filter (concerns key) es) (connection fp key) =
      Inr (map snd (filter (\<lambda>(job, a). of_flow key job) (zip (decided es) acts)), connection fp' key))"
  using assms
proof (induction es arbitrary: fp)
  case (Cons e es)
  show ?case
  proof (cases e)
    case (Clean_Up now)
    note clean = clean_up_effect [OF Cons.prems(2), of now]
    show ?thesis using Cons.IH [of "clean_up now fp"] Cons.prems(1,3) clean by (simp add: Clean_Up)
  next
    case (Decide now job)
    from Cons.prems(1) obtain fp1 where p: "processPacket now rm job fp = Inr fp1" and rest: "process_all rm es fp1 = Inr fp'"
      by (auto simp: Decide rbind_Inr_iff)
    from packet_apart [OF p Cons.prems(2)] Cons.prems(3) obtain a c where
      out: "fp_output fp1 = fp_output fp @ [(job, a)]" and room: "roomy K (fp_connection_tracker fp1)"
      and step: "\<And>key. of_flow key job \<Longrightarrow> flow_step now rm job (connection fp key) = Inr (a, c)"
      and get: "\<And>key. connection fp1 key = (if of_flow key job then Some c else connection fp key)"
      by (auto simp: Decide)
    from Cons.IH [OF rest room] Cons.prems(3) obtain acts where
      acts: "fp_output fp' = fp_output fp1 @ zip (decided es) acts" "length acts = length (decided es)"
      and run: "\<And>key. flow_run rm (filter (concerns key) es) (connection fp1 key) =
        Inr (map snd (filter (\<lambda>(job, a). of_flow key job) (zip (decided es) acts)), connection fp' key)"
      by (auto simp: Decide)
    have "flow_run rm (filter (concerns key) (e # es)) (connection fp key) =
      Inr (map snd (filter (\<lambda>(job, a). of_flow key job) (zip (decided (e # es)) (a # acts))), connection fp' key)" for key
      using run [of key] step [of key] get [of key] by (cases "of_flow key job") (simp_all add: Decide)
    then show ?thesis by (intro exI [of _ "a # acts"]) (simp add: acts out Decide)
  qed
qed simp

lemma process_all_decided: "process_all rm es fp = Inr fp' \<Longrightarrow> map fst (fp_output fp') = map fst (fp_output fp) @ decided es"
proof (induction es arbitrary: fp)
  case (Cons e es)
  then show ?case
    by (cases e) (auto simp: rbind_Inr_iff processPacket_def Let_def handleAction_def clean_up_def)
qed simp

text \<open>From the start of a fast path: its decisions on a flow are those of the specification for this flow alone.\<close>

lemma fresh_flows_apart:
  assumes "process_all rm es (fp_start (new_fast_path i)) = Inr fp'"
    and "card (fk_canonical ` pj_flow_key ` set (decided es)) \<le> 100000"
  shows "flow_run rm (filter (concerns key) es) None =
      Inr (map snd (filter (\<lambda>(job, a). of_flow key job) (fp_output fp')), connection fp' key)"
proof -
  let ?fp = "fp_start (new_fast_path i)" and ?K = "fk_canonical ` pj_flow_key ` set (decided es)"
  have "roomy ?K (fp_connection_tracker ?fp)" and start: "fp_output ?fp = []" "connection ?fp key = None"
    using assms(2) by (simp_all add: roomy_def fp_start_def new_fast_path_def new_tracker_def getConnection_def)
  from flows_apart [OF assms(1) this(1)] obtain acts where
    a: "fp_output fp' = zip (decided es) acts" "length acts = length (decided es)"
    and run: "flow_run rm (filter (concerns key) es) (connection ?fp key) =
      Inr (map snd (filter (\<lambda>(job, a). of_flow key job) (zip (decided es) acts)), connection fp' key)"
    by (auto simp: start(1))
  show "flow_run rm (filter (concerns key) es) None =
      Inr (map snd (filter (\<lambda>(job, a). of_flow key job) (fp_output fp')), connection fp' key)"
    using run unfolding start(2) a(1) .
qed

section \<open>After an RST\<close>

text \<open>A fast path over packets, each with its own time and the rules in force by then.\<close>

fun process_packets :: "(nat \<times> RuleManager \<times> PacketJob) list \<Rightarrow> FastPath \<Rightarrow> FastPath res" where
  "process_packets [] fp = Inr fp"
| "process_packets ((now, rm, job) # later) fp = rbind (processPacket now rm job fp) (process_packets later)"

abbreviation packet_of :: "nat \<times> RuleManager \<times> PacketJob \<Rightarrow> PacketJob" where
  "packet_of \<equiv> \<lambda>(now, rm, job). job"

text \<open>A closed connection, and one that an RST closes: no inspection, and no rule but the address rules.\<close>

lemma flow_step_closed:
  assumes "pj_has_flow_key job" and "ipv4_key key src dst" and "c_flow_key c = fk_canonical key"
    and "\<not> establishes job c" and "c_state c = CLOSED \<or> resets job"
    and "\<not> isIPBlocked rm src" and "\<not> isIPBlocked rm dst"
  obtains c' where "flow_step now rm job (Some c) = Inr (FORWARD, c')" "c_state c' = CLOSED"
    "c_flow_key c' = fk_canonical key"
proof -
  let ?c = "packet_fields now job (client_side (pj_flow_key job) c) c"
  have "c_flow_key ?c = fk_canonical key" using assms(3) by simp
  with ip_rule_applies_ipv4 [OF assms(2) this] show thesis
    using assms by (intro that [of ?c]) (auto simp: flow_step_def judge_flow_def Let_def)
qed

definition closed_in :: "FlowKey \<Rightarrow> FastPath \<Rightarrow> bool" where
  "closed_in key fp \<longleftrightarrow>
     (\<exists>c. connection fp key = Some c \<and> c_state c = CLOSED \<and> c_flow_key c = fk_canonical key)"

lemma closed_in_state: "closed_in key fp \<Longrightarrow> map_option c_state (connection fp key) = Some CLOSED"
  by (auto simp: closed_in_def)

text \<open>The condition on a later packet: of another flow, or neither a SYN-ACK nor under an address rule.\<close>

definition keeps_closed :: "FlowKey \<Rightarrow> u32 \<Rightarrow> u32 \<Rightarrow> nat \<times> RuleManager \<times> PacketJob \<Rightarrow> bool" where
  "keeps_closed key src dst = (\<lambda>(now, rm, job). of_flow key job \<longrightarrow>
     pj_has_flow_key job \<and> (pj_tcp_flags job AND SYN = 0 \<or> pj_tcp_flags job AND ACK = 0) \<and>
     \<not> isIPBlocked rm src \<and> \<not> isIPBlocked rm dst)"

lemma closed_step:
  assumes "roomy K (fp_connection_tracker fp)" and "closed_in key fp" and "ipv4_key key src dst"
    and "fk_canonical (pj_flow_key job) \<in> K" and "keeps_closed key src dst (now, rm, job)"
  shows "case processPacket now rm job fp of
      Inl e \<Rightarrow> \<not> of_flow key job
    | Inr fp' \<Rightarrow> roomy K (fp_connection_tracker fp') \<and> closed_in key fp' \<and>
        (\<exists>a. fp_output fp' = fp_output fp @ [(job, a)] \<and> (of_flow key job \<longrightarrow> a = FORWARD))"
proof -
  obtain c where c: "connection fp key = Some c" "c_state c = CLOSED" "c_flow_key c = fk_canonical key"
    using assms(2) by (auto simp: closed_in_def)
  have own: "\<exists>c'. flow_step now rm job (Some c) = Inr (FORWARD, c') \<and> c_state c' = CLOSED \<and> c_flow_key c' = fk_canonical key"
    if "of_flow key job"
    using flow_step_closed [OF _ assms(3) c(3), of job rm now] assms(5) that c(2)
    by (auto simp: keeps_closed_def establishes_def)
  show ?thesis
  proof (cases "processPacket now rm job fp")
    case (Inl e)
    have "\<not> of_flow key job"
    proof
      assume mine: "of_flow key job"
      then have "connection fp (pj_flow_key job) = Some c"
        using tracker.find_same_flow [of key "pj_flow_key job" "fp_connection_tracker fp"] mine c(1) by (simp add: of_flow_def)
      with own [OF mine] Inl process_sim [OF roomy_has_room [OF assms(1,4)], of now rm] show False
        by (auto elim: rel_sum.cases)
    qed
    with Inl show ?thesis by simp
  next
    case (Inr fp')
    from packet_apart [OF Inr assms(1,4)] obtain a c' where
      p: "fp_output fp' = fp_output fp @ [(job, a)]" "roomy K (fp_connection_tracker fp')"
      "of_flow key job \<Longrightarrow> flow_step now rm job (connection fp key) = Inr (a, c')"
      "connection fp' key = (if of_flow key job then Some c' else connection fp key)" by metis
    then show ?thesis using own c Inr by (cases "of_flow key job") (auto simp: closed_in_def)
  qed
qed

lemma closed_run:
  assumes "roomy K (fp_connection_tracker fp)" and "closed_in key fp" and "ipv4_key key src dst"
    and "\<forall>p \<in> set later. keeps_closed key src dst p \<and> fk_canonical (pj_flow_key (packet_of p)) \<in> K"
  shows "case process_packets later fp of
      Inl e \<Rightarrow> \<exists>before now rm job after fp'. later = before @ (now, rm, job) # after \<and>
        process_packets before fp = Inr fp' \<and> processPacket now rm job fp' = Inl e \<and> \<not> of_flow key job
    | Inr fp' \<Rightarrow> closed_in key fp' \<and>
        (\<exists>acts. length acts = length later \<and> fp_output fp' = fp_output fp @ zip (map packet_of later) acts \<and>
          (\<forall>(job, a) \<in> set (zip (map packet_of later) acts). of_flow key job \<longrightarrow> a = FORWARD))"
  using assms(1,2,4)
proof (induction later arbitrary: fp)
  case (Cons p later)
  obtain now rm job where p: "p = (now, rm, job)" by (cases p)
  note step = closed_step [OF Cons.prems(1,2) assms(3), of job now rm]
  show ?case
  proof (cases "processPacket now rm job fp")
    case (Inl e)
    then show ?thesis using step Cons.prems(3) by (force simp: p intro!: exI [of _ "[]"])
  next
    case (Inr fp1)
    then obtain a where s: "roomy K (fp_connection_tracker fp1)" "closed_in key fp1"
      "fp_output fp1 = fp_output fp @ [(job, a)]" "of_flow key job \<longrightarrow> a = FORWARD"
      using step Cons.prems(3) by (auto simp: p)
    note IH = Cons.IH [OF s(1,2)]
    show ?thesis
    proof (cases "process_packets later fp1")
      case (Inl e)
      with IH Cons.prems(3) obtain before now' rm' job' after fp' where "later = before @ (now', rm', job') # after"
        "process_packets before fp1 = Inr fp'" "processPacket now' rm' job' fp' = Inl e" "\<not> of_flow key job'" by auto
      then show ?thesis using Inr Inl by (auto simp: p intro!: exI [of _ "p # before"])
    next
      case (Inr fp')
      with IH Cons.prems(3) obtain acts where "closed_in key fp'" "length acts = length later"
        "fp_output fp' = fp_output fp1 @ zip (map packet_of later) acts"
        "\<forall>(job, a) \<in> set (zip (map packet_of later) acts). of_flow key job \<longrightarrow> a = FORWARD" by auto
      then show ?thesis
        using Inr \<open>processPacket now rm job fp = Inr fp1\<close> s by (auto simp: p intro!: exI [of _ "a # acts"])
    qed
  qed
qed auto

text \<open>
  C23. A blocked flow can free itself: a single RST segment of a flow in state \<open>BLOCKED\<close> is forwarded and closes
  the flow. From then on, whatever packets the fast path gets next, of this flow in either direction or of others,
  and whatever applications and domains the rules name by then, it forwards every packet of the flow and the flow
  stays in state \<open>CLOSED\<close>. The packets of the flow are to be no SYN-ACK segments and under no address rule of
  their moment, and the table has room for all flows concerned, so that none is evicted. The process can only end
  at a packet of another flow. This lasts until a clean-up of the fast path, which forgets closed flows.
\<close>

theorem reset_frees_blocked_flow:
  assumes "wf_tracker (fp_connection_tracker fp)"
    and "pj_has_flow_key job" and "resets job" and "ipv4_key (pj_flow_key job) src dst"
    and "connection fp (pj_flow_key job) = Some c" and "c_state c = BLOCKED"
    and "\<not> isIPBlocked rm src" and "\<not> isIPBlocked rm dst"
    and "\<forall>(now', rm', job') \<in> set later. of_flow (pj_flow_key job) job' \<longrightarrow>
      pj_has_flow_key job' \<and> (pj_tcp_flags job' AND SYN = 0 \<or> pj_tcp_flags job' AND ACK = 0) \<and>
      \<not> isIPBlocked rm' src \<and> \<not> isIPBlocked rm' dst"
    and "card (set (flow_keys (fp_connection_tracker fp)) \<union>
      (\<lambda>(now', rm', job'). fk_canonical (pj_flow_key job')) ` set later) \<le> ct_max_connections (fp_connection_tracker fp)"
  shows "\<exists>fp'. processPacket now rm job fp = Inr fp' \<and> fp_output fp' = fp_output fp @ [(job, FORWARD)] \<and>
    (case process_packets later fp' of
       Inl e \<Rightarrow> \<exists>before now' rm' job' after fp''. later = before @ (now', rm', job') # after \<and>
         process_packets before fp' = Inr fp'' \<and> processPacket now' rm' job' fp'' = Inl e \<and>
         \<not> of_flow (pj_flow_key job) job'
     | Inr fp'' \<Rightarrow> map_option c_state (connection fp'' (pj_flow_key job)) = Some CLOSED \<and>
         (\<exists>acts. length acts = length later \<and> fp_output fp'' = fp_output fp' @ zip (map packet_of later) acts \<and>
           (\<forall>(job', a) \<in> set (zip (map packet_of later) acts). of_flow (pj_flow_key job) job' \<longrightarrow> a = FORWARD)))"
proof -
  let ?key = "pj_flow_key job" and ?ct = "fp_connection_tracker fp"
  let ?K = "set (flow_keys ?ct) \<union> (\<lambda>(now', rm', job'). fk_canonical (pj_flow_key job')) ` set later"
  have room: "roomy ?K ?ct" using assms(1,10) by (simp add: roomy_def wf_tracker_def)
  have known: "fk_canonical ?key \<in> ?K" using assms(5) unknown_flow [of ?ct ?key] by auto
  obtain c' where step: "flow_step now rm job (connection fp ?key) = Inr (FORWARD, c')" "c_state c' = CLOSED"
    "c_flow_key c' = fk_canonical ?key"
    using flow_step_closed [OF assms(2,4) wf_flow_key [OF assms(1,5)] _ _ assms(7,8), of now] assms(3,5)
    by (auto simp: establishes_def resets_def)
  obtain fp' where fp': "processPacket now rm job fp = Inr fp'"
    using process_sim [OF roomy_has_room [OF room known], of now rm] step(1) by (auto elim: rel_sum.cases)
  from packet_apart [OF fp' room known] obtain a x where p:
    "fp_output fp' = fp_output fp @ [(job, a)]" "roomy ?K (fp_connection_tracker fp')"
    "of_flow ?key job \<Longrightarrow> flow_step now rm job (connection fp ?key) = Inr (a, x)"
    "connection fp' ?key = (if of_flow ?key job then Some x else connection fp ?key)" by metis
  have "of_flow ?key job" by (simp add: of_flow_def)
  then have "a = FORWARD \<and> closed_in ?key fp'" using p(3,4) step by (simp add: closed_in_def)
  then have after: "fp_output fp' = fp_output fp @ [(job, FORWARD)] \<and> roomy ?K (fp_connection_tracker fp') \<and> closed_in ?key fp'"
    using p(1,2) by simp
  moreover have "\<forall>p \<in> set later. keeps_closed ?key src dst p \<and> fk_canonical (pj_flow_key (packet_of p)) \<in> ?K"
    using assms(9) by (force simp: keeps_closed_def)
  ultimately have "case process_packets later fp' of
      Inl e \<Rightarrow> \<exists>before now rm job' after fp''. later = before @ (now, rm, job') # after \<and>
        process_packets before fp' = Inr fp'' \<and> processPacket now rm job' fp'' = Inl e \<and> \<not> of_flow ?key job'
    | Inr fp'' \<Rightarrow> closed_in ?key fp'' \<and>
        (\<exists>acts. length acts = length later \<and> fp_output fp'' = fp_output fp' @ zip (map packet_of later) acts \<and>
          (\<forall>(job', a) \<in> set (zip (map packet_of later) acts). of_flow ?key job' \<longrightarrow> a = FORWARD))"
    by (intro closed_run [OF _ _ assms(4), where K = ?K]) simp_all
  then show ?thesis
    using fp' after closed_in_state [of ?key] by (intro exI [of _ fp'] conjI) (simp_all split: sum.splits)
qed

text \<open>After the RST: a packet of another flow, a ClientHello for a blocked domain, and a reply.\<close>

definition sample_later :: "(nat \<times> RuleManager \<times> PacketJob) list" where
  "sample_later =
     [(10, no_rules, (sample_job 0x18 [22, 3])\<lparr>pj_flow_key := sample_key\<lparr>fk_src_port := 6000\<rparr>\<rparr>),
      (11, blockDomain ''a.io'' no_rules, sample_job 0x18 (client_hello_bytes sample_hello)),
      (12, no_rules, (sample_job 0x10 [])\<lparr>pj_flow_key := fk_reverse sample_key\<rparr>)]"

theorem reset_frees_blocked_flow_witness:
  "\<exists>(fp :: FastPath) fp'. wf_tracker (fp_connection_tracker fp) \<and>
     map_option c_state (connection fp sample_key) = Some BLOCKED \<and>
     processPacket 9 (blockDomain ''a.io'' no_rules) (sample_job 0x04 []) fp = Inr fp' \<and>
     fp_output fp' = fp_output fp @ [(sample_job 0x04 [], FORWARD)] \<and>
     (case process_packets sample_later fp' of
        Inl e \<Rightarrow> \<exists>before now' rm' job' after fp''. sample_later = before @ (now', rm', job') # after \<and>
          process_packets before fp' = Inr fp'' \<and> processPacket now' rm' job' fp'' = Inl e \<and>
          \<not> of_flow sample_key job'
      | Inr fp'' \<Rightarrow> map_option c_state (connection fp'' sample_key) = Some CLOSED \<and>
          (\<exists>acts. length acts = length sample_later \<and> fp_output fp'' = fp_output fp' @ zip (map packet_of sample_later) acts \<and>
            (\<forall>(job', a) \<in> set (zip (map packet_of sample_later) acts). of_flow sample_key job' \<longrightarrow> a = FORWARD)))"
proof -
  obtain fp :: FastPath and c where fp: "wf_tracker (fp_connection_tracker fp)"
    "connection fp sample_key = Some c" "c_state c = BLOCKED"
    "length (ct_connections (fp_connection_tracker fp)) = 1" "ct_max_connections (fp_connection_tracker fp) = 5"
    using blocked_path_exists by blast
  let ?job = "sample_job 0x04 []" and ?canon = "\<lambda>(now' :: nat, rm' :: RuleManager, job'). fk_canonical (pj_flow_key job')"
  have rst: "resets ?job" by (simp add: resets_def)
  have later: "\<forall>(now', rm', job') \<in> set sample_later. of_flow (pj_flow_key ?job) job' \<longrightarrow>
      pj_has_flow_key job' \<and> (pj_tcp_flags job' AND SYN = 0 \<or> pj_tcp_flags job' AND ACK = 0) \<and>
      \<not> isIPBlocked rm' 9 \<and> \<not> isIPBlocked rm' 4"
    by (simp add: sample_later_def)
  have "card (set (flow_keys (fp_connection_tracker fp)) \<union> ?canon ` set sample_later) \<le>
      card (set (flow_keys (fp_connection_tracker fp))) + card (?canon ` set sample_later)" by (rule card_Un_le)
  also have "\<dots> \<le> length (flow_keys (fp_connection_tracker fp)) + length sample_later"
    using card_image_le [of "set sample_later" ?canon] card_length [of sample_later]
    by (intro add_mono card_length) simp_all
  also have "\<dots> \<le> ct_max_connections (fp_connection_tracker fp)" using fp(4,5) by (simp add: sample_later_def)
  finally have room: "card (set (flow_keys (fp_connection_tracker fp)) \<union> ?canon ` set sample_later)
      \<le> ct_max_connections (fp_connection_tracker fp)" .
  show ?thesis
    using reset_frees_blocked_flow [of fp ?job 9 4 c "blockDomain ''a.io'' no_rules" sample_later 9,
        OF fp(1) _ rst _ _ fp(3) _ _ later room, unfolded sample_job_simps(1)] fp(1-3)
    by - (rule exI [of _ fp], simp)
qed

end
