(* ===== verification/Flow_Refinement.thy ===== *)
theory Flow_Refinement
  imports Flow_Order Flow_Spec
begin

text \<open>
  The engine of \<open>src/dpi_engine.cpp\<close> refines the specification of a single flow: whatever the interleaving
  of its threads and the traffic of the other flows, a flow is treated as if it were alone.
\<close>

section \<open>What a fast path has been through\<close>

text \<open>\<open>es\<close> explains the table and the decisions of fast path \<open>i\<close>.\<close>

definition history :: "RuleManager \<Rightarrow> nat \<Rightarrow> FastPath \<Rightarrow> fp_event list \<Rightarrow> bool" where
  "history rm i fp es \<longleftrightarrow> (\<exists>fp0. process_all rm es (fp_start (new_fast_path (int i))) = Inr fp0 \<and>
     fp_connection_tracker fp0 = fp_connection_tracker fp \<and> fp_output fp0 = fp_output fp)"

lemma history_same:
  "history rm i fp es \<Longrightarrow> fp_connection_tracker fp' = fp_connection_tracker fp \<Longrightarrow> fp_output fp' = fp_output fp \<Longrightarrow>
   history rm i fp' es"
  by (simp add: history_def)

lemma history_packet:
  assumes "history rm i fp es" and "processPacket now rm job fp = Inr fp'"
  shows "history rm i fp' (es @ [Decide now job])"
  using assms by (auto simp: history_def process_all_append processPacket_def rbind_Inr_iff Let_def)

lemma history_clean_up:
  "history rm i fp es \<Longrightarrow> history rm i (clean_up now fp) (es @ [Clean_Up now])"
  by (auto simp: history_def process_all_append clean_up_def)

lemma history_round:
  assumes "history rm i fp es" and "fp_round now rm (fp, t) = Inr (go_on, fp', t')"
  shows "\<exists>es. history rm i fp' es"
proof -
  let ?cleanup = "\<lambda>fp. if int now - int t > 10 * 10 ^ 9 then (clean_up now fp, now) else (fp, t)"
  have clean: "\<exists>es. history rm i (fst (?cleanup fp)) es" if "history rm i fp es" for fp es
    using that history_clean_up [OF that, of now] by auto
  obtain job_opt q where pop: "tsq_popWithTimeout (fp_input_queue fp) = (job_opt, q)" by fastforce
  let ?fp = "fp\<lparr>fp_input_queue := q\<rparr>"
  have h: "history rm i ?fp es" by (rule history_same [OF assms(1)]) simp_all
  show ?thesis
  proof (cases job_opt)
    case None
    then have "fp' = ?fp \<or> fp' = fst (?cleanup ?fp)"
      using assms(2) pop by (auto simp: fp_round_def clean_up_def Let_def split: if_splits)
    then show ?thesis using h clean [OF h] by blast
  next
    case (Some job)
    then obtain fp1 where p: "processPacket now rm job ?fp = Inr fp1" and "fp' = fst (?cleanup fp1)"
      using assms(2) pop by (auto simp: fp_round_def clean_up_def Let_def rbind_Inr_iff split: if_splits)
    then show ?thesis using clean [OF history_packet [OF h p]] by blast
  qed
qed

section \<open>Every step extends the histories\<close>

text \<open>Runs in which nobody changes the rules.\<close>

abbreviation steady_run :: "bool \<Rightarrow> std_hash \<Rightarrow> Engine \<Rightarrow> Engine \<Rightarrow> bool" where
  "steady_run le sh \<equiv> (\<lambda>en en'. e_step le sh en en' \<and> en_rule_manager en' = en_rule_manager en)\<^sup>*\<^sup>*"

definition explained :: "RuleManager \<Rightarrow> Engine \<Rightarrow> bool" where
  "explained rm en \<longleftrightarrow> en_rule_manager en = Some rm \<and> (\<forall>i < length (en_fps en). \<exists>es. history rm i (en_fps en ! i) es)"

lemma explained_same:
  assumes "explained rm en" and "en_rule_manager en' = en_rule_manager en" and "length (en_fps en') = length (en_fps en)"
    and "\<And>i. i < length (en_fps en) \<Longrightarrow> fp_connection_tracker (en_fps en' ! i) = fp_connection_tracker (en_fps en ! i) \<and>
      fp_output (en_fps en' ! i) = fp_output (en_fps en ! i)"
  shows "explained rm en'"
  unfolding explained_def
proof (intro conjI allI impI)
  fix i assume "i < length (en_fps en')"
  then have i: "i < length (en_fps en)" using assms(3) by simp
  then obtain es where "history rm i (en_fps en ! i) es" using assms(1) by (auto simp: explained_def)
  then show "\<exists>es. history rm i (en_fps en' ! i) es" using history_same assms(4) [OF i] by blast
qed (use assms(1,2) in \<open>simp add: explained_def\<close>)

lemma other_fp_fields:
  "fp_output (xs[k := (xs ! k)\<lparr>fp_input_queue := q\<rparr>] ! j) = fp_output (xs ! j)" (is ?out)
  "fp_connection_tracker (xs[k := (xs ! k)\<lparr>fp_input_queue := q\<rparr>] ! j) = fp_connection_tracker (xs ! j)" (is ?table)
proof -
  show ?out by (cases "j = k"; cases "k < length xs") (simp_all add: list_update_beyond)
  show ?table by (cases "j = k"; cases "k < length xs") (simp_all add: list_update_beyond)
qed

lemma step_explained:
  assumes "e_step le sh en en'" and "en_rule_manager en' = en_rule_manager en" and "explained rm en"
  shows "explained rm en'"
  using assms(1)
proof cases
  case reader
  then show ?thesis
    by (intro explained_same [OF assms(3,2)])
      (auto simp: reader_step_def writeOutputHeader_def split: reader_pc.splits list.splits option.splits prod.splits bool.splits)
next
  case (parser i)
  then show ?thesis
    by (intro explained_same [OF assms(3,2)])
      (auto simp: parser_step_def rbind_Inr_iff Let_def split: pw_pc.splits option.splits prod.splits)
next
  case (lb i)
  then have "length (en_fps en') = length (en_fps en) \<and> (\<forall>j < length (en_fps en).
      fp_connection_tracker (en_fps en' ! j) = fp_connection_tracker (en_fps en ! j) \<and>
      fp_output (en_fps en' ! j) = fp_output (en_fps en ! j))"
    by (auto simp: lb_step_def rbind_Inr_iff Let_def other_fp_fields split: lb_pc.splits option.splits prod.splits)
  then show ?thesis by (intro explained_same [OF assms(3,2)]) auto
next
  case (fp i now)
  show ?thesis
  proof (cases "en_fp_pcs en ! i")
    case (FP_Loop t)
    then obtain go_on fp1 t1 where r: "fp_round now rm (en_fps en ! i, t) = Inr (go_on, fp1, t1)"
      and en': "en' = fp_publish i (go_on, fp1, t1) en"
      using fp assms(3) by (auto simp: fp_step_def explained_def rbind_Inr_iff)
    have fps: "en_fps en' = (en_fps en)[i := fp1]"
      by (simp add: en' fp_publish_def Let_def split: list.split prod.split)
    have "\<exists>es. history rm i fp1 es" using assms(3) fp history_round [OF _ r] by (auto simp: explained_def)
    then have "\<exists>es. history rm j (en_fps en' ! j) es" if "j < length (en_fps en)" for j
      using assms(3) that by (cases "j = i") (simp_all add: explained_def fps)
    then show ?thesis using assms(2,3) by (simp add: explained_def fps)
  next
    case (FP_Output job t)
    then show ?thesis
      using fp by (intro explained_same [OF assms(3,2)]) (auto simp: fp_step_def split: option.splits)
  qed (use fp in \<open>simp add: fp_step_def\<close>)
next
  case writer
  then show ?thesis
    by (intro explained_same [OF assms(3,2)])
      (auto simp: output_step_def writeOutputPacket_def Let_def split: output_pc.splits option.splits prod.splits)
next
  case main
  then have "length (en_fps en') = length (en_fps en) \<and> (\<forall>j < length (en_fps en).
      fp_connection_tracker (en_fps en' ! j) = fp_connection_tracker (en_fps en ! j) \<and>
      fp_output (en_fps en' ! j) = fp_output (en_fps en ! j))"
    by (auto simp: main_step_def nth_list_update fp_stop_def split: main_pc.splits if_splits)
  then show ?thesis by (intro explained_same [OF assms(3,2)]) auto
qed (use assms(2,3) in \<open>auto simp: explained_def\<close>)

lemma steady_explained:
  assumes "steady_run le sh en en'" and "explained rm en"
  shows "e_run le sh en en' \<and> explained rm en'"
  using assms
proof (induction)
  case (step en1 en2)
  then show ?case using step_explained [of le sh en1 en2 rm] by (auto intro: rtranclp.rtrancl_into_rtrancl)
qed simp

lemma launch_explained:
  assumes "num_load_balancers config = int L" and "fps_per_lb config = int F"
    and "launch config files rm now input = Inr en"
  shows "explained rm en"
proof -
  have "history rm i (fp_start (new_fast_path (int i))) []" for i by (simp add: history_def)
  then show ?thesis unfolding launch_state [OF assms] by (auto simp: explained_def fresh_fps_def)
qed

section \<open>The engine and one flow\<close>

text \<open>
  C4. The engine refines the specification of a flow. With one parser worker, rules that nobody changes
  during the run and at most 100000 flows in the capture, under every interleaving of the threads: when the
  engine has finished, the verdicts on the packets of a flow, and its connection, are those of \<open>flow_run\<close>
  on the accepted packets of this flow in the order of the file, with the clean-ups there were in between.
  The other flows, the tables, the queues and the number of threads have no influence.
\<close>

theorem engine_refines_flow:
  assumes "num_load_balancers config = int L" and "fps_per_lb config = int F" and "0 < L" and "0 < F"
    and "num_parser_workers config \<le> 1" and "launch config files rm now input = Inr en"
    and "steady_run le sh en en'" and "en_main_pc en' = M_Done"
    and "card (fk_canonical ` pj_flow_key ` set (file_jobs le input)) \<le> 100000" and "i < L * F"
  shows "\<exists>es. decided es = filter (of_flow key) (own sh L F i (file_jobs le input)) \<and>
    flow_run rm es None =
      Inr (map snd (filter (\<lambda>(job, action). of_flow key job) (fp_output (en_fps en' ! i))),
           getConnection (fp_connection_tracker (en_fps en' ! i)) key)"
proof -
  let ?fp = "en_fps en' ! i" and ?own = "own sh L F i (file_jobs le input)"
  have run: "e_run le sh en en'" and ex: "explained rm en'"
    using steady_explained [OF assms(7) launch_explained [OF assms(1,2,6)]] by simp_all
  have "length (en_fps en') = L * F"
    using run_inv [OF run launch_inv [OF assms(1-4,6)]] by (simp add: pipeline_inv_def wired_def)
  with ex assms(10) obtain es fp0 where p: "process_all rm es (fp_start (new_fast_path (int i))) = Inr fp0"
    and same: "fp_connection_tracker fp0 = fp_connection_tracker ?fp" "fp_output fp0 = fp_output ?fp"
    by (auto simp: explained_def history_def)
  have "map fst (fp_output ?fp) = ?own" by (rule launched_order(2) [OF assms(1-6) run assms(10,8)])
  then have es: "decided es = ?own" using process_all_decided [OF p] same(2) by (simp add: fp_start_def new_fast_path_def)
  then have "card (fk_canonical ` pj_flow_key ` set (decided es)) \<le> card (fk_canonical ` pj_flow_key ` set (file_jobs le input))"
    by (auto simp: own_def intro: card_mono)
  then have "card (fk_canonical ` pj_flow_key ` set (decided es)) \<le> 100000" using assms(9) by simp
  from fresh_flows_apart [OF p this, of key] show ?thesis
    by (intro exI [of _ "filter (concerns key) es"] conjI) (simp_all add: decided_concerns es same)
qed

lemma fp_publish_rules [simp]: "en_rule_manager (fp_publish i r en) = en_rule_manager en"
  by (simp add: fp_publish_def Let_def split: prod.split list.split)

lemma fp_step_rules: "fp_step now i en = Inr (Some en') \<Longrightarrow> en_rule_manager en' = en_rule_manager en"
  by (auto simp: fp_step_def rbind_Inr_iff split: fp_pc.splits option.splits)

lemma thread_step_rules:
  assumes "thread_step le sh t en = Some en'"
  shows "en_rule_manager en' = en_rule_manager en"
proof (cases t)
  case T_Reader
  then show ?thesis
    using assms by (auto simp: thread_step_def reader_step_def writeOutputHeader_def
        split: reader_pc.splits list.splits option.splits prod.splits bool.splits)
next
  case (T_Parser i)
  then show ?thesis
    using assms by (auto simp: thread_step_def parser_step_def rbind_Inr_iff Let_def
        split: pw_pc.splits option.splits prod.splits if_splits sum.splits)
next
  case (T_LB i)
  then show ?thesis
    using assms by (auto simp: thread_step_def lb_step_def rbind_Inr_iff Let_def
        split: lb_pc.splits option.splits prod.splits if_splits sum.splits)
next
  case (T_FP now i)
  then show ?thesis using assms by (auto simp: thread_step_def fp_step_rules split: if_splits sum.splits)
next
  case T_Output
  then show ?thesis
    using assms by (auto simp: thread_step_def output_step_def writeOutputPacket_def Let_def
        split: output_pc.splits option.splits prod.splits)
next
  case T_Main
  then show ?thesis using assms by (auto simp: thread_step_def main_step_def split: main_pc.splits if_splits)
qed

lemma schedule_steady: "schedule le sh ts en = Some en' \<Longrightarrow> steady_run le sh en en'"
proof (induction ts arbitrary: en)
  case (Cons t ts)
  then obtain en1 where t: "thread_step le sh t en = Some en1" "en_fault en = None" and "schedule le sh ts en1 = Some en'"
    by (auto split: option.splits if_splits)
  then have "steady_run le sh en1 en'" using Cons.IH by blast
  with thread_step_e_step [OF t] thread_step_rules [OF t(1)] show ?case
    by (blast intro: converse_rtranclp_into_rtranclp)
qed simp

lemma engine_refines_flow_witness:
  "\<exists>en en' job conn es. launch (one_lane 1 10000) (\<lambda>_. None) no_rules 0 (sample_capture 1) = Inr en \<and>
     e_run True sample_hash en en' \<and> en_main_pc en' = M_Done \<and> decided es = [job] \<and>
     flow_run no_rules es None = Inr ([FORWARD], conn)"
proof -
  obtain en reader job fp' where h: "launch (one_lane 1 10000) (\<lambda>_. None) no_rules 0 (sample_capture 1) = Inr en"
    "pcap_open True (sample_capture 1) closed_reader = (True, reader)" "raw_jobs (read_packets True reader) = [sample_raw 0]"
    "job_of True (sample_raw 0) = Inr (Some job)"
    "processPacket 0 no_rules job (fp_start (new_fast_path 0)) = Inr fp'" "fp_output fp' = [(job, FORWARD)]"
    using lossy_sample by blast
  obtain en' where s: "schedule True sample_hash (lossy_schedule 0) en = Some en'" and done_: "en_main_pc en' = M_Done"
    and out: "fp_output (en_fps en' ! 0) = [(job, FORWARD)]"
    using lossy_run [OF _ _ _ _ h, of sample_hash] by (auto simp: one_lane_def)
  have "file_jobs True (sample_capture 1) = [job]" using h by (simp add: file_jobs_def jobs_def made_def)
  then obtain es where "decided es = [job]" "\<exists>conn. flow_run no_rules es None = Inr ([FORWARD], conn)"
    using engine_refines_flow [OF _ _ _ _ _ h(1) schedule_steady [OF s] done_, where L = 1 and F = 1 and i = 0 and key = "pj_flow_key job"] out
    by (auto simp: one_lane_def route_def own_def of_flow_def)
  with h(1) schedule_run [OF s] done_ show ?thesis by blast
qed

end
