(* ===== verification/Output_File.thy ===== *)
theory Output_File
  imports Shutdown
begin

text \<open>
  What the output file of \<open>src/dpi_engine.cpp\<close> holds under every interleaving of the threads: the header,
  and the records of forwarded packets, which the reader gets back unless the input capture is byte-swapped.
  Every packet the engine counts as forwarded is in the file, in
  the output queue or in the hands of a fast path, once.
\<close>

section \<open>The accounts of the output side\<close>

definition stamped_job :: "PacketJob \<Rightarrow> stamped" where
  "stamped_job job = (pj_ts_sec job, pj_ts_usec job, pj_data job)"

definition forwarded_jobs :: "Engine \<Rightarrow> PacketJob list" where
  "forwarded_jobs en = map fst (filter (\<lambda>(_, a). a \<noteq> DROP) (decisions en))"

fun fp_in_hand :: "fp_pc \<Rightarrow> PacketJob multiset" where
  "fp_in_hand (FP_Output job _) = {#job#}"
| "fp_in_hand _ = {#}"

text \<open>The header the reader writes when it has opened the file.\<close>

definition file_header :: "bool \<Rightarrow> bytes option \<Rightarrow> bytes" where
  "file_header le input =
     (case pcap_open le input closed_reader of
        (True, reader) \<Rightarrow> store_global_header le (pr_global_header reader)
      | (False, _) \<Rightarrow> [])"

fun header_written :: "bool \<Rightarrow> bytes option \<Rightarrow> reader_pc \<Rightarrow> bytes" where
  "header_written le input (Rd_Open _) = []"
| "header_written le input _ = file_header le input"

definition on_the_way :: "Engine \<Rightarrow> PacketJob multiset" where
  "on_the_way en = mset (tq_items (en_output_queue en)) + sum_list (map fp_in_hand (en_fp_pcs en))"

definition output_inv :: "bool \<Rightarrow> bytes option \<Rightarrow> Engine \<Rightarrow> bool" where
  "output_inv le input en \<longleftrightarrow>
     (\<forall>c. en_reader_pc en = Rd_Open c \<longrightarrow> c = input) \<and>
     (stage (en_main_pc en) < 5 \<longrightarrow> \<not> tq_shutdown (en_output_queue en)) \<and>
     (\<exists>written. en_output_file en =
          Some (header_written le input (en_reader_pc en) @ output_body le (map stamped_job written)) \<and>
        mset written + on_the_way en = mset (forwarded_jobs en))"

lemma output_body_simps [simp]: "output_body le [] = []" "output_body le (xs @ ys) = output_body le xs @ output_body le ys"
  by (simp_all add: output_body_def)

text \<open>A step that does not touch the output side, or only makes the reader go on.\<close>

lemma same_output:
  assumes "output_inv le input en" and "en_output_file en' = en_output_file en"
    and "en_output_queue en' = en_output_queue en" and "en_fp_pcs en' = en_fp_pcs en"
    and "map fp_output (en_fps en') = map fp_output (en_fps en)"
    and "stage (en_main_pc en') < 5 \<longrightarrow> stage (en_main_pc en) < 5"
    and "en_reader_pc en' = en_reader_pc en \<or>
      header_written le input (en_reader_pc en') = header_written le input (en_reader_pc en) \<and>
      (\<forall>c. en_reader_pc en' \<noteq> Rd_Open c)"
  shows "output_inv le input en'"
  using assms by (auto simp: output_inv_def on_the_way_def forwarded_jobs_def decisions_def)

text \<open>While the reader has not opened the file, no packet has been decided.\<close>

lemma sum_list_empty: "sum_list (map f xs) = {#} \<Longrightarrow> x \<in> set xs \<Longrightarrow> f x = {#}"
  by (induction xs) auto

lemma nothing_decided:
  assumes "pipeline_inv le sh L F (mset (file_jobs le input)) en" and "en_reader_pc en = Rd_Open input"
  shows "forwarded_jobs en = []"
proof -
  have "mset (jobs le (left_to_read le (en_reader_pc en))) = mset (file_jobs le input)"
    unfolding assms(2) file_jobs_def ..
  then have "sum_list (map at_fp (en_fps en)) = {#}"
    using assms(1) by (simp add: pipeline_inv_def in_system_def)
  then have "at_fp fp = {#}" if "fp \<in> set (en_fps en)" for fp
    using that by (rule sum_list_empty)
  then have "fp_output fp = []" if "fp \<in> set (en_fps en)" for fp
    using that by (fastforce simp: at_fp_def)
  then have "decisions en = []" by (simp add: decisions_def)
  then show ?thesis by (simp add: forwarded_jobs_def)
qed

lemma reader_output:
  assumes "output_inv le input en" and "pipeline_inv le sh L F (mset (file_jobs le input)) en"
    and "reader_step le en = Some en'"
  shows "output_inv le input en'"
proof (cases "en_reader_pc en")
  case (Rd_Open c)
  then have c: "c = input" using assms(1) by (simp add: output_inv_def)
  obtain written where w: "en_output_file en = Some (output_body le (map stamped_job written))"
    "mset written + on_the_way en = mset (forwarded_jobs en)"
    using assms(1) Rd_Open by (auto simp: output_inv_def)
  have none: "forwarded_jobs en = []" using nothing_decided [OF assms(2)] Rd_Open c by simp
  then have "written = []" and way: "on_the_way en = {#}" using w(2) by simp_all
  then have "en_output_file en' = Some (file_header le input) \<and> (\<forall>c. en_reader_pc en' \<noteq> Rd_Open c) \<and>
      header_written le input (en_reader_pc en') = file_header le input \<and> en_fps en' = en_fps en \<and>
      en_fp_pcs en' = en_fp_pcs en \<and> en_output_queue en' = en_output_queue en \<and> en_main_pc en' = en_main_pc en"
    using assms(3) w(1) Rd_Open c
    by (auto simp: reader_step_def writeOutputHeader_def file_header_def split: prod.splits bool.splits)
  then show ?thesis
    using assms(1) way none
    by (auto simp: output_inv_def on_the_way_def forwarded_jobs_def decisions_def intro!: exI [of _ "[]"])
next
  case (Rd_Loop rjs)
  then show ?thesis
    using assms(3) by (intro same_output [OF assms(1)]) (cases rjs; auto simp: reader_step_def)+
next
  case (Rd_Push rj rjs)
  then show ?thesis
    using assms(3) by (intro same_output [OF assms(1)]) (auto simp: reader_step_def split: option.splits)
qed (use assms(3) in \<open>simp add: reader_step_def\<close>)

lemma forwarded_update:
  assumes "i < length fps" and "fp_output fp = fp_output (fps ! i) @ [(job, a)]"
  shows "mset (map fst (filter (\<lambda>(_, a). a \<noteq> DROP) (concat (map fp_output (fps[i := fp]))))) =
    mset (map fst (filter (\<lambda>(_, a). a \<noteq> DROP) (concat (map fp_output fps)))) + (if a = DROP then {#} else {#job#})"
  using assms
proof (induction fps arbitrary: i)
  case (Cons x fps)
  then show ?case by (cases i) auto
qed simp

lemma fp_output_inv:
  assumes "output_inv le input en" and "pipeline_inv le sh L F J en" and "i < length (en_fps en)"
    and "fp_step now i en = Inr (Some en')"
  shows "output_inv le input en'"
proof -
  note parts = assms(2) [unfolded pipeline_inv_def]
  have len: "i < length (en_fp_pcs en)" using parts assms(3) by (simp add: wired_def)
  note hands = sum_list_map_update_eq [OF len, where f = fp_in_hand]
  show ?thesis
  proof (cases "en_fp_pcs en ! i")
    case (FP_Loop t)
    then obtain rm go_on fp t' where r: "fp_round now rm (en_fps en ! i, t) = Inr (go_on, fp, t')"
      and en': "en' = fp_publish i (go_on, fp, t') en"
      using assms(4) by (auto simp: fp_step_def rbind_Inr_iff split: option.splits)
    have acc: "accounted (en_fps en ! i)" using parts assms(3) by (auto simp: downstream_def)
    show ?thesis
    proof (cases rule: fp_round_calls [OF acc r])
      case 1
      have "sum_list (map fp_in_hand ((en_fp_pcs en)[i := p])) = sum_list (map fp_in_hand (en_fp_pcs en))"
        if "fp_in_hand p = {#}" for p
        using hands [of p "{#}" "{#}"] that FP_Loop by simp
      then show ?thesis
        using assms(1) 1(1)
        by (auto simp: output_inv_def en' fp_publish_def on_the_way_def forwarded_jobs_def decisions_def map_update_same)
    next
      case (2 job a)
      have out: "en_output_file en \<noteq> None" using assms(1) by (auto simp: output_inv_def)
      define p where "p = (if a = DROP then FP_Loop t' else FP_Output job t')"
      have fields: "en_output_file en' = en_output_file en" "en_output_queue en' = en_output_queue en"
        "en_main_pc en' = en_main_pc en" "en_reader_pc en' = en_reader_pc en" "en_fps en' = (en_fps en)[i := fp]"
        "en_fp_pcs en' = (en_fp_pcs en)[i := p]"
        using 2(1) out by (simp_all add: en' fp_publish_def handleOutput_def Let_def p_def)
      have "mset (forwarded_jobs en') = mset (forwarded_jobs en) + fp_in_hand p"
        using forwarded_update [OF assms(3) 2(1)] by (simp add: forwarded_jobs_def decisions_def fields p_def)
      moreover have "on_the_way en' = on_the_way en + fp_in_hand p"
        using hands [of p "{#}" "fp_in_hand p"] FP_Loop by (simp add: on_the_way_def fields ac_simps)
      ultimately show ?thesis
        using assms(1) by (auto simp: output_inv_def fields ac_simps)
    qed
  next
    case (FP_Output job t)
    then obtain ok q where push: "tsq_push job (en_output_queue en) = Some (ok, q)"
      and en': "en' = en\<lparr>en_output_queue := q, en_fp_pcs := (en_fp_pcs en)[i := FP_Loop t]\<rparr>"
      using assms(4) by (auto simp: fp_step_def split: option.splits)
    have st: "stage (en_main_pc en) < 5"
    proof (rule ccontr)
      assume "\<not> stage (en_main_pc en) < 5"
      then have "over 4 (en_main_pc en) i" by (simp add: over_def)
      then show False using parts assms(3) FP_Output by (auto simp: downstream_def)
    qed
    then have q: "tq_items q = tq_items (en_output_queue en) @ [job]" "\<not> tq_shutdown q"
      using push_open [OF push] assms(1) by (auto simp: output_inv_def)
    have "sum_list (map fp_in_hand ((en_fp_pcs en)[i := FP_Loop t])) + {#job#} = sum_list (map fp_in_hand (en_fp_pcs en))"
      using hands [of "FP_Loop t" "{#job#}" "{#}"] FP_Output by simp
    then have "on_the_way en' = on_the_way en" by (simp add: on_the_way_def en' q(1) ac_simps)
    then show ?thesis using assms(1) q(2) by (auto simp: output_inv_def en' forwarded_jobs_def decisions_def)
  qed (use assms(4) in \<open>simp add: fp_step_def\<close>)
qed

lemma writer_output:
  assumes "output_inv le input en" and "output_step le en = Some en'"
  shows "output_inv le input en'"
proof (cases "en_output_pc en")
  case Out_Pop
  obtain written where w: "en_output_file en =
      Some (header_written le input (en_reader_pc en) @ output_body le (map stamped_job written))"
    "mset written + on_the_way en = mset (forwarded_jobs en)"
    using assms(1) by (auto simp: output_inv_def)
  show ?thesis
  proof (cases "en_output_queue en" rule: pop_cases)
    case 1
    then show ?thesis
      using assms(2) Out_Pop by (intro same_output [OF assms(1)]) (auto simp: output_step_def Let_def)
  next
    case (2 job q)
    then have en': "en' = writeOutputPacket le job (en\<lparr>en_output_queue := q, en_output_pc := Out_Test\<rparr>)"
      using assms(2) Out_Pop by (simp add: output_step_def Let_def)
    have "en_output_file en' =
        Some (header_written le input (en_reader_pc en') @ output_body le (map stamped_job (written @ [job])))"
      using w(1) by (simp add: en' writeOutputPacket_def output_body_def stamped_job_def)
    moreover have "mset (written @ [job]) + on_the_way en' = mset (forwarded_jobs en')"
      using w(2) 2(2) by (simp add: en' writeOutputPacket_def on_the_way_def forwarded_jobs_def decisions_def w(1))
    moreover have "en_reader_pc en' = en_reader_pc en" "en_main_pc en' = en_main_pc en"
      "tq_shutdown (en_output_queue en') = tq_shutdown (en_output_queue en)"
      using 2(3) w(1) by (simp_all add: en' writeOutputPacket_def)
    moreover have "\<forall>c. en_reader_pc en = Rd_Open c \<longrightarrow> c = input"
      "stage (en_main_pc en) < 5 \<longrightarrow> \<not> tq_shutdown (en_output_queue en)"
      using assms(1) by (simp_all add: output_inv_def)
    ultimately show ?thesis unfolding output_inv_def by metis
  qed
qed (use assms in \<open>auto simp: output_step_def intro: same_output\<close>)

lemma main_output:
  assumes "output_inv le input en" and "main_step en = Some en'"
  shows "output_inv le input en'"
proof (cases "en_main_pc en = M_ShutdownOutput")
  case True
  then show ?thesis
    using assms by (auto simp: main_step_def output_inv_def on_the_way_def forwarded_jobs_def decisions_def)
next
  case False
  then show ?thesis
    using assms(2)
    by (intro same_output [OF assms(1)]) (auto simp: main_step_def map_update_same split: main_pc.splits if_splits)
qed

lemma step_output:
  assumes "e_step le sh en en'" and "output_inv le input en"
    and "pipeline_inv le sh L F (mset (file_jobs le input)) en"
  shows "output_inv le input en'"
  using assms(1)
proof cases
  case reader then show ?thesis using reader_output assms(2,3) by blast
next
  case (parser i)
  then show ?thesis
    by (intro same_output [OF assms(2)])
      (auto simp: parser_step_def rbind_Inr_iff split: pw_pc.splits option.splits)
next
  case (lb i)
  then show ?thesis
    by (intro same_output [OF assms(2)])
      (auto simp: lb_step_def rbind_Inr_iff Let_def map_update_same split: lb_pc.splits option.splits)
next
  case fp then show ?thesis using fp_output_inv assms(2,3) by blast
next
  case writer then show ?thesis using writer_output assms(2) by blast
next
  case main then show ?thesis using main_output assms(2) by blast
qed (auto intro: same_output [OF assms(2)])

lemma run_output:
  assumes "e_run le sh en en'" and "output_inv le input en"
    and "pipeline_inv le sh L F (mset (file_jobs le input)) en"
  shows "output_inv le input en'"
proof -
  have "output_inv le input en' \<and> pipeline_inv le sh L F (mset (file_jobs le input)) en'"
    using assms
  proof (induction)
    case (step en1 en2)
    then show ?case using step_output [OF step.hyps(2)] step_inv [OF step.hyps(2)] by blast
  qed simp
  then show ?thesis by simp
qed

section \<open>What comes out\<close>

lemma launch_output:
  assumes "num_load_balancers config = int L" and "fps_per_lb config = int F"
    and "launch config files rm now input = Inr en"
  shows "output_inv le input en"
proof -
  note en = launch_state [OF assms]
  have "sum_list (map fp_in_hand (replicate n (FP_Loop now))) = {#}" for n by (induction n) auto
  moreover have "concat (map fp_output (fresh_fps n)) = []" for n
    by (simp add: fresh_fps_def fp_start_def new_fast_path_def)
  ultimately show ?thesis
    by (auto simp: output_inv_def en new_engine_def new_queue_def on_the_way_def forwarded_jobs_def decisions_def
        intro!: exI [of _ "[]"])
qed

lemma made_carries:
  assumes "job \<in> set (made le rj)"
  shows "stamped_job job = (rj_ts_sec rj, rj_ts_usec rj, rj_data rj)"
proof -
  have "job_of le rj = Inr (Some job)" using assms by (auto simp: made_def split: sum.splits option.splits)
  then obtain pk where "createPacketJob (raw_packet rj) pk (rj_packet_id rj) = Inr job"
    by (auto simp: job_of_def rbind_Inr_iff split: if_splits)
  from createPacketJob_carries(1) [OF this] show ?thesis by (simp add: carries_def stamped_job_def raw_packet_def)
qed

lemma no_hands: "\<forall>pc \<in> set pcs. pc = FP_Ended \<Longrightarrow> sum_list (map fp_in_hand pcs) = {#}"
  by (induction pcs) auto

lemma in_enumerate: "(n, x) \<in> set (enumerate i xs) \<Longrightarrow> x \<in> set xs"
  by (metis image_eqI map_snd_enumerate set_map snd_conv)

lemma file_jobs_fit:
  assumes "pcap_open le input closed_reader = (True, reader)" and "job \<in> set (file_jobs le input)"
  shows "fits (snaplen (pr_global_header reader)) (stamped_job job)"
proof -
  obtain rj where "rj \<in> set (raw_jobs (read_packets le reader))" "job \<in> set (made le rj)"
    using assms by (auto simp: file_jobs_def jobs_def)
  moreover from this(1) obtain p where "p \<in> set (read_packets le reader)" "rj_data rj = rp_data p"
    by (auto simp: raw_jobs_def dest: in_enumerate)
  ultimately show ?thesis using read_packets_fit made_carries by (fastforce simp: fits_def)
qed

lemma file_jobs_nonempty:
  assumes "job \<in> set (file_jobs le input)"
  shows "pj_data job \<noteq> []"
proof -
  obtain rj where m: "job \<in> set (made le rj)" using assms by (auto simp: file_jobs_def jobs_def)
  then have "job_of le rj = Inr (Some job)" by (auto simp: made_def split: sum.splits option.splits)
  then obtain pk where "parse le (raw_packet rj) = Inr (True, pk)"
    by (auto simp: job_of_def rbind_Inr_iff split: if_splits)
  from parse_nonempty [OF this] made_carries [OF m] show ?thesis by (simp add: raw_packet_def stamped_job_def)
qed

lemma decided_were_read:
  assumes "pipeline_inv le sh L F J en"
  shows "mset (map fst (decisions en)) \<subseteq># J"
proof -
  have "mset (map fst (concat (map fp_output fps))) \<subseteq># sum_list (map at_fp fps)" for fps
  proof (induction fps)
    case (Cons fp fps)
    have "mset (map fst (fp_output fp)) \<subseteq># at_fp fp" by (simp add: at_fp_def)
    then show ?case using subset_mset.add_mono [OF _ Cons.IH] by simp
  qed simp
  moreover have "sum_list (map at_fp (en_fps en)) \<subseteq># J"
    using assms by (auto simp: pipeline_inv_def in_system_def)
  ultimately show ?thesis by (auto simp: decisions_def intro: subset_mset.order_trans)
qed

lemma forwarded_were_decided: "mset (forwarded_jobs en) \<subseteq># mset (map fst (decisions en))"
  by (simp add: forwarded_jobs_def image_mset_subseteq_mono)

text \<open>
  C5. The output file of a finished run, under every interleaving. It is the global header of the input capture
  and the records of packets which, with their times and bytes, are packets of the input that the engine accepted
  and forwarded, none of them more often than it was forwarded; what was forwarded and is not in the file is still
  in the output queue. When the input capture is in the byte order of the machine, the program's own reader opens
  the file and reads these packets to the end. When the input is byte-swapped it is not readable: the header keeps
  the magic number of the input, the records are in the order of the machine, and the reader opens the file but
  gets no packet out of it.
\<close>

theorem output_file_holds_forwarded_packets:
  assumes "num_load_balancers config = int L" and "fps_per_lb config = int F" and "0 < L" and "0 < F"
    and "launch config files rm now input = Inr en" and "e_run le sh en en'" and "en_main_pc en' = M_Done"
    and "pcap_open le input closed_reader = (True, reader)"
  shows "\<exists>written reader'. en_output_file en' =
      Some (store_global_header le (pr_global_header reader) @ output_body le (map stamped_job written)) \<and>
    pcap_open le (en_output_file en') closed_reader = (True, reader') \<and>
    read_packets le reader' =
      (if pr_needs_byte_swap reader then [] else map (\<lambda>job. raw_of (stamped_job job)) written) \<and>
    mset written + mset (tq_items (en_output_queue en')) = mset (forwarded_jobs en') \<and>
    mset (forwarded_jobs en') \<subseteq># mset (file_jobs le input)"
proof -
  note start = launch_inv [OF assms(1-5)]
  have inv: "pipeline_inv le sh L F (mset (file_jobs le input)) en'" by (rule run_inv [OF assms(6) start])
  have "output_inv le input en'" by (rule run_output [OF assms(6) launch_output [OF assms(1,2,5)] start])
  then obtain written where w: "en_output_file en' =
      Some (header_written le input (en_reader_pc en') @ output_body le (map stamped_job written))"
    and acc: "mset written + on_the_way en' = mset (forwarded_jobs en')"
    by (auto simp: output_inv_def)
  have "en_reader_pc en' = Rd_Done" using inv assms(7) by (simp add: pipeline_inv_def upstream_def)
  then have out: "en_output_file en' =
      Some (store_global_header le (pr_global_header reader) @ output_body le (map stamped_job written))"
    using w assms(8) by (simp add: file_header_def)
  have "\<forall>pc \<in> set (en_fp_pcs en'). pc = FP_Ended"
    using inv assms(7) by (auto simp: pipeline_inv_def downstream_def wired_def in_set_conv_nth)
  then have "sum_list (map fp_in_hand (en_fp_pcs en')) = {#}" by (rule no_hands)
  then have way: "mset written + mset (tq_items (en_output_queue en')) = mset (forwarded_jobs en')"
    using acc by (simp add: on_the_way_def)
  have fwd: "mset (forwarded_jobs en') \<subseteq># mset (file_jobs le input)"
    using forwarded_were_decided decided_were_read [OF inv] by (rule subset_mset.order_trans)
  have "mset written \<subseteq># mset (file_jobs le input)"
    using way fwd by (metis mset_subset_eq_add_left subset_mset.order_trans)
  then have from_file: "job \<in> set (file_jobs le input)" if "job \<in> set written" for job
    using that by (auto dest: mset_subset_eqD simp flip: set_mset_mset)
  have "\<forall>p \<in> set (map stamped_job written). fits (snaplen (pr_global_header reader)) p \<and> snd (snd p) \<noteq> []"
    using file_jobs_fit [OF assms(8) from_file] file_jobs_nonempty [OF from_file] by (auto simp: stamped_job_def)
  from output_read_back [OF assms(8) this, of closed_reader] obtain reader' where
    "pcap_open le (en_output_file en') closed_reader = (True, reader')"
    "read_packets le reader' = (if pr_needs_byte_swap reader then [] else map raw_of (map stamped_job written))"
    unfolding out by blast
  then show ?thesis using way fwd out by (intro exI [of _ written] exI [of _ reader']) (simp add: comp_def)
qed

text \<open>A run that writes its one packet: the output thread takes it before the shutdown begins.\<close>

definition writing_schedule :: "nat \<Rightarrow> thread list" where
  "writing_schedule now =
     [T_Reader, T_Reader, T_Reader, T_Reader, T_Parser 0, T_Parser 0, T_LB 0, T_LB 0, T_Output, T_FP now 0, T_FP now 0,
      T_Output, T_Main, T_Main, T_Parser 0, T_Main, T_Main, T_Main, T_Main, T_LB 0, T_Main, T_Main, T_Main,
      T_FP now 0, T_Main, T_Main, T_Main, T_Output, T_Main]"

lemma writing_run:
  fixes fp' :: FastPath
  assumes "num_load_balancers config = 1" and "fps_per_lb config = 1" and "num_parser_workers config = 1"
    and "0 < queue_size config"
    and "launch config rc rm now input = Inr en"
    and "pcap_open le input closed_reader = (True, reader)" and "raw_jobs (read_packets le reader) = [rj]"
    and "job_of le rj = Inr (Some job)"
    and "processPacket now rm job (fp_start (new_fast_path 0)) = Inr fp'" and "fp_output fp' = [(job, FORWARD)]"
  shows "\<exists>en'. schedule le sh (writing_schedule now) en = Some en' \<and> en_main_pc en' = M_Done \<and>
    tq_items (en_output_queue en') = [] \<and> decisions en' = [(job, FORWARD)]"
proof -
  note start = lane_launch [OF assms(1-3,5)] and r1 = lane_first_round [OF assms(9)]
  note r2 = lane_last_round [OF r1(2,3), of now rm]
  show ?thesis
    unfolding start writing_schedule_def using assms(4,6-8,10) r1 r2
    by (simp add: lane_steps writeOutputPacket_def decisions_def fp_stop_def)
qed

lemma sample_native:
  assumes "pcap_open True (sample_capture n) closed_reader = (True, reader)"
  shows "\<not> pr_needs_byte_swap reader"
  using assms
  by (auto simp: sample_capture_def pcap_open_def Let_def load_store_global_header pcap_close_def sample_header_def
      PCAP_MAGIC_NATIVE_def PCAP_MAGIC_SWAPPED_def)

lemma output_file_holds_forwarded_packets_witness:
  "\<exists>en en' job reader'. launch (one_lane 1 10000) (\<lambda>_. None) no_rules 0 (sample_capture 1) = Inr en \<and>
     e_run True sample_hash en en' \<and> en_main_pc en' = M_Done \<and>
     pcap_open True (en_output_file en') closed_reader = (True, reader') \<and>
     read_packets True reader' = [raw_of (stamped_job job)] \<and> forwarded_jobs en' = [job]"
proof -
  obtain en reader job fp' where h: "launch (one_lane 1 10000) (\<lambda>_. None) no_rules 0 (sample_capture 1) = Inr en"
    "pcap_open True (sample_capture 1) closed_reader = (True, reader)" "raw_jobs (read_packets True reader) = [sample_raw 0]"
    "job_of True (sample_raw 0) = Inr (Some job)"
    "processPacket 0 no_rules job (fp_start (new_fast_path 0)) = Inr fp'" "fp_output fp' = [(job, FORWARD)]"
    using lossy_sample by blast
  obtain en' where "schedule True sample_hash (writing_schedule 0) en = Some en'" and done_: "en_main_pc en' = M_Done"
    and q: "tq_items (en_output_queue en') = []" and d: "decisions en' = [(job, FORWARD)]"
    using writing_run [OF _ _ _ _ h, of sample_hash] by (auto simp: one_lane_def)
  then have run: "e_run True sample_hash en en'" by (blast intro: schedule_run)
  have fwd: "forwarded_jobs en' = [job]" by (simp add: forwarded_jobs_def d)
  have cfg: "num_load_balancers (one_lane 1 10000) = int 1" "fps_per_lb (one_lane 1 10000) = int 1"
    by (simp_all add: one_lane_def)
  obtain written reader' where w: "pcap_open True (en_output_file en') closed_reader = (True, reader')"
    "read_packets True reader' = map (\<lambda>job. raw_of (stamped_job job)) written"
    "mset written + mset (tq_items (en_output_queue en')) = mset (forwarded_jobs en')"
    using output_file_holds_forwarded_packets [OF cfg _ _ h(1) run done_ h(2)] sample_native [OF h(2)] by auto
  have "written = [job]" using w(3) by (simp add: q fwd)
  then show ?thesis using h(1) run done_ w(1,2) fwd by (intro exI conjI) (assumption | simp)+
qed

end
