(* ===== verification/Progress.thy ===== *)
theory Progress
  imports Output_File
begin

text \<open>
  The engine of \<open>src/dpi_engine.cpp\<close> can always finish when its output queue has room for every accepted
  packet of the file: from every state it can reach there is a continuation in which the main thread
  ends. The proof gives every state a number that some thread can always make smaller.
\<close>

section \<open>More that every step keeps\<close>

fun stopped :: "main_pc \<Rightarrow> Engine \<Rightarrow> bool" where
  "stopped M_Idle en = False"
| "stopped (M_JoinParser i) en = (i < length (en_parsers en) \<and> \<not> pw_running (en_parsers en ! i))"
| "stopped (M_JoinLB i) en = (i < length (en_lbs en) \<and> \<not> lb_running (en_lbs en ! i))"
| "stopped (M_JoinFP i) en = (i < length (en_fps en) \<and> \<not> fp_running (en_fps en ! i))"
| "stopped _ en = True"

definition capacities :: "nat \<Rightarrow> Engine \<Rightarrow> bool" where
  "capacities n en \<longleftrightarrow> tq_max_size (en_raw_packet_queue en) = n \<and> tq_max_size (en_output_queue en) = n \<and>
     (\<forall>i < length (en_lbs en). tq_max_size (lb_input_queue (en_lbs en ! i)) = 10000) \<and>
     (\<forall>i < length (en_fps en). tq_max_size (fp_input_queue (en_fps en ! i)) = 10000)"

definition ready :: "nat \<Rightarrow> Engine \<Rightarrow> bool" where
  "ready n en \<longleftrightarrow> en_rule_manager en \<noteq> None \<and> stopped (en_main_pc en) en \<and>
     (3 \<le> stage (en_main_pc en) \<longrightarrow> \<not> en_running en) \<and> capacities n en"

lemma push_max: "tsq_push x q = Some (ok, q') \<Longrightarrow> tq_max_size q' = tq_max_size q"
  by (auto simp: tsq_push_def split: if_splits)

lemma pop_max: "tsq_popWithTimeout q = (x, q') \<Longrightarrow> tq_max_size q' = tq_max_size q"
  by (auto simp: tsq_popWithTimeout_def take_front_def split: list.splits)

lemma shutdown_max [simp]: "tq_max_size (tsq_shutdown q) = tq_max_size q"
  by (simp add: tsq_shutdown_def)

lemma pw_take_keeps:
  "pw_take le sel w q = Inr (w', q') \<Longrightarrow> pw_running w' = pw_running w \<and> tq_max_size q' = tq_max_size q"
  by (auto simp: pw_take_def rbind_Inr_iff Let_def dest!: pop_max split: prod.splits option.splits if_splits)

lemma pw_put_keeps:
  "pw_put job w q = Some (w', q') \<Longrightarrow> pw_running w' = pw_running w \<and> tq_max_size q' = tq_max_size q"
  by (auto simp: pw_put_def dest!: push_max split: option.splits)

lemma lb_take_keeps:
  "lb_take sh lb = Inr lb' \<Longrightarrow>
    lb_running lb' = lb_running lb \<and> tq_max_size (lb_input_queue lb') = tq_max_size (lb_input_queue lb)"
  by (auto simp: lb_take_def rbind_Inr_iff Let_def dest!: pop_max split: prod.splits option.splits if_splits)

lemma lb_put_keeps:
  "lb_put f job lb q = Some (lb', q') \<Longrightarrow>
    lb_running lb' = lb_running lb \<and> lb_input_queue lb' = lb_input_queue lb \<and> tq_max_size q' = tq_max_size q"
  by (auto simp: lb_put_def dest!: push_max split: option.splits)

lemma processPacket_keeps:
  "processPacket now rm job fp = Inr fp' \<Longrightarrow> fp_running fp' = fp_running fp \<and> fp_input_queue fp' = fp_input_queue fp"
  by (auto simp: processPacket_def rbind_Inr_iff Let_def handleAction_def split: if_splits)

lemma fp_round_keeps:
  assumes "fp_round now rm (fp, t) = Inr (go_on, fp', t')"
  shows "fp_running fp' = fp_running fp \<and> tq_max_size (fp_input_queue fp') = tq_max_size (fp_input_queue fp)"
proof (cases "tsq_popWithTimeout (fp_input_queue fp)")
  case (Pair job_opt q)
  then show ?thesis
    using assms pop_max [OF Pair]
    by (cases job_opt) (auto simp: fp_round_def rbind_Inr_iff Let_def dest!: processPacket_keeps split: if_splits)
qed

lemma stop_keeps [simp]:
  "tq_max_size (lb_input_queue (lb_stop lb)) = tq_max_size (lb_input_queue lb)" "\<not> lb_running (lb_stop lb)"
  "tq_max_size (fp_input_queue (fp_stop fp)) = tq_max_size (fp_input_queue fp)" "\<not> fp_running (fp_stop fp)"
  by (simp_all add: lb_stop_def fp_stop_def)

lemma stopped_same:
  assumes "stopped m en" and "length (en_parsers en') = length (en_parsers en)" "length (en_lbs en') = length (en_lbs en)"
    "length (en_fps en') = length (en_fps en)"
    and "\<And>i. i < length (en_parsers en) \<Longrightarrow> pw_running (en_parsers en' ! i) = pw_running (en_parsers en ! i)"
    and "\<And>i. i < length (en_lbs en) \<Longrightarrow> lb_running (en_lbs en' ! i) = lb_running (en_lbs en ! i)"
    and "\<And>i. i < length (en_fps en) \<Longrightarrow> fp_running (en_fps en' ! i) = fp_running (en_fps en ! i)"
  shows "stopped m en'"
  using assms by (cases m) auto

lemma update_keeps: "f y = f (xs ! k) \<Longrightarrow> f (xs[k := y] ! i) = f (xs ! i)"
  by (cases "k < length xs"; cases "i = k") (simp_all add: list_update_beyond)

lemma queue_update_keeps [simp]:
  "lb_running (lbs[k := (lbs ! k)\<lparr>lb_input_queue := q\<rparr>] ! i) = lb_running (lbs ! i)"
  "tq_max_size q = tq_max_size (lb_input_queue (lbs ! k)) \<Longrightarrow>
    tq_max_size (lb_input_queue (lbs[k := (lbs ! k)\<lparr>lb_input_queue := q\<rparr>] ! i)) = tq_max_size (lb_input_queue (lbs ! i))"
  "fp_running (fps[k := (fps ! k)\<lparr>fp_input_queue := q\<rparr>] ! i) = fp_running (fps ! i)"
  "tq_max_size q = tq_max_size (fp_input_queue (fps ! k)) \<Longrightarrow>
    tq_max_size (fp_input_queue (fps[k := (fps ! k)\<lparr>fp_input_queue := q\<rparr>] ! i)) = tq_max_size (fp_input_queue (fps ! i))"
  by (rule update_keeps, simp)+

text \<open>A step of a thread other than the main thread: nothing but contents of queues and counters changes.\<close>

lemma ready_same:
  assumes "ready n en" and "en_rule_manager en' \<noteq> None" and "en_main_pc en' = en_main_pc en" "en_running en' = en_running en"
    and "tq_max_size (en_raw_packet_queue en') = tq_max_size (en_raw_packet_queue en)"
      "tq_max_size (en_output_queue en') = tq_max_size (en_output_queue en)"
    and "length (en_parsers en') = length (en_parsers en)" "length (en_lbs en') = length (en_lbs en)"
      "length (en_fps en') = length (en_fps en)"
    and "\<And>i. i < length (en_parsers en) \<Longrightarrow> pw_running (en_parsers en' ! i) = pw_running (en_parsers en ! i)"
    and "\<And>i. i < length (en_lbs en) \<Longrightarrow> lb_running (en_lbs en' ! i) = lb_running (en_lbs en ! i) \<and>
      tq_max_size (lb_input_queue (en_lbs en' ! i)) = tq_max_size (lb_input_queue (en_lbs en ! i))"
    and "\<And>i. i < length (en_fps en) \<Longrightarrow> fp_running (en_fps en' ! i) = fp_running (en_fps en ! i) \<and>
      tq_max_size (fp_input_queue (en_fps en' ! i)) = tq_max_size (fp_input_queue (en_fps en ! i))"
  shows "ready n en'"
proof -
  have "stopped (en_main_pc en') en'"
    unfolding assms(3) by (rule stopped_same [of _ en]) (use assms in \<open>simp_all add: ready_def\<close>)
  then show ?thesis using assms by (simp add: ready_def capacities_def)
qed

lemma main_ready:
  assumes "ready n en" and "main_step en = Some en'" and "upstream en"
  shows "ready n en'"
proof (cases "en_main_pc en")
  case (M_StopLB i)
  then show ?thesis
    using assms by (auto simp: main_step_def ready_def capacities_def nth_list_update split: if_splits)
next
  case (M_StopFP i)
  then show ?thesis
    using assms by (auto simp: main_step_def ready_def capacities_def nth_list_update split: if_splits)
next
  case M_Stop
  then show ?thesis
    using assms by (auto simp: main_step_def ready_def capacities_def upstream_def split: if_splits)
qed (use assms(1,2) in \<open>auto simp: main_step_def ready_def capacities_def split: if_splits\<close>)

lemma step_ready:
  assumes "e_step le sh en en'" and "ready n en" and "upstream en"
  shows "ready n en'"
proof -
  obtain rules where rm: "en_rule_manager en = Some rules" using assms(2) by (auto simp: ready_def)
  show ?thesis
    using assms(1)
  proof cases
  case reader
  then show ?thesis
    by (intro ready_same [OF assms(2)])
      (auto simp: reader_step_def writeOutputHeader_def rm dest: push_max
        split: reader_pc.splits list.splits option.splits prod.splits bool.splits)
next
  case (parser i)
  then show ?thesis
    by (intro ready_same [OF assms(2)])
      (auto simp: parser_step_def rbind_Inr_iff rm nth_list_update [of _ "en_parsers en"] dest!: pw_take_keeps pw_put_keeps
        split: pw_pc.splits option.splits if_splits)
next
  case (lb i)
  then show ?thesis
    by (intro ready_same [OF assms(2)])
      (auto simp: lb_step_def rbind_Inr_iff rm nth_list_update [of _ "en_lbs en"] Let_def dest!: lb_take_keeps lb_put_keeps
        split: lb_pc.splits option.splits if_splits)
next
  case (fp i now)
  show ?thesis
  proof (cases "en_fp_pcs en ! i")
    case (FP_Loop t)
    then obtain rm go_on fp t' where r: "fp_round now rm (en_fps en ! i, t) = Inr (go_on, fp, t')"
      and en': "en' = fp_publish i (go_on, fp, t') en"
      using fp by (auto simp: fp_step_def rbind_Inr_iff split: option.splits)
    have "en_fps en' = (en_fps en)[i := fp]" "en_rule_manager en' = en_rule_manager en" "en_main_pc en' = en_main_pc en"
      "en_running en' = en_running en" "en_raw_packet_queue en' = en_raw_packet_queue en"
      "en_output_queue en' = en_output_queue en" "en_parsers en' = en_parsers en" "en_lbs en' = en_lbs en"
      by (simp_all add: en' fp_publish_def Let_def split: list.split prod.split)
    then show ?thesis
      using fp(2) fp_round_keeps [OF r]
      by (intro ready_same [OF assms(2)]) (auto simp: rm nth_list_update)
  next
    case (FP_Output job t)
    then show ?thesis
      using assms(2) fp
      by (intro ready_same [OF assms(2)]) (auto simp: fp_step_def rm dest: push_max split: option.splits)
  qed (use fp in \<open>simp add: fp_step_def\<close>)
next
  case writer
  then show ?thesis
    by (intro ready_same [OF assms(2)])
      (auto simp: output_step_def writeOutputPacket_def rm Let_def dest: pop_max
        split: output_pc.splits option.splits prod.splits)
next
  case main
  then show ?thesis using main_ready assms(2,3) by blast
  qed (auto intro!: ready_same [OF assms(2)] simp: rm)
qed

section \<open>The work that is left\<close>

text \<open>
  A packet weighs less at every station, a thread that has not ended weighs one, and the main thread what it
  has left to do. The output queue only matters once the main thread waits for the output thread.
\<close>

fun reader_work :: "bool \<Rightarrow> reader_pc \<Rightarrow> nat" where
  "reader_work le (Rd_Loop rjs) = 15 * length rjs + 1"
| "reader_work le (Rd_Push rj rjs) = 15 * length rjs + 15"
| "reader_work le Rd_Done = 0"
| "reader_work le (Rd_Open content) = 15 * length (left_to_read le (Rd_Open content)) + 2"

fun parser_work :: "pw_pc \<Rightarrow> nat" where
  "parser_work PW_Pop = 1" | "parser_work (PW_Push l job) = 12" | "parser_work PW_Ended = 0"

fun lb_pc_work :: "lb_pc \<Rightarrow> nat" where
  "lb_pc_work At_Pop = 1" | "lb_pc_work (At_Push f job) = 9" | "lb_pc_work Ended = 0"

definition lb_work :: "LoadBalancer \<Rightarrow> nat" where
  "lb_work lb = 9 * length (tq_items (lb_input_queue lb)) + lb_pc_work (lb_pc lb)"

fun fp_pc_work :: "fp_pc \<Rightarrow> nat" where
  "fp_pc_work (FP_Loop t) = 1" | "fp_pc_work (FP_Output job t) = 6" | "fp_pc_work FP_Ended = 0"

definition fp_work :: "FastPath \<times> fp_pc \<Rightarrow> nat" where
  "fp_work = (\<lambda>(fp, pc). 6 * length (tq_items (fp_input_queue fp)) + fp_pc_work pc)"

fun out_work :: "nat \<Rightarrow> output_pc \<Rightarrow> nat" where
  "out_work k Out_Test = 2 * k + 1"
| "out_work k Out_Pop = (if k = 0 then 2 else 2 * k)"
| "out_work k Out_Ended = 2 * k"

fun main_work :: "nat \<Rightarrow> nat \<Rightarrow> nat \<Rightarrow> main_pc \<Rightarrow> nat" where
  "main_work np nl nf M_Done = 0"
| "main_work np nl nf M_Idle = 0"
| "main_work np nl nf M_JoinOutput = 1"
| "main_work np nl nf M_ShutdownOutput = 2"
| "main_work np nl nf (M_JoinFP i) = 2 + 2 * (nf - i)"
| "main_work np nl nf (M_StopFP i) = 3 + 2 * (nf - i)"
| "main_work np nl nf (M_JoinLB i) = 3 + 2 * nf + 2 * (nl - i)"
| "main_work np nl nf (M_StopLB i) = 4 + 2 * nf + 2 * (nl - i)"
| "main_work np nl nf M_Stop = 5 + 2 * nf + 2 * nl"
| "main_work np nl nf (M_JoinParser i) = 5 + 2 * nf + 2 * nl + 2 * (np - i)"
| "main_work np nl nf (M_StopParser i) = 6 + 2 * nf + 2 * nl + 2 * (np - i)"
| "main_work np nl nf M_JoinReader = 7 + 2 * nf + 2 * nl + 2 * np"

definition work :: "bool \<Rightarrow> Engine \<Rightarrow> nat" where
  "work le en = reader_work le (en_reader_pc en) + 12 * length (tq_items (en_raw_packet_queue en)) +
     sum_list (map (\<lambda>w. parser_work (pw_pc w)) (en_parsers en)) + sum_list (map lb_work (en_lbs en)) +
     sum_list (map fp_work (zip (en_fps en) (en_fp_pcs en))) +
     out_work (length (tq_items (en_output_queue en))) (en_output_pc en) +
     main_work (length (en_parsers en)) (length (en_lbs en)) (length (en_fps en)) (en_main_pc en)"

definition goes_on :: "bool \<Rightarrow> std_hash \<Rightarrow> Engine \<Rightarrow> bool" where
  "goes_on le sh en \<longleftrightarrow> (\<exists>en'. e_step le sh en en' \<and> (en_fault en' \<noteq> None \<or> work le en' < work le en))"

lemma out_work_push: "out_work (Suc k) pc \<le> out_work k pc + 2"
  by (cases pc) auto

lemma fps_update:
  assumes "i < length fps" and "length pcs = length fps"
  shows "sum_list (map fp_work (zip (fps[i := fp]) (pcs[i := pc]))) + fp_work (fps ! i, pcs ! i) =
    sum_list (map fp_work (zip fps pcs)) + fp_work (fp, pc)"
proof -
  have "zip (fps[i := fp]) (pcs[i := pc]) = (zip fps pcs)[i := (fp, pc)]" by (simp add: update_zip)
  then show ?thesis
    using sum_list_map_update [of i "zip fps pcs" fp_work "(fp, pc)"] assms by simp
qed

lemma size_nth_sum_list:
  fixes f :: "'a \<Rightarrow> 'b multiset"
  shows "i < length xs \<Longrightarrow> size (f (xs ! i)) \<le> size (sum_list (map f xs))"
proof (induction xs arbitrary: i)
  case (Cons x xs)
  then show ?case by (cases i) (auto intro: trans_le_add2)
qed simp

lemma queued_le:
  assumes "output_inv le input en" and "pipeline_inv le sh L F J en" and "i < length (en_fp_pcs en)"
  shows "length (tq_items (en_output_queue en)) + size (fp_in_hand (en_fp_pcs en ! i)) \<le> size J"
proof -
  obtain written where "mset written + on_the_way en = mset (forwarded_jobs en)"
    using assms(1) by (auto simp: output_inv_def)
  then have "size (on_the_way en) \<le> size (mset (forwarded_jobs en))" by (metis le_add2 size_union)
  also have "\<dots> \<le> size J"
    using subset_mset.order_trans [OF forwarded_were_decided decided_were_read [OF assms(2)]]
    by (rule size_mset_mono)
  finally show ?thesis
    using size_nth_sum_list [OF assms(3), of fp_in_hand] by (simp add: on_the_way_def)
qed

section \<open>Some thread can always go on\<close>

lemma goes_onI: "e_step le sh en en' \<Longrightarrow> work le en' < work le en \<Longrightarrow> goes_on le sh en"
  by (auto simp: goes_on_def)

lemma push_room:
  assumes "length (tq_items q) < tq_max_size q"
  obtains ok q' where "tsq_push x q = Some (ok, q')" "length (tq_items q') \<le> Suc (length (tq_items q))"
proof (cases "tq_shutdown q")
  case True
  then show thesis using that [of False q] assms by (simp add: tsq_push_def)
next
  case False
  then show thesis using that [of True "q\<lparr>tq_items := tq_items q @ [x]\<rparr>"] assms by (simp add: tsq_push_def)
qed

lemma out_work_mono: "k' \<le> Suc k \<Longrightarrow> out_work k' pc \<le> out_work k pc + 2"
  by (cases pc) auto

text \<open>The verdict of a fast path that waits to be queued for the output.\<close>

lemma output_goes_on:
  assumes "en_fault en = None" and "wired L F en" and "i < length (en_fps en)" and "en_fp_pcs en ! i = FP_Output job t"
    and "length (tq_items (en_output_queue en)) < tq_max_size (en_output_queue en)"
  shows "goes_on le sh en"
proof -
  obtain ok q where p: "tsq_push job (en_output_queue en) = Some (ok, q)"
    "length (tq_items q) \<le> Suc (length (tq_items (en_output_queue en)))"
    using push_room [OF assms(5)] by blast
  let ?en = "en\<lparr>en_output_queue := q, en_fp_pcs := (en_fp_pcs en)[i := FP_Loop t]\<rparr>"
  have "fp_step 0 i en = Inr (Some ?en)" by (simp add: fp_step_def assms(4) p(1))
  then have step: "e_step le sh en ?en" using assms(1,3) by (blast intro: e_step.fp)
  have len: "length (en_fp_pcs en) = length (en_fps en)" using assms(2) by (simp add: wired_def)
  have "work le ?en < work le en"
    using fps_update [OF assms(3) len, of "en_fps en ! i" "FP_Loop t"] out_work_mono [OF p(2), of "en_output_pc en"]
    by (simp add: work_def fp_work_def assms(4))
  with step show ?thesis by (rule goes_onI)
qed

text \<open>A job in the queue of a fast path.\<close>

lemma fp_publish_work:
  "\<exists>st pc. fp_publish i (go_on, fp, t) en =
     en\<lparr>en_fps := (en_fps en)[i := fp], en_stats := st, en_fp_pcs := (en_fp_pcs en)[i := pc]\<rparr> \<and> fp_pc_work pc \<le> 6"
proof (cases "drop (length (fp_output (en_fps en ! i))) (fp_output fp)")
  case Nil
  then show ?thesis
    by (intro exI [of _ "en_stats en"] exI [of _ "if go_on then FP_Loop t else FP_Ended"]) (simp add: fp_publish_def)
next
  case (Cons call calls)
  obtain job action where [simp]: "call = (job, action)" by (cases call)
  obtain st queued where h: "handleOutput action en = (st, queued)" by fastforce
  then show ?thesis
    using Cons
    by (intro exI [of _ st] exI [of _ "if queued then FP_Output job t else FP_Loop t"]) (simp add: fp_publish_def)
qed

lemma fp_goes_on:
  assumes "en_fault en = None" and "wired L F en" and "downstream en" and "en_rule_manager en \<noteq> None"
    and "i < length (en_fps en)" and "en_fp_pcs en ! i = FP_Loop t"
    and "tq_items (fp_input_queue (en_fps en ! i)) \<noteq> []"
  shows "goes_on le sh en"
proof -
  obtain rules where rm: "en_rule_manager en = Some rules" using assms(4) by blast
  show ?thesis
  proof (cases "fp_round 0 rules (en_fps en ! i, t)")
    case (Inl e)
    then have "fp_step 0 i en = Inl e" by (simp add: fp_step_def assms(6) rm)
    then have "e_step le sh en (en\<lparr>en_fault := Some e\<rparr>)" using assms(1,5) by (blast intro: e_step.fp_fault)
    then show ?thesis by (auto simp: goes_on_def)
  next
    case (Inr r)
    obtain go_on fp t' where r: "r = (go_on, fp, t')" by (cases r)
    obtain st pc where p: "fp_publish i r en =
        en\<lparr>en_fps := (en_fps en)[i := fp], en_stats := st, en_fp_pcs := (en_fp_pcs en)[i := pc]\<rparr>"
      "fp_pc_work pc \<le> 6"
      unfolding r using fp_publish_work by blast
    have acc: "accounted (en_fps en ! i)" using assms(3,5) by (simp add: downstream_def)
    have items: "length (tq_items (fp_input_queue (en_fps en ! i))) = Suc (length (tq_items (fp_input_queue fp)))"
      using assms(7) by (cases rule: fp_round_calls [OF acc Inr [unfolded r]]) simp_all
    have len: "length (en_fp_pcs en) = length (en_fps en)" using assms(2) by (simp add: wired_def)
    have "fp_step 0 i en = Inr (Some (fp_publish i r en))" by (simp add: fp_step_def assms(6) rm Inr)
    then have "e_step le sh en (fp_publish i r en)" using assms(1,5) by (blast intro: e_step.fp)
    moreover have "work le (fp_publish i r en) < work le en"
      using fps_update [OF assms(5) len, of fp pc] p(2) items unfolding p(1)
      by (simp add: work_def fp_work_def assms(6))
    ultimately show ?thesis by (rule goes_onI)
  qed
qed

text \<open>A job a load balancer holds, and a job in its queue.\<close>

lemma lb_put_goes_on:
  assumes "en_fault en = None" and "i < length (en_lbs en)" and "lb_pc (en_lbs en ! i) = At_Push g job"
    and f: "f = lb_fp_queues (en_lbs en ! i) ! g" "f < length (en_fps en)" "length (en_fp_pcs en) = length (en_fps en)"
    and "length (tq_items (fp_input_queue (en_fps en ! f))) < tq_max_size (fp_input_queue (en_fps en ! f))"
  shows "goes_on le sh en"
proof -
  obtain ok q where p: "tsq_push job (fp_input_queue (en_fps en ! f)) = Some (ok, q)"
    "length (tq_items q) \<le> Suc (length (tq_items (fp_input_queue (en_fps en ! f))))"
    using push_room [OF assms(7)] by blast
  then obtain lb where lb: "lb_put g job (en_lbs en ! i) (fp_input_queue (en_fps en ! f)) = Some (lb, q)"
    by (simp add: lb_put_def)
  let ?fp = "(en_fps en ! f)\<lparr>fp_input_queue := q\<rparr>"
  let ?en = "en\<lparr>en_lbs := (en_lbs en)[i := lb], en_fps := (en_fps en)[f := ?fp]\<rparr>"
  have "lb_step sh i en = Inr (Some ?en)" using lb by (simp add: lb_step_def assms(3) f(1) Let_def)
  then have step: "e_step le sh en ?en" using assms(1,2) by (blast intro: e_step.lb)
  have "work le ?en < work le en"
    using sum_list_map_update [OF assms(2), of lb_work lb] lb_put_effect [OF lb] p(2)
      fps_update [OF f(2,3), of ?fp "en_fp_pcs en ! f"]
    by (simp add: work_def lb_work_def fp_work_def assms(3))
  with step show ?thesis by (rule goes_onI)
qed

lemma lb_take_work:
  assumes "lb_take sh lb = Inr lb'" and "lb_pc lb = At_Pop" and "tq_items (lb_input_queue lb) \<noteq> [] \<or> \<not> lb_running lb"
  shows "lb_work lb' < lb_work lb"
proof (cases "lb_input_queue lb" rule: pop_cases)
  case 1
  then show ?thesis using assms by (auto simp: lb_take_def tsq_empty_def lb_work_def)
next
  case (2 job q)
  then show ?thesis
    using assms by (auto simp: lb_take_def rbind_Inr_iff lb_work_def)
qed

lemma lb_take_goes_on:
  assumes "en_fault en = None" and "i < length (en_lbs en)" and "lb_pc (en_lbs en ! i) = At_Pop"
    and "tq_items (lb_input_queue (en_lbs en ! i)) \<noteq> [] \<or> \<not> lb_running (en_lbs en ! i)"
  shows "goes_on le sh en"
proof (cases "lb_take sh (en_lbs en ! i)")
  case (Inl e)
  then have "e_step le sh en (en\<lparr>en_fault := Some e\<rparr>)"
    using assms(1-3) by (intro e_step.lb_fault [where i = i]) (simp_all add: lb_step_def)
  then show ?thesis by (auto simp: goes_on_def)
next
  case (Inr lb)
  then have "e_step le sh en (en\<lparr>en_lbs := (en_lbs en)[i := lb]\<rparr>)"
    using assms(1-3) by (intro e_step.lb [where i = i]) (simp_all add: lb_step_def)
  moreover have "work le (en\<lparr>en_lbs := (en_lbs en)[i := lb]\<rparr>) < work le en"
    using sum_list_map_update [OF assms(2), of lb_work lb] lb_take_work [OF Inr assms(3,4)]
    by (simp add: work_def)
  ultimately show ?thesis by (rule goes_onI)
qed

text \<open>A job a parser holds, and a packet in the raw queue.\<close>

lemma parser_put_goes_on:
  assumes "en_fault en = None" and "i < length (en_parsers en)" and "pw_pc (en_parsers en ! i) = PW_Push l job"
    and "l < length (en_lbs en)"
    and "length (tq_items (lb_input_queue (en_lbs en ! l))) < tq_max_size (lb_input_queue (en_lbs en ! l))"
  shows "goes_on le sh en"
proof -
  obtain ok q where p: "tsq_push job (lb_input_queue (en_lbs en ! l)) = Some (ok, q)"
    "length (tq_items q) \<le> Suc (length (tq_items (lb_input_queue (en_lbs en ! l))))"
    using push_room [OF assms(5)] by blast
  then obtain w where w: "pw_put job (en_parsers en ! i) (lb_input_queue (en_lbs en ! l)) = Some (w, q)"
    by (simp add: pw_put_def)
  let ?lb = "(en_lbs en ! l)\<lparr>lb_input_queue := q\<rparr>"
  let ?en = "en\<lparr>en_parsers := (en_parsers en)[i := w], en_lbs := (en_lbs en)[l := ?lb]\<rparr>"
  have "parser_step le sh i en = Inr (Some ?en)" using w by (simp add: parser_step_def assms(3))
  then have step: "e_step le sh en ?en" using assms(1,2) by (blast intro: e_step.parser)
  have "work le ?en < work le en"
    using sum_list_map_update [OF assms(2), of "\<lambda>w. parser_work (pw_pc w)" w] pw_put_effect(1) [OF w] p(2)
      sum_list_map_update [OF assms(4), of lb_work ?lb]
    by (simp add: work_def lb_work_def assms(3))
  with step show ?thesis by (rule goes_onI)
qed

lemma pw_take_work:
  assumes "pw_take le sel w q = Inr (w', q')" and "pw_pc w = PW_Pop" and "tq_items q \<noteq> [] \<or> \<not> pw_running w"
  shows "12 * length (tq_items q') + parser_work (pw_pc w') < 12 * length (tq_items q) + parser_work (pw_pc w)"
proof (cases q rule: pop_cases)
  case 1
  then show ?thesis using assms by (auto simp: pw_take_def tsq_empty_def)
next
  case (2 rj q'')
  then show ?thesis
    using assms by (auto simp: pw_take_def rbind_Inr_iff split: option.splits)
qed

lemma parser_take_goes_on:
  assumes "en_fault en = None" and "i < length (en_parsers en)" and "pw_pc (en_parsers en ! i) = PW_Pop"
    and "tq_items (en_raw_packet_queue en) \<noteq> [] \<or> \<not> pw_running (en_parsers en ! i)"
  shows "goes_on le sh en"
proof (cases "pw_take le (getLBForPacket sh (en_lbs en)) (en_parsers en ! i) (en_raw_packet_queue en)")
  case (Inl e)
  then have "e_step le sh en (en\<lparr>en_fault := Some e\<rparr>)"
    using assms(1-3) by (intro e_step.parser_fault [where i = i]) (simp_all add: parser_step_def)
  then show ?thesis by (auto simp: goes_on_def)
next
  case (Inr r)
  obtain w q where r: "r = (w, q)" by (cases r)
  let ?en = "en\<lparr>en_parsers := (en_parsers en)[i := w], en_raw_packet_queue := q\<rparr>"
  have "e_step le sh en ?en"
    using assms(1-3) Inr unfolding r by (intro e_step.parser [where i = i]) (simp_all add: parser_step_def)
  moreover have "work le ?en < work le en"
    using sum_list_map_update [OF assms(2), of "\<lambda>w. parser_work (pw_pc w)" w]
      pw_take_work [OF Inr [unfolded r] assms(3,4)]
    by (simp add: work_def)
  ultimately show ?thesis by (rule goes_onI)
qed

text \<open>The reader.\<close>

lemma reader_goes_on:
  assumes "en_fault en = None" and "en_reader_pc en \<noteq> Rd_Done"
    and "length (tq_items (en_raw_packet_queue en)) < tq_max_size (en_raw_packet_queue en)"
  shows "goes_on le sh en"
proof -
  have "\<exists>en'. reader_step le en = Some en' \<and> work le en' < work le en"
  proof (cases "en_reader_pc en")
    case (Rd_Open content)
    then show ?thesis
      by (auto simp: reader_step_def writeOutputHeader_def work_def split: prod.split bool.split option.split)
  next
    case (Rd_Loop rjs)
    then show ?thesis by (cases rjs) (simp_all add: reader_step_def work_def)
  next
    case (Rd_Push rj rjs)
    obtain ok q where "tsq_push rj (en_raw_packet_queue en) = Some (ok, q)"
      "length (tq_items q) \<le> Suc (length (tq_items (en_raw_packet_queue en)))"
      using push_room [OF assms(3)] by blast
    with Rd_Push show ?thesis by (simp add: reader_step_def work_def)
  qed (use assms(2) in simp)
  then show ?thesis using assms(1) by (blast intro: goes_onI e_step.reader)
qed

lemma lane_index:
  assumes "i < L" and "g < F"
  shows "i * F + g < L * (F :: nat)"
proof -
  have "i * F + g < (i + 1) * F" using assms(2) by simp
  also have "\<dots> \<le> L * F" using assms(1) by (intro mult_right_mono) simp_all
  finally show ?thesis .
qed

text \<open>A fast path that has been stopped and has nothing left.\<close>

lemma fp_ends:
  assumes "en_fault en = None" and "wired L F en" and "downstream en" and "en_rule_manager en \<noteq> None"
    and "i < length (en_fps en)" and "en_fp_pcs en ! i = FP_Loop t"
    and "tq_items (fp_input_queue (en_fps en ! i)) = []" and "\<not> fp_running (en_fps en ! i)"
  shows "goes_on le sh en"
proof -
  obtain rules where rm: "en_rule_manager en = Some rules" using assms(4) by blast
  show ?thesis
  proof (cases "fp_round 0 rules (en_fps en ! i, t)")
    case (Inl e)
    then have "fp_step 0 i en = Inl e" by (simp add: fp_step_def assms(6) rm)
    then have "e_step le sh en (en\<lparr>en_fault := Some e\<rparr>)" using assms(1,5) by (blast intro: e_step.fp_fault)
    then show ?thesis by (auto simp: goes_on_def)
  next
    case (Inr r)
    obtain go_on fp t' where r: "r = (go_on, fp, t')" by (cases r)
    have acc: "accounted (en_fps en ! i)" using assms(3,5) by (simp add: downstream_def)
    have "fp_output fp = fp_output (en_fps en ! i)" "tq_items (fp_input_queue fp) = []" "\<not> go_on"
      using assms(7,8) by (cases rule: fp_round_calls [OF acc Inr [unfolded r]]; simp)+
    then have p: "fp_publish i r en =
        en\<lparr>en_fps := (en_fps en)[i := fp], en_fp_pcs := (en_fp_pcs en)[i := FP_Ended]\<rparr>"
      by (simp add: r fp_publish_def)
    have len: "length (en_fp_pcs en) = length (en_fps en)" using assms(2) by (simp add: wired_def)
    have "fp_step 0 i en = Inr (Some (fp_publish i r en))" by (simp add: fp_step_def assms(6) rm Inr)
    then have "e_step le sh en (fp_publish i r en)" using assms(1,5) by (blast intro: e_step.fp)
    moreover have "work le (fp_publish i r en) < work le en"
      using fps_update [OF assms(5) len, of fp FP_Ended] \<open>tq_items (fp_input_queue fp) = []\<close> assms(7) unfolding p
      by (simp add: work_def fp_work_def assms(6))
    ultimately show ?thesis by (rule goes_onI)
  qed
qed

lemma writer_goes_on:
  assumes "en_fault en = None" and "\<not> en_running en" and "en_output_pc en \<noteq> Out_Ended"
  shows "goes_on le sh en"
proof -
  have "\<exists>en'. output_step le en = Some en' \<and> work le en' < work le en"
  proof (cases "en_output_pc en")
    case Out_Test
    then show ?thesis using assms(2) by (simp add: output_step_def tsq_empty_def work_def)
  next
    case Out_Pop
    then show ?thesis
      by (cases "en_output_queue en" rule: pop_cases)
        (simp_all add: output_step_def work_def writeOutputPacket_def Let_def split: option.split)
  qed (use assms(3) in simp)
  then show ?thesis using assms(1) by (blast intro: goes_onI e_step.writer)
qed

lemma main_goes_on:
  assumes "en_fault en = None" and "main_step en = Some en'" and "stopped (en_main_pc en) en"
    and "length (en_fp_pcs en) = length (en_fps en)"
  shows "goes_on le sh en"
proof -
  have p: "i < length (en_parsers en) \<Longrightarrow> sum_list (map (\<lambda>w. parser_work (pw_pc w))
      ((en_parsers en)[i := pw_stop (en_parsers en ! i)])) = sum_list (map (\<lambda>w. parser_work (pw_pc w)) (en_parsers en))" for i
    by (simp add: map_update_same)
  have l: "i < length (en_lbs en) \<Longrightarrow> sum_list (map lb_work ((en_lbs en)[i := lb_stop (en_lbs en ! i)])) =
      sum_list (map lb_work (en_lbs en))" for i
    by (simp add: map_update_same lb_work_def)
  have f: "i < length (en_fps en) \<Longrightarrow> sum_list (map fp_work (zip ((en_fps en)[i := fp_stop (en_fps en ! i)]) (en_fp_pcs en))) =
      sum_list (map fp_work (zip (en_fps en) (en_fp_pcs en)))" for i
    using fps_update [of i "en_fps en" "en_fp_pcs en" "fp_stop (en_fps en ! i)" "en_fp_pcs en ! i"] assms(4)
    by (simp add: fp_work_def)
  have "work le en' < work le en"
    using assms(2,3) by (cases "en_main_pc en") (auto simp: main_step_def work_def p l f split: if_splits)
  then show ?thesis using assms(1,2) by (blast intro: goes_onI e_step.main)
qed

text \<open>When nothing is under way, the main thread or the thread it waits for goes on.\<close>

lemma idle_goes_on:
  assumes inv: "pipeline_inv le sh L F J en" and "ready n en" and "en_fault en = None" and "en_main_pc en \<noteq> M_Done"
    and fps: "\<And>i. i < length (en_fps en) \<Longrightarrow> tq_items (fp_input_queue (en_fps en ! i)) = [] \<and>
      (\<forall>job t. en_fp_pcs en ! i \<noteq> FP_Output job t)"
    and lbs: "\<And>i. i < length (en_lbs en) \<Longrightarrow> (\<forall>g job. lb_pc (en_lbs en ! i) \<noteq> At_Push g job)"
    and parsers: "\<And>i. i < length (en_parsers en) \<Longrightarrow> (\<forall>l job. pw_pc (en_parsers en ! i) \<noteq> PW_Push l job)"
    and reader: "en_reader_pc en = Rd_Done"
  shows "goes_on le sh en"
proof (cases "main_step en")
  case (Some en')
  have "length (en_fp_pcs en) = length (en_fps en)" using inv by (simp add: pipeline_inv_def wired_def)
  with Some assms(2,3) show ?thesis by (intro main_goes_on) (simp_all add: ready_def)
next
  case None
  have w: "wired L F en" "downstream en" using inv by (simp_all add: pipeline_inv_def)
  have st: "stopped (en_main_pc en) en" and rm: "en_rule_manager en \<noteq> None" using assms(2) by (simp_all add: ready_def)
  show ?thesis
  proof (cases "en_main_pc en")
    case (M_JoinParser i)
    then show ?thesis
      using None st parsers [of i] assms(3)
      by (cases "pw_pc (en_parsers en ! i)") (auto simp: main_step_def intro: parser_take_goes_on)
  next
    case (M_JoinLB i)
    then show ?thesis
      using None st lbs [of i] assms(3)
      by (cases "lb_pc (en_lbs en ! i)") (auto simp: main_step_def intro: lb_take_goes_on)
  next
    case (M_JoinFP i)
    then show ?thesis
      using None st fps [of i] assms(3) rm
      by (cases "en_fp_pcs en ! i") (auto simp: main_step_def intro: fp_ends [OF _ w])
  next
    case M_JoinOutput
    then show ?thesis
      using None assms(2,3) by (intro writer_goes_on) (auto simp: main_step_def ready_def)
  qed (use None st reader assms(4) in \<open>auto simp: main_step_def\<close>)
qed

lemma engine_goes_on:
  assumes inv: "pipeline_inv le sh L F (mset (file_jobs le input)) en" and out: "output_inv le input en"
    and rdy: "ready n en" and "length (file_jobs le input) \<le> n" and "0 < n"
    and fault: "en_fault en = None" and "en_main_pc en \<noteq> M_Done"
  shows "goes_on le sh en"
proof -
  have w: "wired L F en" "upstream en" "midstream en" "downstream en" "routed sh L F en"
    using inv by (simp_all add: pipeline_inv_def)
  have len: "length (en_fp_pcs en) = length (en_fps en)" "length (en_lbs en) = L" "length (en_fps en) = L * F" "0 < L" "0 < F"
    using w(1) by (simp_all add: wired_def)
  have rm: "en_rule_manager en \<noteq> None" and cap: "capacities n en" using rdy by (simp_all add: ready_def)
  consider (verdict) i job t where "i < length (en_fps en)" "en_fp_pcs en ! i = FP_Output job t"
    | (fp_take) i where "i < length (en_fps en)" "\<forall>job t. en_fp_pcs en ! i \<noteq> FP_Output job t"
        "tq_items (fp_input_queue (en_fps en ! i)) \<noteq> []"
    | (lb_put) i g job where "i < length (en_lbs en)" "lb_pc (en_lbs en ! i) = At_Push g job"
        "\<And>k. k < length (en_fps en) \<Longrightarrow> tq_items (fp_input_queue (en_fps en ! k)) = []"
    | (lb_take) i where "i < length (en_lbs en)" "\<forall>g job. lb_pc (en_lbs en ! i) \<noteq> At_Push g job"
        "tq_items (lb_input_queue (en_lbs en ! i)) \<noteq> []"
    | (parser_put) i l job where "i < length (en_parsers en)" "pw_pc (en_parsers en ! i) = PW_Push l job"
        "\<And>k. k < length (en_lbs en) \<Longrightarrow> tq_items (lb_input_queue (en_lbs en ! k)) = []"
    | (parser_take) "\<forall>l job. pw_pc (en_parsers en ! 0) \<noteq> PW_Push l job" "tq_items (en_raw_packet_queue en) \<noteq> []"
    | (reader) "en_reader_pc en \<noteq> Rd_Done" "tq_items (en_raw_packet_queue en) = []"
    | (idle) "\<And>i. i < length (en_fps en) \<Longrightarrow> tq_items (fp_input_queue (en_fps en ! i)) = [] \<and>
          (\<forall>job t. en_fp_pcs en ! i \<noteq> FP_Output job t)"
        "\<And>i. i < length (en_lbs en) \<Longrightarrow> (\<forall>g job. lb_pc (en_lbs en ! i) \<noteq> At_Push g job)"
        "\<And>i. i < length (en_parsers en) \<Longrightarrow> (\<forall>l job. pw_pc (en_parsers en ! i) \<noteq> PW_Push l job)"
        "en_reader_pc en = Rd_Done"
    using w(2) unfolding upstream_def by (metis length_greater_0_conv)
  then show ?thesis
  proof cases
    case (verdict i job t)
    then show ?thesis
      using queued_le [OF out inv, of i] cap len(1) assms(4)
      by (intro output_goes_on [OF fault w(1) verdict]) (simp add: capacities_def)
  next
    case (fp_take i)
    moreover have "en_fp_pcs en ! i \<noteq> FP_Ended" using fp_take(1,3) w(4) by (auto simp: downstream_def)
    ultimately obtain t where "en_fp_pcs en ! i = FP_Loop t" by (cases "en_fp_pcs en ! i") auto
    then show ?thesis by (rule fp_goes_on [OF fault w(1,4) rm fp_take(1) _ fp_take(3)])
  next
    case (lb_put i g job)
    then have "g < F" "i < L" using w(5) len by (auto simp: routed_def)
    then have f: "lb_fp_queues (en_lbs en ! i) ! g = i * F + g" "i * F + g < length (en_fps en)"
      using w(1) lane_index [of i L g F] by (simp_all add: wired_def)
    have empty: "tq_items (fp_input_queue (en_fps en ! (i * F + g))) = []" by (rule lb_put(3) [OF f(2)])
    have "tq_max_size (fp_input_queue (en_fps en ! (i * F + g))) = 10000"
      using f(2) cap by (simp add: capacities_def)
    then have "length (tq_items (fp_input_queue (en_fps en ! (i * F + g)))) <
        tq_max_size (fp_input_queue (en_fps en ! (i * F + g)))" unfolding empty by simp
    then show ?thesis by (rule lb_put_goes_on [OF fault lb_put(1,2) f(1) [symmetric] f(2) len(1)])
  next
    case (lb_take i)
    moreover have "lb_pc (en_lbs en ! i) \<noteq> Ended" using lb_take(1,3) w(3) by (auto simp: midstream_def)
    ultimately have "lb_pc (en_lbs en ! i) = At_Pop" by (cases "lb_pc (en_lbs en ! i)") auto
    then show ?thesis by (rule lb_take_goes_on [OF fault lb_take(1) _ disjI1 [OF lb_take(3)]])
  next
    case (parser_put i l job)
    then have "l < length (en_lbs en)" using w(5) len by (auto simp: routed_def)
    then show ?thesis
      using parser_put(3) [of l] cap by (intro parser_put_goes_on [OF fault parser_put(1,2)]) (simp_all add: capacities_def)
  next
    case parser_take
    have "0 < length (en_parsers en)" using w(2) by (simp add: upstream_def)
    moreover from this have "pw_pc (en_parsers en ! 0) \<noteq> PW_Ended" using w(2) parser_take(2) by (auto simp: upstream_def)
    then have "pw_pc (en_parsers en ! 0) = PW_Pop" using parser_take(1) by (cases "pw_pc (en_parsers en ! 0)") auto
    ultimately show ?thesis by (rule parser_take_goes_on [OF fault _ _ disjI1 [OF parser_take(2)]])
  next
    case reader
    then show ?thesis using cap assms(5) by (intro reader_goes_on [OF fault]) (simp_all add: capacities_def)
  next
    case idle
    then show ?thesis by (rule idle_goes_on [OF inv rdy fault assms(7)])
  qed
qed

section \<open>The engine can finish\<close>

lemma run_ready:
  assumes "e_run le sh en en'" and "ready n en" and "pipeline_inv le sh L F J en"
  shows "ready n en'"
proof -
  have "ready n en' \<and> pipeline_inv le sh L F J en'"
    using assms
  proof (induction)
    case (step en1 en2)
    then show ?case
      using step_ready [OF step.hyps(2)] step_inv [OF step.hyps(2)] by (auto simp: pipeline_inv_def)
  qed simp
  then show ?thesis by simp
qed

lemma launch_ready:
  assumes "num_load_balancers config = int L" and "fps_per_lb config = int F"
    and "launch config files rm now input = Inr en"
  shows "ready (queue_size config) en"
  by (auto simp: ready_def capacities_def launch_state [OF assms] new_engine_def new_queue_def fresh_lbs_def
      fresh_fps_def standard_lbs_def lb_start_def new_load_balancer_def fp_start_def new_fast_path_def)

lemma finishing_run:
  assumes "pipeline_inv le sh L F (mset (file_jobs le input)) en" and "output_inv le input en" and "ready n en"
    and "length (file_jobs le input) \<le> n" and "0 < n"
  shows "\<exists>en'. e_run le sh en en' \<and> (en_main_pc en' = M_Done \<or> en_fault en' \<noteq> None)"
  using assms(1-3)
proof (induction "work le en" arbitrary: en rule: less_induct)
  case less
  show ?case
  proof (cases "en_main_pc en = M_Done \<or> en_fault en \<noteq> None")
    case False
    then obtain en1 where step: "e_step le sh en en1" and d: "en_fault en1 \<noteq> None \<or> work le en1 < work le en"
      using engine_goes_on [OF less.prems assms(4,5)] by (auto simp: goes_on_def)
    show ?thesis
    proof (cases "en_fault en1 = None")
      case True
      with d have "work le en1 < work le en" by simp
      moreover have "pipeline_inv le sh L F (mset (file_jobs le input)) en1" by (rule step_inv [OF step less.prems(1)])
      moreover have "output_inv le input en1" by (rule step_output [OF step less.prems(2,1)])
      moreover have "ready n en1"
        using step_ready [OF step less.prems(3)] less.prems(1) by (simp add: pipeline_inv_def)
      ultimately obtain en' where "e_run le sh en1 en'" "en_main_pc en' = M_Done \<or> en_fault en' \<noteq> None"
        using less.hyps by blast
      with step show ?thesis by (meson converse_rtranclp_into_rtranclp)
    qed (use step in \<open>blast intro: r_into_rtranclp\<close>)
  qed blast
qed

text \<open>
  C17. The engine never paints itself into a corner when the capacity of its queues is at least the number
  of packets it accepts: whatever the threads have done since the start, and in whatever order, they can
  still go on to the end of the main thread, unless one of them runs into a fault. The bound matters:
  with a smaller output queue the engine can block for ever.
\<close>

theorem engine_can_finish:
  assumes "num_load_balancers config = int L" and "fps_per_lb config = int F" and "0 < L" and "0 < F"
    and "launch config files rm now input = Inr en" and "e_run le sh en en'"
    and "length (file_jobs le input) \<le> queue_size config" and "0 < queue_size config"
  shows "\<exists>en''. e_run le sh en' en'' \<and> (en_main_pc en'' = M_Done \<or> en_fault en'' \<noteq> None)"
proof -
  note start = launch_inv [OF assms(1-5)]
  show ?thesis
    by (rule finishing_run [OF run_inv [OF assms(6) start] run_output [OF assms(6) launch_output [OF assms(1,2,5)] start]
          run_ready [OF assms(6) launch_ready [OF assms(1,2,5)] start] assms(7,8)])
qed

lemma engine_can_finish_witness:
  "\<exists>en en' en''. launch (one_lane 1 10000) (\<lambda>_. None) no_rules 0 (sample_capture 1) = Inr en \<and>
     schedule True sample_hash [T_Reader, T_Output] en = Some en' \<and>
     e_run True sample_hash en' en'' \<and> (en_main_pc en'' = M_Done \<or> en_fault en'' \<noteq> None)"
proof -
  obtain en reader job where h: "launch (one_lane 1 10000) (\<lambda>_. None) no_rules 0 (sample_capture 1) = Inr en"
    "pcap_open True (sample_capture 1) closed_reader = (True, reader)" "raw_jobs (read_packets True reader) = [sample_raw 0]"
    "job_of True (sample_raw 0) = Inr (Some job)"
    using lossy_sample by blast
  have cfg: "num_load_balancers (one_lane 1 10000) = int 1" "fps_per_lb (one_lane 1 10000) = int 1"
    by (simp_all add: one_lane_def)
  have "en_reader_pc en = Rd_Open (sample_capture 1)" "en_output_pc en = Out_Test" "en_fault en = None"
    "en_output_file en = Some []"
    using launch_state [OF cfg h(1)] by (simp_all add: new_engine_def)
  then have "\<exists>en'. schedule True sample_hash [T_Reader, T_Output] en = Some en'"
    using h(2) by (simp add: thread_step_def reader_step_def output_step_def writeOutputHeader_def)
  then obtain en' where run: "schedule True sample_hash [T_Reader, T_Output] en = Some en'" ..
  have "length (file_jobs True (sample_capture 1)) \<le> queue_size (one_lane 1 10000)" "0 < queue_size (one_lane 1 10000)"
    using h(2-4) by (simp_all add: file_jobs_def jobs_def made_def one_lane_def)
  from engine_can_finish [OF cfg _ _ h(1) schedule_run [OF run] this] obtain en'' where
    "e_run True sample_hash en' en''" "en_main_pc en'' = M_Done \<or> en_fault en'' \<noteq> None"
    by auto
  with h(1) run show ?thesis by (intro exI conjI)
qed

end
