(* ===== verification/Legacy_Single.thy ===== *)
theory Legacy_Single
  imports Output_File
begin

text \<open>
  The single-threaded program of \<open>legacy/main_working.cpp\<close>, from which the engine was developed: one loop
  that reads, classifies, decides and writes. Its flow table is keyed by the \<open>FiveTuple\<close>, so the two
  directions of a connection are two flows. The build no longer compiles it; it stands here as the
  reference the engine is compared with. What it prints is in the theory \<open>Legacy_Reports\<close>.
\<close>

section \<open>Rules\<close>

text \<open>
  \<open>parseIP\<close>: as \<open>parseIPv4Address\<close>, but the shift is of an \<open>int\<close>, which must not lose bits beyond the 32
  of the unsigned type.
\<close>

definition shift_octet :: "nat \<Rightarrow> nat \<Rightarrow> u32 res" where
  "shift_octet octet shift =
     (if 32 \<le> shift then Inl ShiftTooWide
      else if 2 ^ 32 \<le> octet * 2 ^ shift then Inl SignedOverflow
      else Inr (push_bit shift (of_nat octet)))"

fun legacy_parseIP :: "string \<Rightarrow> u32 \<Rightarrow> nat \<Rightarrow> nat \<Rightarrow> u32 res" where
  "legacy_parseIP [] result octet shift = rbind (shift_octet octet shift) (\<lambda>w. Inr (result OR w))"
| "legacy_parseIP (c # cs) result octet shift =
     (if c = CHR ''.'' then
        rbind (shift_octet octet shift) (\<lambda>w. legacy_parseIP cs (result OR w) 0 (shift + 8))
      else if is_digit c then
        if 2 ^ 31 \<le> octet * 10 + digit_value c then Inl SignedOverflow
        else legacy_parseIP cs result (octet * 10 + digit_value c) shift
      else legacy_parseIP cs result octet shift)"

record BlockingRules =
  br_blocked_ips :: "u32 list"
  br_blocked_apps :: "AppType list"
  br_blocked_domains :: "string list"

definition no_blocking :: BlockingRules where
  "no_blocking = \<lparr>br_blocked_ips = [], br_blocked_apps = [], br_blocked_domains = []\<rparr>"

definition br_blockIP :: "string \<Rightarrow> BlockingRules \<Rightarrow> BlockingRules res" where
  "br_blockIP ip br =
     rbind (legacy_parseIP ip 0 0 0) (\<lambda>addr. Inr (br\<lparr>br_blocked_ips := uset_insert addr (br_blocked_ips br)\<rparr>))"

definition br_blockApp :: "string \<Rightarrow> BlockingRules \<Rightarrow> BlockingRules" where
  "br_blockApp app br =
     (case app_by_name app of
        None \<Rightarrow> br
      | Some a \<Rightarrow> br\<lparr>br_blocked_apps := uset_insert a (br_blocked_apps br)\<rparr>)"

definition br_blockDomain :: "string \<Rightarrow> BlockingRules \<Rightarrow> BlockingRules" where
  "br_blockDomain domain br = br\<lparr>br_blocked_domains := br_blocked_domains br @ [domain]\<rparr>"

text \<open>\<open>sni.find(dom) != npos\<close>\<close>

fun finds :: "string \<Rightarrow> string \<Rightarrow> bool" where
  "finds pat [] = (pat = [])"
| "finds pat (c # s) = (prefix pat (c # s) \<or> finds pat s)"

definition br_isBlocked :: "BlockingRules \<Rightarrow> u32 \<Rightarrow> AppType \<Rightarrow> string \<Rightarrow> bool" where
  "br_isBlocked br src_ip app sni =
     (if src_ip \<in> set (br_blocked_ips br) then True
      else if app \<in> set (br_blocked_apps br) then True
      else list_ex (\<lambda>d. finds d sni) (br_blocked_domains br))"

section \<open>Flows\<close>

record LFlow =
  lf_tuple :: FiveTuple
  lf_app_type :: AppType
  lf_sni :: string
  lf_packets :: u64
  lf_bytes :: u64
  lf_blocked :: bool

text \<open>The offset of the TCP payload, if it lies inside the packet.\<close>

definition legacy_payload :: "bytes \<Rightarrow> nat option res" where
  "legacy_payload data =
     rbind (rd data 14) (\<lambda>b.
       let payload_offset = 14 + unat (b AND 0x0F) * 4 in
       if payload_offset + 12 < length data then
         rbind (rd data (payload_offset + 12)) (\<lambda>b.
           let payload_offset = payload_offset + unat (drop_bit 4 b AND 0x0F) * 4
           in Inr (if payload_offset < length data then Some payload_offset else None))
       else Inr None)"

definition with_name :: "string option \<Rightarrow> LFlow \<Rightarrow> LFlow" where
  "with_name name flow =
     (case name of None \<Rightarrow> flow | Some sni \<Rightarrow> flow\<lparr>lf_sni := sni, lf_app_type := sniToAppType sni\<rparr>)"

definition try_sni :: "ParsedPacket \<Rightarrow> bytes \<Rightarrow> LFlow \<Rightarrow> LFlow res" where
  "try_sni parsed data flow =
     (if (lf_app_type flow = UNKNOWN \<or> lf_app_type flow = HTTPS) \<and> lf_sni flow = [] \<and> pp_has_tcp parsed \<and>
         pp_dest_port parsed = 443
      then rbind (legacy_payload data) (\<lambda>off. case off of
             Some payload_offset \<Rightarrow>
               if 5 < length data - payload_offset
               then rbind (SNIExtractor_extract (drop payload_offset data) (length data - payload_offset)) (\<lambda>sni. Inr (with_name sni flow))
               else Inr flow
           | None \<Rightarrow> Inr flow)
      else Inr flow)"

definition try_host :: "ParsedPacket \<Rightarrow> bytes \<Rightarrow> LFlow \<Rightarrow> LFlow res" where
  "try_host parsed data flow =
     (if (lf_app_type flow = UNKNOWN \<or> lf_app_type flow = HTTP) \<and> lf_sni flow = [] \<and> pp_has_tcp parsed \<and>
         pp_dest_port parsed = 80
      then rbind (legacy_payload data) (\<lambda>off. case off of
             Some payload_offset \<Rightarrow>
               rbind (HTTPHostExtractor_extract (drop payload_offset data) (length data - payload_offset)) (\<lambda>host. Inr (with_name host flow))
           | None \<Rightarrow> Inr flow)
      else Inr flow)"

definition by_port :: "ParsedPacket \<Rightarrow> LFlow \<Rightarrow> LFlow" where
  "by_port parsed flow =
     (let flow = (if lf_app_type flow = UNKNOWN \<and> (pp_dest_port parsed = 53 \<or> pp_src_port parsed = 53)
                  then flow\<lparr>lf_app_type := DNS\<rparr> else flow)
      in if lf_app_type flow = UNKNOWN then
           (if pp_dest_port parsed = 443 then flow\<lparr>lf_app_type := HTTPS\<rparr>
            else if pp_dest_port parsed = 80 then flow\<lparr>lf_app_type := HTTP\<rparr>
            else flow)
         else flow)"

section \<open>The loop\<close>

record LegacyState =
  ls_flows :: "FiveTuple \<rightharpoonup> LFlow"
  ls_total_packets :: nat
  ls_forwarded :: nat
  ls_dropped :: nat
  ls_app_stats :: "AppType \<Rightarrow> nat"
  ls_output :: bytes

definition new_flow :: "FiveTuple \<Rightarrow> LFlow" where
  "new_flow tuple = \<lparr>lf_tuple = tuple, lf_app_type = UNKNOWN, lf_sni = [], lf_packets = 0, lf_bytes = 0,
     lf_blocked = False\<rparr>"

definition tuple_from_text :: "ParsedPacket \<Rightarrow> FiveTuple res" where
  "tuple_from_text parsed =
     rbind (legacy_parseIP (pp_src_ip parsed) 0 0 0) (\<lambda>src.
     rbind (legacy_parseIP (pp_dest_ip parsed) 0 0 0) (\<lambda>dst.
       Inr \<lparr>ft_src_ip = src, ft_dst_ip = dst, ft_src_port = pp_src_port parsed,
         ft_dst_port = pp_dest_port parsed, ft_protocol = pp_protocol parsed\<rparr>))"

text \<open>What a packet does to its flow.\<close>

definition flow_after :: "BlockingRules \<Rightarrow> FiveTuple \<Rightarrow> ParsedPacket \<Rightarrow> bytes \<Rightarrow> LFlow \<Rightarrow> LFlow res" where
  "flow_after rules tuple parsed data flow =
     (let flow = (if lf_packets flow = 0 then flow\<lparr>lf_tuple := tuple\<rparr> else flow);
          flow = flow\<lparr>lf_packets := lf_packets flow + 1, lf_bytes := lf_bytes flow + of_nat (length data)\<rparr>
      in rbind (try_sni parsed data flow) (\<lambda>flow.
         rbind (try_host parsed data flow) (\<lambda>flow.
           let flow = by_port parsed flow
           in Inr (if lf_blocked flow then flow
                   else flow\<lparr>lf_blocked := br_isBlocked rules (ft_src_ip tuple) (lf_app_type flow) (lf_sni flow)\<rparr>))))"

definition legacy_packet :: "bool \<Rightarrow> BlockingRules \<Rightarrow> RawPacket \<Rightarrow> LegacyState \<Rightarrow> LegacyState res" where
  "legacy_packet le rules raw st =
     (let st = st\<lparr>ls_total_packets := ls_total_packets st + 1\<rparr> in
      rbind (parse le raw) (\<lambda>(ok, parsed).
        if \<not> ok \<or> \<not> pp_has_ip parsed \<or> \<not> pp_has_tcp parsed \<and> \<not> pp_has_udp parsed then Inr st
        else
          rbind (tuple_from_text parsed) (\<lambda>tuple.
          rbind (flow_after rules tuple parsed (rp_data raw)
              (case ls_flows st tuple of None \<Rightarrow> new_flow tuple | Some flow \<Rightarrow> flow)) (\<lambda>flow.
            let st = st\<lparr>ls_flows := (ls_flows st)(tuple \<mapsto> flow),
                        ls_app_stats := (ls_app_stats st)(lf_app_type flow := ls_app_stats st (lf_app_type flow) + 1)\<rparr>
            in Inr (if lf_blocked flow then st\<lparr>ls_dropped := ls_dropped st + 1\<rparr>
                    else st\<lparr>ls_forwarded := ls_forwarded st + 1,
                      ls_output := ls_output st @ output_packet_bytes le (ts_sec (rp_header raw))
                        (ts_usec (rp_header raw)) (rp_data raw)\<rparr>)))))"

fun legacy_loop :: "bool \<Rightarrow> BlockingRules \<Rightarrow> RawPacket list \<Rightarrow> LegacyState \<Rightarrow> LegacyState res" where
  "legacy_loop le rules [] st = Inr st"
| "legacy_loop le rules (raw # raws) st = rbind (legacy_packet le rules raw st) (legacy_loop le rules raws)"

fun legacy_options :: "string list \<Rightarrow> BlockingRules \<Rightarrow> BlockingRules res" where
  "legacy_options [] rules = Inr rules"
| "legacy_options (arg # rest) rules =
     (if arg = ''--block-ip'' \<and> rest \<noteq> [] then rbind (br_blockIP (hd rest) rules) (legacy_options (tl rest))
      else if arg = ''--block-app'' \<and> rest \<noteq> [] then legacy_options (tl rest) (br_blockApp (hd rest) rules)
      else if arg = ''--block-domain'' \<and> rest \<noteq> [] then legacy_options (tl rest) (br_blockDomain (hd rest) rules)
      else legacy_options rest rules)"

text \<open>The program: its exit code and, when it got as far as writing, its final state.\<close>

definition legacy_start :: "bytes \<Rightarrow> LegacyState" where
  "legacy_start header = \<lparr>ls_flows = Map.empty, ls_total_packets = 0, ls_forwarded = 0, ls_dropped = 0,
     ls_app_stats = (\<lambda>_. 0), ls_output = header\<rparr>"

definition legacy_main ::
  "bool \<Rightarrow> (string \<Rightarrow> bytes option) \<Rightarrow> (string \<Rightarrow> bool) \<Rightarrow> string list \<Rightarrow> (int \<times> LegacyState option) res" where
  "legacy_main le captures creates argv =
     (if length argv < 3 then Inr (1, None)
      else rbind (legacy_options (drop 3 argv) no_blocking)
        (\<lambda>rules.
          case pcap_open le (captures (argv ! 1)) closed_reader of
            (False, _) \<Rightarrow> Inr (1, None)
          | (True, reader) \<Rightarrow>
              if \<not> creates (argv ! 2) then Inr (1, None)
              else rbind (legacy_loop le rules (read_packets le reader)
                  (legacy_start (store_global_header le (pr_global_header reader))))
                (\<lambda>st. Inr (0, Some st))))"

section \<open>Blocked flows\<close>

text \<open>The flow a packet counts for.\<close>

definition flow_of :: "bool \<Rightarrow> RawPacket \<Rightarrow> FiveTuple option" where
  "flow_of le raw =
     (case parse le raw of
        Inr (True, pk) \<Rightarrow>
          if pp_has_ip pk \<and> (pp_has_tcp pk \<or> pp_has_udp pk)
          then (case tuple_from_text pk of Inr tuple \<Rightarrow> Some tuple | Inl _ \<Rightarrow> None)
          else None
      | _ \<Rightarrow> None)"

definition stamped_raw :: "RawPacket \<Rightarrow> stamped" where
  "stamped_raw raw = (ts_sec (rp_header raw), ts_usec (rp_header raw), rp_data raw)"

definition blocked_in :: "LegacyState \<Rightarrow> FiveTuple \<Rightarrow> bool" where
  "blocked_in st tuple \<longleftrightarrow> (case ls_flows st tuple of None \<Rightarrow> False | Some flow \<Rightarrow> lf_blocked flow)"

lemma blocked_in_total [simp]: "blocked_in (st\<lparr>ls_total_packets := n\<rparr>) = blocked_in st"
  by (simp add: fun_eq_iff blocked_in_def)

lemma with_name_blocked [simp]: "lf_blocked (with_name name flow) = lf_blocked flow"
  by (simp add: with_name_def split: option.split)

lemma by_port_blocked [simp]: "lf_blocked (by_port parsed flow) = lf_blocked flow"
  by (simp add: by_port_def Let_def)

lemma try_blocked:
  "try_sni parsed data flow = Inr flow' \<Longrightarrow> lf_blocked flow' = lf_blocked flow"
  "try_host parsed data flow = Inr flow' \<Longrightarrow> lf_blocked flow' = lf_blocked flow"
  by (auto simp: try_sni_def try_host_def rbind_Inr_iff split: if_splits option.splits)

lemma flow_after_blocked:
  assumes "flow_after rules tuple parsed data flow = Inr flow'" and "lf_blocked flow"
  shows "lf_blocked flow'"
  using assms by (auto simp: flow_after_def Let_def rbind_Inr_iff dest!: try_blocked split: if_splits)

text \<open>
  A packet is passed over, or it is dropped and its flow is blocked, or it is written and its flow was not
  blocked and is not.
\<close>

lemma legacy_packet_cases:
  assumes "legacy_packet le rules raw st = Inr st'"
  obtains (passed_over) "flow_of le raw = None" "ls_output st' = ls_output st" "blocked_in st' = blocked_in st"
      "ls_forwarded st' = ls_forwarded st" "ls_dropped st' = ls_dropped st" "ls_total_packets st' = ls_total_packets st + 1"
  | (dropped) tuple where "flow_of le raw = Some tuple" "ls_output st' = ls_output st"
      "blocked_in st' = (blocked_in st)(tuple := True)" "ls_total_packets st' = ls_total_packets st + 1"
      "ls_forwarded st' = ls_forwarded st" "ls_dropped st' = ls_dropped st + 1"
  | (written) tuple where "flow_of le raw = Some tuple" "ls_output st' = ls_output st @ output_body le [stamped_raw raw]"
      "blocked_in st' = blocked_in st" "\<not> blocked_in st tuple" "ls_total_packets st' = ls_total_packets st + 1"
      "ls_forwarded st' = ls_forwarded st + 1" "ls_dropped st' = ls_dropped st"
proof -
  obtain ok pk where p: "parse le raw = Inr (ok, pk)" using parse_wp [of le raw] by (auto simp: wp_iff)
  show thesis
  proof (cases "ok \<and> pp_has_ip pk \<and> (pp_has_tcp pk \<or> pp_has_udp pk)")
    case False
    then have "flow_of le raw = None" by (auto simp: flow_of_def p split: bool.split)
    then show thesis using assms p False passed_over by (auto simp: legacy_packet_def Let_def)
  next
    case True
    let ?old = "\<lambda>tuple. case ls_flows st tuple of None \<Rightarrow> new_flow tuple | Some flow \<Rightarrow> flow"
    obtain tuple flow where t: "tuple_from_text pk = Inr tuple"
      and f: "flow_after rules tuple pk (rp_data raw) (?old tuple) = Inr flow"
      and st': "st' = (let st = st\<lparr>ls_total_packets := ls_total_packets st + 1, ls_flows := (ls_flows st)(tuple \<mapsto> flow),
            ls_app_stats := (ls_app_stats st)(lf_app_type flow := ls_app_stats st (lf_app_type flow) + 1)\<rparr>
          in if lf_blocked flow then st\<lparr>ls_dropped := ls_dropped st + 1\<rparr>
             else st\<lparr>ls_forwarded := ls_forwarded st + 1, ls_output := ls_output st @ output_body le [stamped_raw raw]\<rparr>)"
      using assms p True
      by (auto simp: legacy_packet_def rbind_Inr_iff Let_def output_body_def stamped_raw_def split: if_splits)
    have o: "flow_of le raw = Some tuple" using True by (simp add: flow_of_def p t)
    have old: "blocked_in st tuple = lf_blocked (?old tuple)"
      by (simp add: blocked_in_def new_flow_def split: option.split)
    show thesis
    proof (cases "lf_blocked flow")
      case True
      then show thesis using o by (intro dropped [of tuple]) (auto simp: st' Let_def blocked_in_def fun_eq_iff)
    next
      case False
      then have "\<not> blocked_in st tuple" using flow_after_blocked [OF f] old by blast
      then show thesis
        using o False by (intro written [of tuple]) (auto simp: st' Let_def blocked_in_def fun_eq_iff split: option.split)
    qed
  qed
qed

text \<open>
  The packets of a run that were written: per flow all of them until the flow is blocked and none after.
\<close>

definition cut_off :: "bool \<Rightarrow> RawPacket list \<Rightarrow> RawPacket list \<Rightarrow> LegacyState \<Rightarrow> bool" where
  "cut_off le raws written st \<longleftrightarrow>
     subseq written raws \<and>
     (\<forall>t. let of_flow = filter (\<lambda>raw. flow_of le raw = Some t)
          in prefix (of_flow written) (of_flow raws) \<and> (\<not> blocked_in st t \<longrightarrow> of_flow written = of_flow raws)) \<and>
     (\<forall>raw \<in> set written. flow_of le raw \<noteq> None) \<and>
     ls_total_packets st = length raws \<and> ls_forwarded st = length written \<and>
     ls_forwarded st + ls_dropped st = length (filter (\<lambda>raw. flow_of le raw \<noteq> None) raws)"

lemma cut_off_step:
  assumes "cut_off le raws written st" and "legacy_packet le rules raw st = Inr st'"
  shows "\<exists>more. cut_off le (raws @ [raw]) (written @ more) st' \<and>
    ls_output st' = ls_output st @ output_body le (map stamped_raw more)"
  using assms(2)
proof (cases rule: legacy_packet_cases)
  case passed_over
  then show ?thesis
    using assms(1) by (intro exI [of _ "[]"]) (auto simp: cut_off_def Let_def output_body_def intro: subseq_rev_drop_many)
next
  case (dropped tuple)
  then show ?thesis
    using assms(1) by (intro exI [of _ "[]"]) (auto simp: cut_off_def Let_def output_body_def intro: subseq_rev_drop_many)
next
  case (written tuple)
  then show ?thesis
    using assms(1) by (intro exI [of _ "[raw]"]) (auto simp: cut_off_def Let_def)
qed

lemma cut_off_loop:
  assumes "cut_off le raws written st" and "legacy_loop le rules rest st = Inr st'"
  shows "\<exists>more. cut_off le (raws @ rest) (written @ more) st' \<and>
    ls_output st' = ls_output st @ output_body le (map stamped_raw more)"
  using assms
proof (induction rest arbitrary: raws written st)
  case Nil
  then show ?case by (intro exI [of _ "[]"]) (simp add: output_body_def)
next
  case (Cons raw rest)
  then obtain st1 where st1: "legacy_packet le rules raw st = Inr st1" "legacy_loop le rules rest st1 = Inr st'"
    by (auto simp: rbind_Inr_iff)
  from cut_off_step [OF Cons.prems(1) st1(1)] obtain m1 where
    m1: "cut_off le (raws @ [raw]) (written @ m1) st1" "ls_output st1 = ls_output st @ output_body le (map stamped_raw m1)"
    by blast
  from Cons.IH [OF m1(1) st1(2)] obtain m2 where
    "cut_off le ((raws @ [raw]) @ rest) ((written @ m1) @ m2) st'"
    "ls_output st' = ls_output st1 @ output_body le (map stamped_raw m2)"
    by blast
  then show ?case using m1(2) by (intro exI [of _ "m1 @ m2"]) (simp add: output_body_def)
qed

text \<open>
  C10. The single-threaded program cuts every flow off at one point: whenever it ends normally, its output is
  the global header of the input capture and the records of packets of the input in their order, and of each flow
  they are an initial segment: all its packets, or those before the one that made it blocked. The counters agree:
  all packets are counted, and every packet that belongs to a flow is either forwarded, that is written, or dropped.
  When the capture is in the byte order of the machine, the program's own reader reads the written packets back;
  when it is byte-swapped, the reader opens the output but gets no packet out of it.
\<close>

theorem legacy_output_cuts_flows:
  assumes "legacy_main le captures creates argv = Inr (0, Some st)"
    and "pcap_open le (captures (argv ! 1)) closed_reader = (True, reader)"
  shows "\<exists>written reader'. ls_output st =
      store_global_header le (pr_global_header reader) @ output_body le (map stamped_raw written) \<and>
    cut_off le (read_packets le reader) written st \<and>
    pcap_open le (Some (ls_output st)) closed_reader = (True, reader') \<and>
    read_packets le reader' = (if pr_needs_byte_swap reader then [] else map (raw_of \<circ> stamped_raw) written)"
proof -
  let ?raws = "read_packets le reader"
  obtain rules where run: "legacy_loop le rules ?raws (legacy_start (store_global_header le (pr_global_header reader))) = Inr st"
    using assms(1,2) by (auto simp: legacy_main_def rbind_Inr_iff split: if_splits)
  have "cut_off le [] [] (legacy_start h)" for h
    by (simp add: cut_off_def Let_def legacy_start_def)
  from cut_off_loop [OF this run] obtain written where cut: "cut_off le ?raws written st"
    and out: "ls_output st = store_global_header le (pr_global_header reader) @ output_body le (map stamped_raw written)"
    by (auto simp: legacy_start_def)
  have "set written \<subseteq> set ?raws" using cut by (metis cut_off_def subseq_order.trans subseq_singleton_left subsetI)
  moreover have "rp_data raw \<noteq> []" if "raw \<in> set written" for raw
    using that cut parse_nonempty unfolding cut_off_def flow_of_def
    by (fastforce split: sum.splits prod.splits bool.splits)
  ultimately have "\<forall>p \<in> set (map stamped_raw written). fits (snaplen (pr_global_header reader)) p \<and> snd (snd p) \<noteq> []"
    using read_packets_fit by (fastforce simp: fits_def stamped_raw_def)
  from output_read_back [OF assms(2) this, of closed_reader] cut show ?thesis
    unfolding out map_map by blast
qed

section \<open>IPv4 packets\<close>

lemma legacy_parse_digits:
  assumes "\<And>c. c \<in> set ds \<Longrightarrow> is_digit c" "dec_value octet ds < 2 ^ 31"
  shows "legacy_parseIP (ds @ rest) result octet shift = legacy_parseIP rest result (dec_value octet ds) shift"
  using assms
proof (induction ds arbitrary: octet)
  case (Cons c ds)
  have eq: "dec_value octet (c # ds) = dec_value (octet * 10 + digit_value c) ds" by (simp add: dec_value_def)
  have "octet * 10 + digit_value c < 2 ^ 31"
    using dec_value_ge [of "octet * 10 + digit_value c" ds] Cons.prems(2) by (simp add: eq)
  then show ?case using Cons is_digit_not_dot [of c] by (simp add: eq)
qed (simp add: dec_value_def)

lemma legacy_parse_octet:
  assumes "n < 256" and "shift \<in> {0, 8, 16, 24}"
  shows "legacy_parseIP (to_string n @ CHR ''.'' # rest) result 0 shift =
      legacy_parseIP rest (result OR push_bit shift (of_nat n)) 0 (shift + 8)"
    and "legacy_parseIP (to_string n) result 0 shift = Inr (result OR push_bit shift (of_nat n))"
proof -
  have "n * 2 ^ shift < 2 ^ 32" using assms by auto
  then have octet: "shift_octet n shift = Inr (push_bit shift (of_nat n))"
    using assms(2) by (auto simp: shift_octet_def)
  have digits: "legacy_parseIP (to_string n @ r) result 0 shift = legacy_parseIP r result n shift" for r
    using assms(1) by (subst legacy_parse_digits) (simp_all add: to_string_digits)
  show "legacy_parseIP (to_string n @ CHR ''.'' # rest) result 0 shift =
      legacy_parseIP rest (result OR push_bit shift (of_nat n)) 0 (shift + 8)"
    by (simp add: digits octet)
  show "legacy_parseIP (to_string n) result 0 shift = Inr (result OR push_bit shift (of_nat n))"
    using digits [of "[]"] by (simp add: octet)
qed

lemma legacy_parse_ipToString: "legacy_parseIP (ipToString ip) 0 0 0 = Inr ip"
proof -
  note octet = legacy_parse_octet [OF unat_and_mask8]
  show ?thesis
    unfolding ipToString_def append_Cons append_Nil append_assoc
    using octets_or [of ip] by (simp add: octet or.assoc)
qed

lemma tuple_from_text_ipv4:
  assumes "wf_parsed pk" and "pp_ip_version pk = 4"
  shows "tuple_from_text pk = Inr (tuple_of pk)"
  using assms by (simp add: tuple_from_text_def tuple_of_def wf_parsed_def wf_addresses_def legacy_parse_ipToString)

text \<open>The offset computed from the header bytes is where the parser found the payload.\<close>

lemma legacy_payload_ipv4:
  assumes "parse le raw = Inr (True, pk)" and "pp_ip_version pk = 4" and "pp_has_tcp pk"
  shows "legacy_payload (rp_data raw) = Inr None \<and> pp_payload_data pk = [] \<or>
    (\<exists>off < length (rp_data raw). legacy_payload (rp_data raw) = Inr (Some off) \<and> pp_payload_data pk = drop off (rp_data raw))"
proof -
  let ?p = "rp_data raw" and ?t = "14 + unat (rp_data raw ! 14 AND 0x0F) * 4"
  obtain off where p: "14 < length ?p" "layout ?p ?t pk off" "pp_payload_data pk = drop off ?p"
    using parse_layout [OF assms(1,2) refl] by blast
  then have "?t + 20 \<le> length ?p" "off = ?t + unat (drop_bit 4 (?p ! (?t + 12)) AND 0x0F) * 4" "off \<le> length ?p"
    using assms(3) by (simp_all add: layout_def)
  then have "legacy_payload ?p = Inr (if off < length ?p then Some off else None)"
    using p(1) by (simp add: legacy_payload_def Let_def)
  then show ?thesis using p(3) by (cases "off < length ?p") auto
qed

lemma try_total:
  assumes "pp_has_tcp pk \<Longrightarrow> \<exists>r. legacy_payload data = Inr r"
  shows "\<exists>flow'. try_sni pk data flow = Inr flow'" "\<exists>flow'. try_host pk data flow = Inr flow'"
proof -
  have sni: "\<exists>r. SNIExtractor_extract (drop off data) (length data - off) = Inr r"
    and host: "\<exists>r. HTTPHostExtractor_extract (drop off data) (length data - off) = Inr r" for off
    using sni.total [of "drop off data"] http.total [of "drop off data"] by simp_all
  show "\<exists>flow'. try_sni pk data flow = Inr flow'"
  proof (cases "pp_has_tcp pk")
    case True
    with assms obtain r where "legacy_payload data = Inr r" by blast
    then show ?thesis using sni by (cases r) (auto simp: try_sni_def rbind_Inr_iff split: if_splits)
  qed (simp add: try_sni_def)
  show "\<exists>flow'. try_host pk data flow = Inr flow'"
  proof (cases "pp_has_tcp pk")
    case True
    with assms obtain r where "legacy_payload data = Inr r" by blast
    then show ?thesis using host by (cases r) (auto simp: try_host_def rbind_Inr_iff split: if_splits)
  qed (simp add: try_host_def)
qed

lemma legacy_ipv4_packet:
  assumes "\<And>pk. parse le raw = Inr (True, pk) \<Longrightarrow> pp_has_ip pk \<Longrightarrow> pp_ip_version pk = 4"
  shows "\<exists>st'. legacy_packet le rules raw st = Inr st'"
proof -
  obtain ok pk where p: "parse le raw = Inr (ok, pk)" using parse_wp [of le raw] by (auto simp: wp_iff)
  show ?thesis
  proof (cases "ok \<and> pp_has_ip pk \<and> (pp_has_tcp pk \<or> pp_has_udp pk)")
    case True
    with p assms have v: "parse le raw = Inr (True, pk)" "pp_ip_version pk = 4" by auto
    have pay: "pp_has_tcp pk \<Longrightarrow> \<exists>r. legacy_payload (rp_data raw) = Inr r"
      using legacy_payload_ipv4 [OF v] by blast
    have "\<exists>flow'. flow_after rules tuple pk (rp_data raw) flow = Inr flow'" for tuple flow
    proof -
      define f1 where "f1 = (let flow = (if lf_packets flow = 0 then flow\<lparr>lf_tuple := tuple\<rparr> else flow)
        in flow\<lparr>lf_packets := lf_packets flow + 1, lf_bytes := lf_bytes flow + of_nat (length (rp_data raw))\<rparr>)"
      obtain f2 where "try_sni pk (rp_data raw) f1 = Inr f2" using try_total(1) [OF pay] by blast
      moreover obtain f3 where "try_host pk (rp_data raw) f2 = Inr f3" using try_total(2) [OF pay] by blast
      ultimately show ?thesis by (simp add: flow_after_def f1_def Let_def)
    qed
    then obtain flow where "flow_after rules (tuple_of pk) pk (rp_data raw)
        (case ls_flows st (tuple_of pk) of None \<Rightarrow> new_flow (tuple_of pk) | Some flow \<Rightarrow> flow) = Inr flow"
      by blast
    then show ?thesis
      using True p tuple_from_text_ipv4 [OF parse_wf [OF p] v(2)] by (auto simp: legacy_packet_def Let_def)
  qed (use p in \<open>auto simp: legacy_packet_def Let_def\<close>)
qed

lemma legacy_loop_ipv4:
  assumes "\<forall>raw \<in> set raws. \<forall>pk. parse le raw = Inr (True, pk) \<and> pp_has_ip pk \<longrightarrow> pp_ip_version pk = 4"
  shows "\<exists>st'. legacy_loop le rules raws st = Inr st'"
  using assms
proof (induction raws arbitrary: st)
  case (Cons raw raws)
  then obtain st1 where "legacy_packet le rules raw st = Inr st1" using legacy_ipv4_packet [of le raw rules st] by auto
  then show ?case using Cons by simp
qed simp

text \<open>
  On IPv4 traffic the single-threaded program has no undefined behaviour and throws nothing, whatever
  the packets hold: it reads the header lengths from the packet itself and the payload behind them, and
  never leaves the packet; the addresses it reads back from their text are those of the packet.
\<close>

theorem legacy_ipv4_runs:
  assumes "legacy_options (drop 3 argv) no_blocking = Inr rules" and "3 \<le> length argv" and "creates (argv ! 2)"
    and "pcap_open le (captures (argv ! 1)) closed_reader = (True, reader)"
    and "\<forall>raw \<in> set (read_packets le reader). \<forall>pk.
      parse le raw = Inr (True, pk) \<and> pp_has_ip pk \<longrightarrow> pp_ip_version pk = 4"
  shows "\<exists>st. legacy_main le captures creates argv = Inr (0, Some st)"
proof -
  obtain st where "legacy_loop le rules (read_packets le reader)
      (legacy_start (store_global_header le (pr_global_header reader))) = Inr st"
    using legacy_loop_ipv4 [OF assms(5)] by blast
  then show ?thesis using assms(1-4) by (simp add: legacy_main_def)
qed

text \<open>A capture of two equal segments.\<close>

lemma bare_frame_ipv4:
  assumes "rp_data raw = bare_frame" and "parse True raw = Inr (True, pk)"
  shows "pp_ip_version pk = 4"
proof -
  have "wf_segment bare_segment" "wf_ipv4_packet sample_ip"
    by (simp_all add: wf_segment_def bare_segment_def wf_ipv4_packet_def sample_ip_def)
  from tcp4_frame_parsed [OF this, of "[1, 2, 3, 4, 5, 6]" "[6, 5, 4, 3, 2, 1]" raw True] assms
  show ?thesis by (auto simp: bare_frame_def bare_segment_def)
qed

lemma sample_capture_packets:
  assumes "pcap_open True (sample_capture n) closed_reader = (True, reader)"
  shows "length (read_packets True reader) = n" and "\<forall>raw \<in> set (read_packets True reader). rp_data raw = bare_frame"
proof -
  have r: "raw_jobs (read_packets True reader) = map sample_raw [0..<n]"
    using sample_capture_read [of n] assms by auto
  have "length (raw_jobs (read_packets True reader)) = length (read_packets True reader)" by (simp add: raw_jobs_def)
  then show "length (read_packets True reader) = n" by (simp add: r)
  show "\<forall>raw \<in> set (read_packets True reader). rp_data raw = bare_frame"
  proof
    fix raw assume "raw \<in> set (read_packets True reader)"
    then obtain i where "i < length (read_packets True reader)" "raw = read_packets True reader ! i"
      by (auto simp: in_set_conv_nth)
    then have "rp_data raw = rj_data (raw_jobs (read_packets True reader) ! i)"
      by (simp add: raw_jobs_def nth_enumerate_eq)
    then show "rp_data raw = bare_frame"
      using \<open>i < _\<close> \<open>length (read_packets True reader) = n\<close> by (simp add: r sample_raw_def)
  qed
qed

lemma sample_ipv4:
  assumes "pcap_open True (sample_capture n) closed_reader = (True, reader)"
  shows "\<forall>raw \<in> set (read_packets True reader). \<forall>pk.
    parse True raw = Inr (True, pk) \<and> pp_has_ip pk \<longrightarrow> pp_ip_version pk = 4"
  using sample_capture_packets(2) [OF assms] bare_frame_ipv4 by blast

lemma legacy_ipv4_runs_witness:
  "\<exists>st. legacy_main True (\<lambda>_. sample_capture 2) (\<lambda>_. True) [''dpi'', ''in'', ''out''] = Inr (0, Some st)"
proof -
  obtain reader where r: "pcap_open True (sample_capture 2) closed_reader = (True, reader)"
    using sample_capture_read [of 2] by blast
  show ?thesis by (rule legacy_ipv4_runs [OF _ _ _ _ sample_ipv4 [OF r]]) (simp_all add: r)
qed

lemma legacy_output_cuts_flows_witness:
  "\<exists>st written reader reader'. legacy_main True (\<lambda>_. sample_capture 2) (\<lambda>_. True) [''dpi'', ''in'', ''out''] = Inr (0, Some st) \<and>
     read_packets True reader' = map (raw_of \<circ> stamped_raw) written \<and> ls_total_packets st = 2 \<and>
     cut_off True (read_packets True reader) written st"
proof -
  obtain reader where r: "pcap_open True (sample_capture 2) closed_reader = (True, reader)"
    using sample_capture_read [of 2] by blast
  obtain st where "legacy_loop True no_blocking (read_packets True reader)
      (legacy_start (store_global_header True (pr_global_header reader))) = Inr st"
    using legacy_loop_ipv4 [OF sample_ipv4 [OF r]] by blast
  then have run: "legacy_main True (\<lambda>_. sample_capture 2) (\<lambda>_. True) [''dpi'', ''in'', ''out''] = Inr (0, Some st)"
    using r by (simp add: legacy_main_def)
  obtain written reader' where w: "read_packets True reader' = map (raw_of \<circ> stamped_raw) written"
    "cut_off True (read_packets True reader) written st"
    using legacy_output_cuts_flows [OF run] sample_native [OF r] r by auto
  moreover have "ls_total_packets st = 2" using w(2) sample_capture_packets(1) [OF r] by (simp add: cut_off_def)
  ultimately show ?thesis using run by blast
qed

section \<open>A server name\<close>

lemma legacy_hello:
  assumes "parse le raw = Inr (True, pk)" and "pp_ip_version pk = 4" and "pp_has_tcp pk" and "pp_dest_port pk = 443"
    and "pp_payload_data pk = client_hello_bytes ch @ q" and "wf_client_hello ch" and "ch_host ch \<noteq> []"
    and "host = map byte_char (ch_host ch)" and "sniToAppType host \<noteq> UNKNOWN"
    and "ls_flows st (tuple_of pk) = None"
    and "blocked = br_isBlocked rules (pp_src_ip_raw pk) (sniToAppType host) host"
  shows "\<exists>st'. legacy_packet le rules raw st = Inr st' \<and> blocked_in st' (tuple_of pk) = blocked \<and>
    ls_output st' = ls_output st @ (if blocked then [] else output_body le [stamped_raw raw])"
proof -
  let ?data = "rp_data raw"
  have "5 < length (pp_payload_data pk)" "pp_payload_data pk \<noteq> []"
    by (simp_all add: assms(5) client_hello_bytes_def record_start_def)
  then obtain off where off: "legacy_payload ?data = Inr (Some off)" "pp_payload_data pk = drop off ?data"
    "5 < length ?data - off"
    using legacy_payload_ipv4 [OF assms(1-3)] by auto
  then have "SNIExtractor_extract (drop off ?data) (length ?data - off) = Inr (Some host)"
    using extract_client_hello [OF assms(6), of q] assms(5,8) by (metis length_drop)
  then have sni: "try_sni pk ?data flow = Inr (flow\<lparr>lf_sni := host, lf_app_type := sniToAppType host\<rparr>)"
    if "lf_app_type flow = UNKNOWN" "lf_sni flow = []" for flow
    using that off(1,3) assms(3,4) by (simp add: try_sni_def with_name_def)
  have "pp_has_ip pk" using parse_wf [OF assms(1)] assms(3) unfolding wf_parsed_def by blast
  moreover have "try_host pk ?data flow = Inr flow" for flow using assms(4) by (simp add: try_host_def)
  moreover have "by_port pk flow = flow" if "lf_app_type flow \<noteq> UNKNOWN" for flow using that by (simp add: by_port_def)
  moreover note tuple_from_text_ipv4 [OF parse_wf [OF assms(1)] assms(2)]
  ultimately show ?thesis
    using assms(1,3,9-11) sni
    by (simp add: legacy_packet_def flow_after_def Let_def new_flow_def blocked_in_def tuple_of_def output_body_def
        stamped_raw_def)
qed

end
