(* ===== verification/Legacy_Threads.thy ===== *)
theory Legacy_Threads
  imports Legacy_Single
begin

text \<open>
  The multi-threaded program of \<open>legacy/dpi_mt.cpp\<close>, the step between the single-threaded program and the
  engine: the main thread reads and parses, load balancers distribute, fast paths classify and decide, one
  thread writes. Its classes \<open>Rules\<close>, with the two copies of \<open>parseIP\<close>, have the text of those of
  \<open>main_working.cpp\<close> apart from a mutex. The build no longer compiles it; the report it prints is in the theory \<open>Legacy_Reports\<close>.
\<close>

section \<open>Queue and rules\<close>

text \<open>\<open>None\<close>: the call waits for \<open>not_full_\<close>. After the shutdown the item is dropped.\<close>

definition mtq_push :: "'a \<Rightarrow> 'a tsq \<Rightarrow> 'a tsq option" where
  "mtq_push item q =
     (if \<not> (length (tq_items q) < tq_max_size q \<or> tq_shutdown q) then None
      else if tq_shutdown q then Some q
      else Some (q\<lparr>tq_items := tq_items q @ [item]\<rparr>))"

text \<open>The state is the one in which an item is there, the queue is shut down, or the time is over.\<close>

definition mtq_pop :: "'a tsq \<Rightarrow> 'a option \<times> 'a tsq" where
  "mtq_pop q = (case tq_items q of [] \<Rightarrow> (None, q) | item # rest \<Rightarrow> (Some item, q\<lparr>tq_items := rest\<rparr>))"

definition mtq_shutdown :: "'a tsq \<Rightarrow> 'a tsq" where
  "mtq_shutdown q = q\<lparr>tq_shutdown := True\<rparr>"

definition mtq_size :: "'a tsq \<Rightarrow> nat" where
  "mtq_size q = length (tq_items q)"

definition mtq_is_shutdown :: "'a tsq \<Rightarrow> bool" where
  "mtq_is_shutdown q = tq_shutdown q"

text \<open>A push that goes through, and a pop, as one channel.\<close>

interpretation mtq: fifo_channel tq_items
    "\<lambda>x q. case mtq_push x q of None \<Rightarrow> (False, q) | Some q' \<Rightarrow> (\<not> mtq_is_shutdown q, q')" mtq_pop
  by unfold_locales (auto simp: mtq_push_def mtq_pop_def mtq_is_shutdown_def split: list.splits)

definition rules_parseIP :: "string \<Rightarrow> u32 res" where
  "rules_parseIP ip = legacy_parseIP ip 0 0 0"

definition rules_blockIP :: "string \<Rightarrow> BlockingRules \<Rightarrow> BlockingRules res" where
  "rules_blockIP ip rules =
     rbind (rules_parseIP ip) (\<lambda>addr. Inr (rules\<lparr>br_blocked_ips := uset_insert addr (br_blocked_ips rules)\<rparr>))"

definition rules_blockApp :: "string \<Rightarrow> BlockingRules \<Rightarrow> BlockingRules" where
  "rules_blockApp = br_blockApp"

definition rules_blockDomain :: "string \<Rightarrow> BlockingRules \<Rightarrow> BlockingRules" where
  "rules_blockDomain = br_blockDomain"

definition rules_isBlocked :: "BlockingRules \<Rightarrow> u32 \<Rightarrow> AppType \<Rightarrow> string \<Rightarrow> bool" where
  "rules_isBlocked = br_isBlocked"

section \<open>Packets and flows\<close>

record Packet =
  mp_id :: u32
  mp_ts_sec :: u32
  mp_ts_usec :: u32
  mp_tuple :: FiveTuple
  mp_data :: bytes
  mp_tcp_flags :: u8
  mp_payload_offset :: nat
  mp_payload_length :: nat

record FlowEntry =
  fe_tuple :: FiveTuple
  fe_app_type :: AppType
  fe_sni :: string
  fe_packets :: u64
  fe_bytes :: u64
  fe_blocked :: bool
  fe_classified :: bool

definition new_entry :: "FiveTuple \<Rightarrow> FlowEntry" where
  "new_entry tuple = \<lparr>fe_tuple = tuple, fe_app_type = UNKNOWN, fe_sni = [], fe_packets = 0, fe_bytes = 0,
     fe_blocked = False, fe_classified = False\<rparr>"

record MtStats =
  mt_total_packets :: nat
  mt_total_bytes :: nat
  mt_forwarded :: nat
  mt_dropped :: nat
  mt_tcp_packets :: nat
  mt_udp_packets :: nat
  mt_app_counts :: "AppType \<Rightarrow> nat"
  mt_detected_snis :: "string \<rightharpoonup> AppType"

definition recordApp :: "AppType \<Rightarrow> string \<Rightarrow> MtStats \<Rightarrow> MtStats" where
  "recordApp app sni st =
     (let st = st\<lparr>mt_app_counts := (mt_app_counts st)(app := mt_app_counts st app + 1)\<rparr>
      in if sni \<noteq> [] then st\<lparr>mt_detected_snis := (mt_detected_snis st)(sni \<mapsto> app)\<rparr> else st)"

text \<open>
  Where the reader finds the payload. The length stays unset when the packet ends with the Ethernet
  header, which the parser does not accept.
\<close>

definition payload_place :: "ParsedPacket \<Rightarrow> bytes \<Rightarrow> (nat \<times> nat) res" where
  "payload_place parsed data =
     (if length data > 14 then
        rbind (rd data 14) (\<lambda>b.
          let offset = 14 + unat (b AND 0x0F) * 4 in
          rbind (if pp_has_tcp parsed \<and> offset + 12 < length data
                 then rbind (rd data (offset + 12)) (\<lambda>b. Inr (offset + unat (drop_bit 4 b AND 0x0F) * 4))
                 else Inr (if pp_has_udp parsed then offset + 8 else offset)) (\<lambda>offset.
            Inr (offset, if offset < length data then length data - offset else 0)))
      else Inl IndeterminateValue)"

definition make_packet :: "u32 \<Rightarrow> RawPacket \<Rightarrow> ParsedPacket \<Rightarrow> Packet res" where
  "make_packet pkt_id raw parsed =
     rbind (tuple_from_text parsed) (\<lambda>tuple.
     rbind (payload_place parsed (rp_data raw)) (\<lambda>(offset, len).
       Inr \<lparr>mp_id = pkt_id, mp_ts_sec = ts_sec (rp_header raw), mp_ts_usec = ts_usec (rp_header raw),
         mp_tuple = tuple, mp_data = rp_data raw, mp_tcp_flags = pp_tcp_flags parsed,
         mp_payload_offset = offset, mp_payload_length = len\<rparr>))"

definition count_packet :: "ParsedPacket \<Rightarrow> bytes \<Rightarrow> MtStats \<Rightarrow> MtStats" where
  "count_packet parsed data st =
     (let st = st\<lparr>mt_total_packets := mt_total_packets st + 1, mt_total_bytes := mt_total_bytes st + length data\<rparr>
      in if pp_has_tcp parsed then st\<lparr>mt_tcp_packets := mt_tcp_packets st + 1\<rparr>
         else if pp_has_udp parsed then st\<lparr>mt_udp_packets := mt_udp_packets st + 1\<rparr> else st)"

section \<open>Classification\<close>

definition name_entry :: "string \<Rightarrow> FlowEntry \<Rightarrow> FlowEntry" where
  "name_entry name flow = flow\<lparr>fe_sni := name, fe_app_type := sniToAppType name, fe_classified := True\<rparr>"

definition classifyFlow :: "Packet \<Rightarrow> FlowEntry \<Rightarrow> FlowEntry res" where
  "classifyFlow pkt flow =
     (let payload = drop (mp_payload_offset pkt) (mp_data pkt); len = mp_payload_length pkt;
          dst_port = ft_dst_port (mp_tuple pkt); src_port = ft_src_port (mp_tuple pkt)
      in rbind (if dst_port = 443 \<and> len > 5 then SNIExtractor_extract payload len else Inr None) (\<lambda>sni.
         case sni of Some name \<Rightarrow> Inr (name_entry name flow) | None \<Rightarrow>
         rbind (if dst_port = 80 \<and> len > 10 then HTTPHostExtractor_extract payload len else Inr None) (\<lambda>host.
         case host of Some name \<Rightarrow> Inr (name_entry name flow) | None \<Rightarrow>
           Inr (if dst_port = 53 \<or> src_port = 53 then flow\<lparr>fe_app_type := DNS, fe_classified := True\<rparr>
                else if dst_port = 443 then flow\<lparr>fe_app_type := HTTPS\<rparr>
                else if dst_port = 80 then flow\<lparr>fe_app_type := HTTP\<rparr>
                else flow))))"

text \<open>What a packet does to its entry; the packet is dropped if it is blocked afterwards.\<close>

definition entry_after :: "BlockingRules \<Rightarrow> Packet \<Rightarrow> FlowEntry \<Rightarrow> FlowEntry res" where
  "entry_after rules pkt flow =
     (let flow = (if fe_packets flow = 0 then flow\<lparr>fe_tuple := mp_tuple pkt\<rparr> else flow);
          flow = flow\<lparr>fe_packets := fe_packets flow + 1, fe_bytes := fe_bytes flow + of_nat (length (mp_data pkt))\<rparr>
      in rbind (if \<not> fe_classified flow then classifyFlow pkt flow else Inr flow) (\<lambda>flow.
         Inr (if \<not> fe_blocked flow
              then flow\<lparr>fe_blocked := rules_isBlocked rules (ft_src_ip (mp_tuple pkt)) (fe_app_type flow) (fe_sni flow)\<rparr>
              else flow)))"

section \<open>The threads\<close>

text \<open>
  A loop tests \<open>running_\<close>, takes an item and hands it on; each is a step of its own. \<open>mf_decided\<close> is the
  record of the decisions of a fast path: a packet and whether it was dropped.
\<close>

datatype mf_pc = MF_Test | MF_Pop | MF_Push Packet | MF_Ended

record MtFastPath =
  mf_input_queue :: "Packet tsq"
  mf_flows :: "FiveTuple \<rightharpoonup> FlowEntry"
  mf_running :: bool
  mf_processed :: nat
  mf_decided :: "(Packet \<times> bool) list"
  mf_pc :: mf_pc

datatype ml_pc = ML_Test | ML_Pop | ML_Push nat Packet | ML_Ended

record MtLoadBalancer =
  ml_fps :: "nat list"
  ml_num_fps :: nat
  ml_input_queue :: "Packet tsq"
  ml_running :: bool
  ml_dispatched :: nat
  ml_pc :: ml_pc

datatype mo_pc = MO_Test | MO_Pop | MO_Ended

text \<open>The main thread in \<open>process\<close>; the sleep before the stops may be as short as nothing.\<close>

datatype mm_pc =
    MM_Read "RawPacket list" u32
  | MM_Push nat Packet "RawPacket list" u32
  | MM_StopLB nat
  | MM_JoinLB nat
  | MM_StopFP nat
  | MM_JoinFP nat
  | MM_StopOutput
  | MM_JoinOutput
  | MM_Done

record MtEngine =
  me_rules :: BlockingRules
  me_stats :: MtStats
  me_output_queue :: "Packet tsq"
  me_fps :: "MtFastPath list"
  me_lbs :: "MtLoadBalancer list"
  me_output_running :: bool
  me_output_pc :: mo_pc
  me_output :: bytes
  me_main_pc :: mm_pc
  me_fault :: "cxx_fault option"

definition new_mt_fast_path :: MtFastPath where
  "new_mt_fast_path = \<lparr>mf_input_queue = new_queue 10000, mf_flows = Map.empty, mf_running = False, mf_processed = 0,
     mf_decided = [], mf_pc = MF_Test\<rparr>"

definition new_mt_load_balancer :: "nat list \<Rightarrow> MtLoadBalancer" where
  "new_mt_load_balancer fps = \<lparr>ml_fps = fps, ml_num_fps = length fps, ml_input_queue = new_queue 10000,
     ml_running = False, ml_dispatched = 0, ml_pc = ML_Test\<rparr>"

definition mf_start :: "MtFastPath \<Rightarrow> MtFastPath" where
  "mf_start fp = fp\<lparr>mf_running := True\<rparr>"

definition ml_start :: "MtLoadBalancer \<Rightarrow> MtLoadBalancer" where
  "ml_start lb = lb\<lparr>ml_running := True\<rparr>"

text \<open>\<open>stop\<close> up to the join.\<close>

definition mf_stop :: "MtFastPath \<Rightarrow> MtFastPath" where
  "mf_stop fp = fp\<lparr>mf_running := False, mf_input_queue := mtq_shutdown (mf_input_queue fp)\<rparr>"

definition ml_stop :: "MtLoadBalancer \<Rightarrow> MtLoadBalancer" where
  "ml_stop lb = lb\<lparr>ml_running := False, ml_input_queue := mtq_shutdown (ml_input_queue lb)\<rparr>"

text \<open>One packet in \<open>run\<close> of a fast path, up to the push to the output queue.\<close>

definition mf_decide :: "BlockingRules \<Rightarrow> Packet \<Rightarrow> MtFastPath \<Rightarrow> MtStats \<Rightarrow> (MtFastPath \<times> MtStats) res" where
  "mf_decide rules pkt fp st =
     rbind (entry_after rules pkt (case mf_flows fp (mp_tuple pkt) of None \<Rightarrow> new_entry (mp_tuple pkt) | Some flow \<Rightarrow> flow)) (\<lambda>flow.
       let st = recordApp (fe_app_type flow) (fe_sni flow) st
       in Inr (fp\<lparr>mf_processed := mf_processed fp + 1, mf_flows := (mf_flows fp)(mp_tuple pkt \<mapsto> flow),
                  mf_decided := mf_decided fp @ [(pkt, fe_blocked flow)],
                  mf_pc := (if fe_blocked flow then MF_Test else MF_Push pkt)\<rparr>,
               if fe_blocked flow then st\<lparr>mt_dropped := mt_dropped st + 1\<rparr>
               else st\<lparr>mt_forwarded := mt_forwarded st + 1\<rparr>))"

definition mf_step :: "nat \<Rightarrow> MtEngine \<Rightarrow> MtEngine option res" where
  "mf_step i en =
     (let fp = me_fps en ! i; set_fp = (\<lambda>fp en. en\<lparr>me_fps := (me_fps en)[i := fp]\<rparr>)
      in case mf_pc fp of
           MF_Test \<Rightarrow> Inr (Some (set_fp (fp\<lparr>mf_pc := (if mf_running fp then MF_Pop else MF_Ended)\<rparr>) en))
         | MF_Pop \<Rightarrow>
             let (pkt_opt, q) = mtq_pop (mf_input_queue fp); fp = fp\<lparr>mf_input_queue := q\<rparr>
             in (case pkt_opt of
                   None \<Rightarrow> Inr (Some (set_fp (fp\<lparr>mf_pc := MF_Test\<rparr>) en))
                 | Some pkt \<Rightarrow>
                     rbind (mf_decide (me_rules en) pkt fp (me_stats en)) (\<lambda>(fp, st).
                       Inr (Some (set_fp fp (en\<lparr>me_stats := st\<rparr>)))))
         | MF_Push pkt \<Rightarrow>
             Inr (map_option (\<lambda>q. set_fp (fp\<lparr>mf_pc := MF_Test\<rparr>) (en\<lparr>me_output_queue := q\<rparr>))
               (mtq_push pkt (me_output_queue en)))
         | MF_Ended \<Rightarrow> Inr None)"

definition ml_step :: "std_hash \<Rightarrow> nat \<Rightarrow> MtEngine \<Rightarrow> MtEngine option res" where
  "ml_step sh i en =
     (let lb = me_lbs en ! i; set_lb = (\<lambda>lb en. en\<lparr>me_lbs := (me_lbs en)[i := lb]\<rparr>)
      in case ml_pc lb of
           ML_Test \<Rightarrow> Inr (Some (set_lb (lb\<lparr>ml_pc := (if ml_running lb then ML_Pop else ML_Ended)\<rparr>) en))
         | ML_Pop \<Rightarrow>
             let (pkt_opt, q) = mtq_pop (ml_input_queue lb); lb = lb\<lparr>ml_input_queue := q\<rparr>
             in (case pkt_opt of
                   None \<Rightarrow> Inr (Some (set_lb (lb\<lparr>ml_pc := ML_Test\<rparr>) en))
                 | Some pkt \<Rightarrow>
                     if ml_num_fps lb = 0 then Inl DivisionByZero
                     else Inr (Some (set_lb (lb\<lparr>ml_pc :=
                       ML_Push (unat (FiveTupleHash sh (mp_tuple pkt)) mod ml_num_fps lb) pkt\<rparr>) en)))
         | ML_Push fp_idx pkt \<Rightarrow>
             let f = ml_fps lb ! fp_idx
             in Inr (map_option (\<lambda>q. set_lb (lb\<lparr>ml_dispatched := ml_dispatched lb + 1, ml_pc := ML_Test\<rparr>)
                      (en\<lparr>me_fps := (me_fps en)[f := (me_fps en ! f)\<lparr>mf_input_queue := q\<rparr>]\<rparr>))
                    (mtq_push pkt (mf_input_queue (me_fps en ! f))))
         | ML_Ended \<Rightarrow> Inr None)"

definition mo_step :: "bool \<Rightarrow> MtEngine \<Rightarrow> MtEngine option" where
  "mo_step le en =
     (case me_output_pc en of
        MO_Test \<Rightarrow>
          Some (en\<lparr>me_output_pc :=
            (if me_output_running en \<or> mtq_size (me_output_queue en) > 0 then MO_Pop else MO_Ended)\<rparr>)
      | MO_Pop \<Rightarrow>
          let (pkt_opt, q) = mtq_pop (me_output_queue en); en = en\<lparr>me_output_queue := q, me_output_pc := MO_Test\<rparr>
          in Some (case pkt_opt of
               None \<Rightarrow> en
             | Some pkt \<Rightarrow> en\<lparr>me_output := me_output en @
                   output_packet_bytes le (mp_ts_sec pkt) (mp_ts_usec pkt) (mp_data pkt)\<rparr>)
      | MO_Ended \<Rightarrow> None)"

definition mm_step :: "bool \<Rightarrow> std_hash \<Rightarrow> MtEngine \<Rightarrow> MtEngine option res" where
  "mm_step le sh en =
     (case me_main_pc en of
        MM_Read [] pkt_id \<Rightarrow> Inr (Some (en\<lparr>me_main_pc := MM_StopLB 0\<rparr>))
      | MM_Read (raw # raws) pkt_id \<Rightarrow>
          rbind (parse le raw) (\<lambda>(ok, parsed).
            if \<not> ok \<or> \<not> pp_has_ip parsed \<or> \<not> pp_has_tcp parsed \<and> \<not> pp_has_udp parsed
            then Inr (Some (en\<lparr>me_main_pc := MM_Read raws pkt_id\<rparr>))
            else
              rbind (make_packet pkt_id raw parsed) (\<lambda>pkt.
                if me_lbs en = [] then Inl DivisionByZero
                else Inr (Some (en\<lparr>me_stats := count_packet parsed (mp_data pkt) (me_stats en),
                       me_main_pc := MM_Push (unat (FiveTupleHash sh (mp_tuple pkt)) mod length (me_lbs en))
                         pkt raws (pkt_id + 1)\<rparr>))))
      | MM_Push l pkt raws pkt_id \<Rightarrow>
          Inr (map_option (\<lambda>q. en\<lparr>me_lbs := (me_lbs en)[l := (me_lbs en ! l)\<lparr>ml_input_queue := q\<rparr>],
                me_main_pc := MM_Read raws pkt_id\<rparr>)
            (mtq_push pkt (ml_input_queue (me_lbs en ! l))))
      | MM_StopLB i \<Rightarrow>
          Inr (Some (if i < length (me_lbs en)
            then en\<lparr>me_lbs := (me_lbs en)[i := ml_stop (me_lbs en ! i)], me_main_pc := MM_JoinLB i\<rparr>
            else en\<lparr>me_main_pc := MM_StopFP 0\<rparr>))
      | MM_JoinLB i \<Rightarrow>
          Inr (if ml_pc (me_lbs en ! i) = ML_Ended then Some (en\<lparr>me_main_pc := MM_StopLB (i + 1)\<rparr>) else None)
      | MM_StopFP i \<Rightarrow>
          Inr (Some (if i < length (me_fps en)
            then en\<lparr>me_fps := (me_fps en)[i := mf_stop (me_fps en ! i)], me_main_pc := MM_JoinFP i\<rparr>
            else en\<lparr>me_main_pc := MM_StopOutput\<rparr>))
      | MM_JoinFP i \<Rightarrow>
          Inr (if mf_pc (me_fps en ! i) = MF_Ended then Some (en\<lparr>me_main_pc := MM_StopFP (i + 1)\<rparr>) else None)
      | MM_StopOutput \<Rightarrow>
          Inr (Some (en\<lparr>me_output_running := False, me_output_queue := mtq_shutdown (me_output_queue en),
            me_main_pc := MM_JoinOutput\<rparr>))
      | MM_JoinOutput \<Rightarrow> Inr (if me_output_pc en = MO_Ended then Some (en\<lparr>me_main_pc := MM_Done\<rparr>) else None)
      | MM_Done \<Rightarrow> Inr None)"

text \<open>One step of any thread. A fault of a thread is a fault of the program.\<close>

datatype mt_thread = MT_Main | MT_LB nat | MT_FP nat | MT_Output

definition mt_thread_step :: "bool \<Rightarrow> std_hash \<Rightarrow> mt_thread \<Rightarrow> MtEngine \<Rightarrow> MtEngine option res" where
  "mt_thread_step le sh t en =
     (case t of
        MT_Main \<Rightarrow> mm_step le sh en
      | MT_LB i \<Rightarrow> if i < length (me_lbs en) then ml_step sh i en else Inr None
      | MT_FP i \<Rightarrow> if i < length (me_fps en) then mf_step i en else Inr None
      | MT_Output \<Rightarrow> Inr (mo_step le en))"

inductive mt_step :: "bool \<Rightarrow> std_hash \<Rightarrow> MtEngine \<Rightarrow> MtEngine \<Rightarrow> bool" for le sh where
  step: "me_fault en = None \<Longrightarrow> mt_thread_step le sh t en = Inr (Some en') \<Longrightarrow> mt_step le sh en en'"
| fault: "me_fault en = None \<Longrightarrow> mt_thread_step le sh t en = Inl e \<Longrightarrow> mt_step le sh en (en\<lparr>me_fault := Some e\<rparr>)"

abbreviation mt_run :: "bool \<Rightarrow> std_hash \<Rightarrow> MtEngine \<Rightarrow> MtEngine \<Rightarrow> bool" where
  "mt_run le sh \<equiv> (mt_step le sh)\<^sup>*\<^sup>*"

section \<open>The program\<close>

record MtOptions =
  mo_num_lbs :: int
  mo_fps_per_lb :: int
  mo_block_ips :: "string list"
  mo_block_apps :: "string list"
  mo_block_domains :: "string list"

definition default_mt_options :: MtOptions where
  "default_mt_options = \<lparr>mo_num_lbs = 2, mo_fps_per_lb = 2, mo_block_ips = [], mo_block_apps = [], mo_block_domains = []\<rparr>"

fun mt_options :: "string list \<Rightarrow> MtOptions \<Rightarrow> MtOptions res" where
  "mt_options [] op = Inr op"
| "mt_options (arg # rest) op =
     (if arg = ''--block-ip'' \<and> rest \<noteq> [] then
        mt_options (tl rest) (op\<lparr>mo_block_ips := mo_block_ips op @ [hd rest]\<rparr>)
      else if arg = ''--block-app'' \<and> rest \<noteq> [] then
        mt_options (tl rest) (op\<lparr>mo_block_apps := mo_block_apps op @ [hd rest]\<rparr>)
      else if arg = ''--block-domain'' \<and> rest \<noteq> [] then
        mt_options (tl rest) (op\<lparr>mo_block_domains := mo_block_domains op @ [hd rest]\<rparr>)
      else if arg = ''--lbs'' \<and> rest \<noteq> [] then
        rbind (stoi (hd rest)) (\<lambda>n. mt_options (tl rest) (op\<lparr>mo_num_lbs := n\<rparr>))
      else if arg = ''--fps'' \<and> rest \<noteq> [] then
        rbind (stoi (hd rest)) (\<lambda>n. mt_options (tl rest) (op\<lparr>mo_fps_per_lb := n\<rparr>))
      else mt_options rest op)"

text \<open>
  The constructor: the pools, and which fast paths each load balancer serves. The number of fast paths is
  computed as an \<open>int\<close>.
\<close>

definition new_mt_engine :: "int \<Rightarrow> int \<Rightarrow> MtEngine res" where
  "new_mt_engine num_lbs fps_each =
     (let total_fps = num_lbs * fps_each in
      if total_fps < - (2 ^ 31) \<or> 2 ^ 31 \<le> total_fps then Inl SignedOverflow
      else Inr
        \<lparr>me_rules = no_blocking,
         me_stats = \<lparr>mt_total_packets = 0, mt_total_bytes = 0, mt_forwarded = 0, mt_dropped = 0, mt_tcp_packets = 0,
           mt_udp_packets = 0, mt_app_counts = (\<lambda>_. 0), mt_detected_snis = Map.empty\<rparr>,
         me_output_queue = new_queue 10000,
         me_fps = map (\<lambda>_. new_mt_fast_path) [0..total_fps - 1],
         me_lbs = map (\<lambda>lb. new_mt_load_balancer
           (map (\<lambda>i. nat (lb * fps_each + i)) [0..fps_each - 1])) [0..num_lbs - 1],
         me_output_running = False, me_output_pc = MO_Ended, me_output = [], me_main_pc = MM_Done, me_fault = None\<rparr>)"

fun mt_block_ips :: "string list \<Rightarrow> BlockingRules \<Rightarrow> BlockingRules res" where
  "mt_block_ips [] rules = Inr rules"
| "mt_block_ips (ip # ips) rules = rbind (rules_blockIP ip rules) (mt_block_ips ips)"

definition mt_rules :: "MtOptions \<Rightarrow> BlockingRules \<Rightarrow> BlockingRules res" where
  "mt_rules op rules =
     rbind (mt_block_ips (mo_block_ips op) rules) (\<lambda>rules.
       Inr (fold rules_blockDomain (mo_block_domains op) (fold rules_blockApp (mo_block_apps op) rules)))"

text \<open>\<open>process\<close> up to the first packet; \<open>None\<close> when a file cannot be opened.\<close>

definition mt_process :: "bool \<Rightarrow> bytes option \<Rightarrow> bool \<Rightarrow> MtEngine \<Rightarrow> MtEngine option" where
  "mt_process le input output_opens en =
     (case pcap_open le input closed_reader of
        (False, _) \<Rightarrow> None
      | (True, reader) \<Rightarrow>
          if \<not> output_opens then None
          else Some (en\<lparr>me_output := store_global_header le (pr_global_header reader),
            me_fps := map mf_start (me_fps en), me_lbs := map ml_start (me_lbs en),
            me_output_running := True, me_output_pc := MO_Test, me_main_pc := MM_Read (read_packets le reader) 0\<rparr>))"

text \<open>\<open>main\<close>: it ends with an exit code, or the threads run.\<close>

datatype mt_started = MT_Exit int | MT_Running MtEngine

definition mt_main ::
  "bool \<Rightarrow> (string \<Rightarrow> bytes option) \<Rightarrow> (string \<Rightarrow> bool) \<Rightarrow> string list \<Rightarrow> mt_started res" where
  "mt_main le captures creates argv =
     (if length argv < 3 then Inr (MT_Exit 1)
      else rbind (mt_options (drop 3 argv) default_mt_options) (\<lambda>op.
           rbind (new_mt_engine (mo_num_lbs op) (mo_fps_per_lb op)) (\<lambda>en.
           rbind (mt_rules op (me_rules en)) (\<lambda>rules.
             Inr (case mt_process le (captures (argv ! 1)) (creates (argv ! 2)) (en\<lparr>me_rules := rules\<rparr>) of
                    None \<Rightarrow> MT_Exit 1
                  | Some en \<Rightarrow> MT_Running en)))))"

end
