(* ===== verification/Legacy_Refinement.thy ===== *)
theory Legacy_Refinement
  imports Legacy_Threads
begin

text \<open>
  The threads of \<open>legacy/dpi_mt.cpp\<close> under every interleaving: what is decided, counted and written, what can
  be lost, and the comparison with the single-threaded program.
\<close>

section \<open>The packets on their way\<close>

abbreviation tuple_hash :: "std_hash \<Rightarrow> Packet \<Rightarrow> nat" where
  "tuple_hash sh pkt \<equiv> unat (FiveTupleHash sh (mp_tuple pkt))"

text \<open>The packets the reader makes of raw packets.\<close>

definition made_packet :: "bool \<Rightarrow> RawPacket \<Rightarrow> u32 \<Rightarrow> Packet option" where
  "made_packet le raw n =
     (case parse le raw of
        Inr (True, pk) \<Rightarrow>
          if pp_has_ip pk \<and> (pp_has_tcp pk \<or> pp_has_udp pk)
          then (case make_packet n raw pk of Inr pkt \<Rightarrow> Some pkt | Inl _ \<Rightarrow> None)
          else None
      | _ \<Rightarrow> None)"

fun made_packets :: "bool \<Rightarrow> RawPacket list \<Rightarrow> u32 \<Rightarrow> Packet list" where
  "made_packets le [] n = []"
| "made_packets le (raw # raws) n =
     (case made_packet le raw n of
        None \<Rightarrow> made_packets le raws n
      | Some pkt \<Rightarrow> pkt # made_packets le raws (n + 1))"

fun mm_hand :: "mm_pc \<Rightarrow> Packet list" where
  "mm_hand (MM_Push l pkt raws n) = [pkt]"
| "mm_hand _ = []"

fun to_make :: "bool \<Rightarrow> mm_pc \<Rightarrow> Packet list" where
  "to_make le (MM_Read raws n) = made_packets le raws n"
| "to_make le (MM_Push l pkt raws n) = made_packets le raws n"
| "to_make le _ = []"

fun ml_hand :: "ml_pc \<Rightarrow> Packet list" where
  "ml_hand (ML_Push k pkt) = [pkt]"
| "ml_hand _ = []"

fun mf_hand :: "mf_pc \<Rightarrow> Packet list" where
  "mf_hand (MF_Push pkt) = [pkt]"
| "mf_hand _ = []"

definition ml_line :: "MtLoadBalancer \<Rightarrow> Packet list" where
  "ml_line lb = ml_hand (ml_pc lb) @ tq_items (ml_input_queue lb)"

definition mf_line :: "MtFastPath \<Rightarrow> Packet list" where
  "mf_line fp = map fst (mf_decided fp) @ tq_items (mf_input_queue fp)"

definition passed :: "MtFastPath \<Rightarrow> Packet list" where
  "passed fp = map fst (filter (\<lambda>(_, blocked). \<not> blocked) (mf_decided fp))"

definition mine :: "std_hash \<Rightarrow> nat \<Rightarrow> nat \<Rightarrow> nat \<Rightarrow> Packet list \<Rightarrow> Packet list" where
  "mine sh L F i = filter (\<lambda>pkt. route sh L F (mp_tuple pkt) = i)"

lemma mine_simps [simp]:
  "mine sh L F i [] = []" "mine sh L F i (xs @ ys) = mine sh L F i xs @ mine sh L F i ys"
  "mine sh L F i (pkt # xs) = (if route sh L F (mp_tuple pkt) = i then [pkt] else []) @ mine sh L F i xs"
  by (simp_all add: mine_def)

text \<open>What a flow goes through, as a function of its packets: whether each is dropped, and the entry.\<close>

fun entry_run :: "BlockingRules \<Rightarrow> Packet list \<Rightarrow> FlowEntry option \<Rightarrow> (bool list \<times> FlowEntry option) res" where
  "entry_run rules [] entry = Inr ([], entry)"
| "entry_run rules (pkt # pkts) entry =
     rbind (entry_after rules pkt (case entry of None \<Rightarrow> new_entry (mp_tuple pkt) | Some flow \<Rightarrow> flow)) (\<lambda>flow.
     rbind (entry_run rules pkts (Some flow)) (\<lambda>(blocked, entry). Inr (fe_blocked flow # blocked, entry)))"

lemma entry_run_snoc:
  assumes "entry_run rules pkts entry = Inr (bs, entry')"
    and "entry_after rules pkt (case entry' of None \<Rightarrow> new_entry (mp_tuple pkt) | Some flow \<Rightarrow> flow) = Inr flow"
  shows "entry_run rules (pkts @ [pkt]) entry = Inr (bs @ [fe_blocked flow], Some flow)"
  using assms by (induction pkts arbitrary: entry bs) (auto simp: rbind_Inr_iff)

definition of_tuple :: "FiveTuple \<Rightarrow> Packet \<Rightarrow> bool" where
  "of_tuple t pkt \<longleftrightarrow> mp_tuple pkt = t"

definition flows_explained :: "BlockingRules \<Rightarrow> MtFastPath \<Rightarrow> bool" where
  "flows_explained rules fp \<longleftrightarrow> (\<forall>t. entry_run rules (filter (of_tuple t) (map fst (mf_decided fp))) None =
     Inr (map snd (filter (\<lambda>(pkt, _). of_tuple t pkt) (mf_decided fp)), mf_flows fp t))"

section \<open>The invariant\<close>

fun mt_stage :: "mm_pc \<Rightarrow> nat" where
  "mt_stage (MM_Read raws n) = 0"
| "mt_stage (MM_Push l pkt raws n) = 0"
| "mt_stage (MM_StopLB i) = 1"
| "mt_stage (MM_JoinLB i) = 1"
| "mt_stage (MM_StopFP i) = 2"
| "mt_stage (MM_JoinFP i) = 2"
| "mt_stage MM_StopOutput = 3"
| "mt_stage MM_JoinOutput = 4"
| "mt_stage MM_Done = 5"

fun lb_joined :: "mm_pc \<Rightarrow> nat \<Rightarrow> bool" where
  "lb_joined (MM_StopLB j) i = (i < j)"
| "lb_joined (MM_JoinLB j) i = (i < j)"
| "lb_joined pc i = (mt_stage pc > 1)"

fun fp_joined :: "mm_pc \<Rightarrow> nat \<Rightarrow> bool" where
  "fp_joined (MM_StopFP j) i = (i < j)"
| "fp_joined (MM_JoinFP j) i = (i < j)"
| "fp_joined pc i = (mt_stage pc > 2)"

fun ml_aimed :: "std_hash \<Rightarrow> nat \<Rightarrow> nat \<Rightarrow> nat \<Rightarrow> ml_pc \<Rightarrow> bool" where
  "ml_aimed sh L F i (ML_Push k pkt) = (tuple_hash sh pkt mod L = i \<and> k = tuple_hash sh pkt mod F)"
| "ml_aimed sh L F i _ = True"

fun mm_aimed :: "std_hash \<Rightarrow> nat \<Rightarrow> mm_pc \<Rightarrow> bool" where
  "mm_aimed sh L (MM_Push l pkt raws n) = (l = tuple_hash sh pkt mod L)"
| "mm_aimed sh L _ = True"

text \<open>The parts of the engine, one by one.\<close>

definition lb_fine :: "std_hash \<Rightarrow> nat \<Rightarrow> nat \<Rightarrow> mm_pc \<Rightarrow> nat \<Rightarrow> MtLoadBalancer \<Rightarrow> bool" where
  "lb_fine sh L F pc i lb \<longleftrightarrow> ml_fps lb = [i * F..<i * F + F] \<and> ml_num_fps lb = F \<and>
     (\<forall>pkt \<in> set (tq_items (ml_input_queue lb)). tuple_hash sh pkt mod L = i) \<and> ml_aimed sh L F i (ml_pc lb) \<and>
     (tq_shutdown (ml_input_queue lb) \<longrightarrow> 0 < mt_stage pc) \<and> (lb_joined pc i \<longrightarrow> ml_pc lb = ML_Ended)"

definition fp_fine :: "BlockingRules \<Rightarrow> mm_pc \<Rightarrow> nat \<Rightarrow> MtFastPath \<Rightarrow> bool" where
  "fp_fine rules pc i fp \<longleftrightarrow> flows_explained rules fp \<and>
     (tq_shutdown (mf_input_queue fp) \<longrightarrow> 1 < mt_stage pc) \<and> (fp_joined pc i \<longrightarrow> mf_pc fp = MF_Ended)"

definition out_fine :: "MtEngine \<Rightarrow> bool" where
  "out_fine en \<longleftrightarrow> (tq_shutdown (me_output_queue en) \<longrightarrow> 3 < mt_stage (me_main_pc en)) \<and>
     (me_output_running en \<longleftrightarrow> mt_stage (me_main_pc en) < 4) \<and>
     (me_output_pc en = MO_Ended \<longrightarrow> 3 < mt_stage (me_main_pc en) \<and> tq_items (me_output_queue en) = []) \<and>
     (me_main_pc en = MM_Done \<longrightarrow> me_output_pc en = MO_Ended)"

definition mt_line :: "bool \<Rightarrow> std_hash \<Rightarrow> nat \<Rightarrow> nat \<Rightarrow> nat \<Rightarrow> MtEngine \<Rightarrow> Packet list" where
  "mt_line le sh L F i en =
     mf_line (me_fps en ! i) @ mine sh L F i (ml_line (me_lbs en ! (i div F))) @
     mine sh L F i (mm_hand (me_main_pc en) @ to_make le (me_main_pc en))"

definition mt_inv ::
  "bool \<Rightarrow> std_hash \<Rightarrow> nat \<Rightarrow> nat \<Rightarrow> BlockingRules \<Rightarrow> Packet list \<Rightarrow> MtEngine \<Rightarrow> bool" where
  "mt_inv le sh L F rules J en \<longleftrightarrow>
     0 < L \<and> 0 < F \<and> length (me_lbs en) = L \<and> length (me_fps en) = L * F \<and> me_rules en = rules \<and>
     mm_aimed sh L (me_main_pc en) \<and>
     (\<forall>i < L. lb_fine sh L F (me_main_pc en) i (me_lbs en ! i)) \<and>
     (\<forall>i < L * F. fp_fine rules (me_main_pc en) i (me_fps en ! i)) \<and>
     out_fine en \<and> (\<forall>i < L * F. mt_line le sh L F i en = mine sh L F i J)"

definition mt_counts :: "bool \<Rightarrow> Packet list \<Rightarrow> MtEngine \<Rightarrow> bool" where
  "mt_counts le J en \<longleftrightarrow> mt_total_packets (me_stats en) + length (to_make le (me_main_pc en)) = length J \<and>
     mt_total_packets (me_stats en) = sum_list (map (length \<circ> mf_line) (me_fps en)) +
       sum_list (map (length \<circ> ml_line) (me_lbs en)) + length (mm_hand (me_main_pc en)) \<and>
     mt_forwarded (me_stats en) = sum_list (map (length \<circ> passed) (me_fps en)) \<and>
     mt_forwarded (me_stats en) + mt_dropped (me_stats en) = sum_list (map (length \<circ> mf_decided) (me_fps en))"

definition mp_stamped :: "Packet \<Rightarrow> stamped" where
  "mp_stamped pkt = (mp_ts_sec pkt, mp_ts_usec pkt, mp_data pkt)"

definition mt_written :: "bool \<Rightarrow> std_hash \<Rightarrow> nat \<Rightarrow> nat \<Rightarrow> bytes \<Rightarrow> MtEngine \<Rightarrow> Packet list \<Rightarrow> bool" where
  "mt_written le sh L F header en written \<longleftrightarrow>
     me_output en = header @ output_body le (map mp_stamped written) \<and>
     (\<forall>i < L * F. mine sh L F i (written @ tq_items (me_output_queue en)) @ mf_hand (mf_pc (me_fps en ! i)) =
       passed (me_fps en ! i)) \<and>
     length (written @ tq_items (me_output_queue en)) + sum_list (map (length \<circ> mf_hand \<circ> mf_pc) (me_fps en)) =
       mt_forwarded (me_stats en)"

section \<open>Steps of the fast paths\<close>

lemma sum_update:
  fixes f :: "'a \<Rightarrow> nat"
  assumes "i < length xs"
  shows "sum_list (map f (xs[i := y])) = sum_list (map f xs) + f y - f (xs ! i)"
  using sum_list_map_update [OF assms, of f y] by simp

lemma index_member: "i < length xs \<Longrightarrow> f (xs ! i) \<le> sum_list (map f xs)" for f :: "'a \<Rightarrow> nat"
  using member_le_sum_list [of "f (xs ! i)" "map f xs"] by simp

lemma mf_decide_effect:
  assumes "mf_decide rules pkt fp st = Inr (fp', st')" and "flows_explained rules fp"
  obtains b where "mf_decided fp' = mf_decided fp @ [(pkt, b)]" "mf_pc fp' = (if b then MF_Test else MF_Push pkt)"
    "mf_input_queue fp' = mf_input_queue fp" "flows_explained rules fp'"
    "mt_total_packets st' = mt_total_packets st" "mt_forwarded st' = mt_forwarded st + (if b then 0 else 1)"
    "mt_dropped st' = mt_dropped st + (if b then 1 else 0)"
proof -
  obtain flow where e: "entry_after rules pkt (case mf_flows fp (mp_tuple pkt) of None \<Rightarrow> new_entry (mp_tuple pkt) | Some flow \<Rightarrow> flow) = Inr flow"
    and fp': "mf_decided fp' = mf_decided fp @ [(pkt, fe_blocked flow)]" "mf_pc fp' = (if fe_blocked flow then MF_Test else MF_Push pkt)"
      "mf_input_queue fp' = mf_input_queue fp" "mf_flows fp' = (mf_flows fp)(mp_tuple pkt \<mapsto> flow)"
    and st': "st' = (let st = recordApp (fe_app_type flow) (fe_sni flow) st in
      if fe_blocked flow then st\<lparr>mt_dropped := mt_dropped st + 1\<rparr> else st\<lparr>mt_forwarded := mt_forwarded st + 1\<rparr>)"
    using assms(1) by (auto simp: mf_decide_def rbind_Inr_iff Let_def)
  have "entry_run rules (filter (of_tuple t) (map fst (mf_decided fp'))) None =
     Inr (map snd (filter (\<lambda>(pkt, _). of_tuple t pkt) (mf_decided fp')), mf_flows fp' t)" for t
    using assms(2) [unfolded flows_explained_def, rule_format, of t] entry_run_snoc [OF _ e]
    by (cases "mp_tuple pkt = t") (auto simp: fp' of_tuple_def)
  then have "flows_explained rules fp'" by (simp add: flows_explained_def)
  with fp' st' show thesis by (intro that [of "fe_blocked flow"]) (simp_all add: recordApp_def Let_def)
qed

lemma fp_update:
  assumes "mt_inv le sh L F rules J en" and "i < length (me_fps en)"
    and "mf_line fp = mf_line (me_fps en ! i)" and "fp_fine rules (me_main_pc en) i fp"
    and "me_fps en' = (me_fps en)[i := fp]" "me_lbs en' = me_lbs en" "me_rules en' = me_rules en"
      "me_main_pc en' = me_main_pc en" and "out_fine en'"
  shows "mt_inv le sh L F rules J en'"
proof -
  have "mf_line (me_fps en' ! j) = mf_line (me_fps en ! j)" for j
    using assms(2,3,5) by (cases "j = i") simp_all
  then have "mt_line le sh L F j en' = mt_line le sh L F j en" for j using assms(6,8) by (simp add: mt_line_def)
  moreover have "fp_fine rules (me_main_pc en) j (me_fps en' ! j)" if "j < L * F" for j
    using assms(1,4,5) that by (cases "j = i") (simp_all add: mt_inv_def)
  ultimately show ?thesis using assms(1,5-9) by (simp add: mt_inv_def)
qed

lemma mf_step_inv:
  assumes "mt_inv le sh L F rules J en" and "mt_counts le J en" and "\<exists>w. mt_written le sh L F header en w"
    and "i < length (me_fps en)" and "mf_step i en = Inr (Some en')"
  shows "mt_inv le sh L F rules J en' \<and> mt_counts le J en' \<and> (\<exists>w. mt_written le sh L F header en' w)"
proof -
  obtain w where w: "mt_written le sh L F header en w" using assms(3) by blast
  let ?fp = "me_fps en ! i"
  have i: "i < L * F" and fine: "fp_fine rules (me_main_pc en) i ?fp" and out: "out_fine en" and rules: "me_rules en = rules"
    using assms(1,4) by (simp_all add: mt_inv_def)
  have quiet: ?thesis
    if "en' = en\<lparr>me_fps := (me_fps en)[i := ?fp\<lparr>mf_pc := pc\<rparr>]\<rparr>" and "mf_hand pc = []" and "mf_hand (mf_pc ?fp) = []"
      and "mf_pc ?fp \<noteq> MF_Ended" for pc
  proof -
    have "mt_inv le sh L F rules J en'"
      by (rule fp_update [OF assms(1,4), where fp = "?fp\<lparr>mf_pc := pc\<rparr>"])
        (use fine out that in \<open>simp_all add: that(1) mf_line_def fp_fine_def flows_explained_def out_fine_def\<close>)
    moreover have "mt_counts le J en'"
      using assms(2,4) by (simp add: that(1) mt_counts_def sum_update mf_line_def passed_def index_member)
    moreover have "mt_written le sh L F header en' w"
      using w assms(4) that(2,3)
      by (auto simp: that(1) mt_written_def sum_update passed_def nth_list_update)
    ultimately show ?thesis by blast
  qed
  show ?thesis
  proof (cases "mf_pc ?fp")
    case MF_Test
    then show ?thesis using assms(5) by (intro quiet [of "if mf_running ?fp then MF_Pop else MF_Ended"]) (auto simp: mf_step_def)
  next
    case MF_Pop
    show ?thesis
    proof (cases "tq_items (mf_input_queue ?fp)")
      case Nil
      then show ?thesis using assms(5) MF_Pop by (intro quiet [of MF_Test]) (auto simp: mf_step_def mtq_pop_def)
    next
      case (Cons pkt rest)
      let ?q = "(mf_input_queue ?fp)\<lparr>tq_items := rest\<rparr>"
      obtain fp st where d: "mf_decide rules pkt (?fp\<lparr>mf_input_queue := ?q\<rparr>) (me_stats en) = Inr (fp, st)"
        and en': "en' = en\<lparr>me_stats := st, me_fps := (me_fps en)[i := fp]\<rparr>"
        using assms(5) MF_Pop Cons rules by (auto simp: mf_step_def mtq_pop_def rbind_Inr_iff Let_def)
      have ex: "flows_explained rules (?fp\<lparr>mf_input_queue := ?q\<rparr>)" using fine by (simp add: fp_fine_def flows_explained_def)
      obtain b where b: "mf_decided fp = mf_decided ?fp @ [(pkt, b)]" "mf_pc fp = (if b then MF_Test else MF_Push pkt)"
        "mf_input_queue fp = ?q" "flows_explained rules fp" "mt_total_packets st = mt_total_packets (me_stats en)"
        "mt_forwarded st = mt_forwarded (me_stats en) + (if b then 0 else 1)"
        "mt_dropped st = mt_dropped (me_stats en) + (if b then 1 else 0)"
        by (rule mf_decide_effect [OF d ex]) simp_all
      have line: "mf_line fp = mf_line ?fp" and pass: "passed fp = passed ?fp @ (if b then [] else [pkt])"
        by (simp_all add: mf_line_def passed_def b Cons)
      have "mt_inv le sh L F rules J en'"
        by (rule fp_update [OF assms(1,4), where fp = fp])
          (use fine out b MF_Pop line in \<open>auto simp: en' fp_fine_def out_fine_def\<close>)
      moreover have "mt_counts le J en'"
        using assms(2,4) index_member [OF assms(4), of "length \<circ> mf_line"] index_member [OF assms(4), of "length \<circ> passed"]
          index_member [OF assms(4), of "length \<circ> mf_decided"]
        by (simp add: en' mt_counts_def sum_update line pass b)
      moreover have "mt_written le sh L F header en' w"
        using w assms(4) MF_Pop
        by (auto simp: en' mt_written_def sum_update pass b nth_list_update)
      ultimately show ?thesis by blast
    qed
  next
    case (MF_Push pkt)
    then obtain q where q: "mtq_push pkt (me_output_queue en) = Some q"
      and en': "en' = en\<lparr>me_output_queue := q, me_fps := (me_fps en)[i := ?fp\<lparr>mf_pc := MF_Test\<rparr>]\<rparr>"
      using assms(5) by (auto simp: mf_step_def)
    have "\<not> fp_joined (me_main_pc en) i" using fine MF_Push by (auto simp: fp_fine_def)
    then have "mt_stage (me_main_pc en) \<le> 2" by (cases "me_main_pc en") auto
    then have "\<not> tq_shutdown (me_output_queue en)" "me_output_pc en \<noteq> MO_Ended" "me_main_pc en \<noteq> MM_Done" using out by (auto simp: out_fine_def)
    then have items: "tq_items q = tq_items (me_output_queue en) @ [pkt]" "tq_shutdown q = tq_shutdown (me_output_queue en)"
      using q by (auto simp: mtq_push_def split: if_splits)
    have "mt_inv le sh L F rules J en'"
      by (rule fp_update [OF assms(1,4), where fp = "?fp\<lparr>mf_pc := MF_Test\<rparr>"])
        (use fine out MF_Push items \<open>me_output_pc en \<noteq> MO_Ended\<close> in
          \<open>auto simp: en' mf_line_def fp_fine_def flows_explained_def out_fine_def\<close>)
    moreover have "mt_counts le J en'"
      using assms(2,4) by (simp add: en' mt_counts_def sum_update mf_line_def passed_def index_member)
    moreover have "mt_written le sh L F header en' w"
    proof -
      have "mine sh L F i (w @ tq_items (me_output_queue en)) @ [pkt] = passed ?fp"
        using w [unfolded mt_written_def, THEN conjunct2, THEN conjunct1, rule_format, OF i] MF_Push by simp
      then have "pkt \<in> set (passed ?fp)" by (metis in_set_conv_decomp)
      then have "pkt \<in> set (mt_line le sh L F i en)" by (auto simp: mt_line_def mf_line_def passed_def)
      also have "mt_line le sh L F i en = mine sh L F i J" using assms(1) i by (simp add: mt_inv_def)
      finally have "route sh L F (mp_tuple pkt) = i" by (simp add: mine_def)
      then show ?thesis
        using w assms(4) MF_Push items index_member [OF assms(4), of "length \<circ> mf_hand \<circ> mf_pc"]
        by (auto simp: en' mt_written_def sum_update passed_def nth_list_update)
    qed
    ultimately show ?thesis by blast
  qed (use assms(5) in \<open>simp add: mf_step_def\<close>)
qed

section \<open>Steps of the load balancers, the writer and the main thread\<close>

abbreviation mt_good ::
  "bool \<Rightarrow> std_hash \<Rightarrow> nat \<Rightarrow> nat \<Rightarrow> BlockingRules \<Rightarrow> bytes \<Rightarrow> Packet list \<Rightarrow> MtEngine \<Rightarrow> bool" where
  "mt_good le sh L F rules header J en \<equiv>
     mt_inv le sh L F rules J en \<and> mt_counts le J en \<and> (\<exists>w. mt_written le sh L F header en w)"

lemma in_block: "i < L * F \<Longrightarrow> i div F < (L :: nat)"
  by (simp add: less_mult_imp_div_less)

lemma lb_update:
  assumes "mt_inv le sh L F rules J en" and "i < length (me_lbs en)"
    and "ml_line lb = ml_line (me_lbs en ! i)" and "lb_fine sh L F (me_main_pc en) i lb"
    and "en' = en\<lparr>me_lbs := (me_lbs en)[i := lb]\<rparr>"
  shows "mt_inv le sh L F rules J en'"
proof -
  have "ml_line (me_lbs en' ! j) = ml_line (me_lbs en ! j)" for j
    using assms(2,3,5) by (cases "j = i") simp_all
  then have "mt_line le sh L F j en' = mt_line le sh L F j en" for j by (simp add: assms(5) mt_line_def)
  moreover have "lb_fine sh L F (me_main_pc en) j (me_lbs en' ! j)" if "j < L" for j
    using assms(1,4,5) that by (cases "j = i") (simp_all add: mt_inv_def)
  ultimately show ?thesis using assms(1,5) by (simp add: mt_inv_def out_fine_def)
qed

lemma lb_update_good:
  assumes "mt_good le sh L F rules header J en" and "i < length (me_lbs en)"
    and "ml_line lb = ml_line (me_lbs en ! i)" and "lb_fine sh L F (me_main_pc en) i lb"
    and "en' = en\<lparr>me_lbs := (me_lbs en)[i := lb]\<rparr>"
  shows "mt_good le sh L F rules header J en'"
  using assms(1) lb_update [OF _ assms(2-5)] index_member [OF assms(2), of "length \<circ> ml_line"] assms(2,3)
  by (auto simp: assms(5) mt_counts_def mt_written_def sum_update)

lemma ml_step_inv:
  assumes "mt_good le sh L F rules header J en" and "i < length (me_lbs en)" and "ml_step sh i en = Inr (Some en')"
  shows "mt_good le sh L F rules header J en'"
proof -
  let ?lb = "me_lbs en ! i"
  have inv: "mt_inv le sh L F rules J en" using assms(1) by simp
  have i: "i < L" and LF: "0 < L" "0 < F" and fine: "lb_fine sh L F (me_main_pc en) i ?lb"
    and lens: "length (me_lbs en) = L" "length (me_fps en) = L * F"
    using inv assms(2) by (auto simp: mt_inv_def)
  show ?thesis
  proof (cases "ml_pc ?lb")
    case ML_Test
    then show ?thesis
      using assms(3) fine
      by (intro lb_update_good [OF assms(1,2), where lb = "?lb\<lparr>ml_pc := (if ml_running ?lb then ML_Pop else ML_Ended)\<rparr>"])
        (auto simp: ml_step_def ml_line_def lb_fine_def Let_def)
  next
    case ML_Pop
    show ?thesis
    proof (cases "tq_items (ml_input_queue ?lb)")
      case Nil
      then show ?thesis
        using assms(3) fine ML_Pop
        by (intro lb_update_good [OF assms(1,2), where lb = "?lb\<lparr>ml_pc := ML_Test\<rparr>"])
          (auto simp: ml_step_def mtq_pop_def ml_line_def lb_fine_def Let_def)
    next
      case (Cons pkt rest)
      let ?new = "?lb\<lparr>ml_input_queue := (ml_input_queue ?lb)\<lparr>tq_items := rest\<rparr>, ml_pc := ML_Push (tuple_hash sh pkt mod F) pkt\<rparr>"
      have "en' = en\<lparr>me_lbs := (me_lbs en)[i := ?new]\<rparr>"
        using assms(3) fine LF(2) ML_Pop Cons by (simp add: ml_step_def mtq_pop_def lb_fine_def Let_def)
      then show ?thesis
        using fine ML_Pop Cons
        by (intro lb_update_good [OF assms(1,2), where lb = ?new]) (auto simp: ml_line_def lb_fine_def)
    qed
  next
    case (ML_Push k pkt)
    let ?f = "i * F + k" and ?new = "?lb\<lparr>ml_dispatched := ml_dispatched ?lb + 1, ml_pc := ML_Test\<rparr>"
    have aim: "tuple_hash sh pkt mod L = i" "k = tuple_hash sh pkt mod F" using fine ML_Push by (auto simp: lb_fine_def)
    then have k: "k < F" using LF by simp
    have f: "?f div F = i" "route sh L F (mp_tuple pkt) = ?f" using aim k by (simp_all add: route_def Let_def)
    then have f': "?f < L * F" using route_less [OF LF] by metis
    have "ml_fps ?lb ! k = ?f" using fine k by (simp add: lb_fine_def)
    then obtain q where q: "mtq_push pkt (mf_input_queue (me_fps en ! ?f)) = Some q"
      and en': "en' = en\<lparr>me_fps := (me_fps en)[?f := (me_fps en ! ?f)\<lparr>mf_input_queue := q\<rparr>], me_lbs := (me_lbs en)[i := ?new]\<rparr>"
      using assms(3) ML_Push by (auto simp: ml_step_def Let_def)
    have "\<not> lb_joined (me_main_pc en) i" using fine ML_Push by (auto simp: lb_fine_def)
    then have "mt_stage (me_main_pc en) \<le> 1" by (cases "me_main_pc en") auto
    then have "\<not> tq_shutdown (mf_input_queue (me_fps en ! ?f))"
      using inv f' by (auto simp: mt_inv_def fp_fine_def)
    then have items: "tq_items q = tq_items (mf_input_queue (me_fps en ! ?f)) @ [pkt]" "\<not> tq_shutdown q"
      using q by (auto simp: mtq_push_def split: if_splits)
    have line: "mt_line le sh L F j en' = mt_line le sh L F j en" if "j < L * F" for j
    proof (cases "j = ?f")
      case True
      then show ?thesis using f' lens i f items ML_Push by (simp add: mt_line_def en' mf_line_def ml_line_def)
    next
      case False
      then show ?thesis using lens i f ML_Push by (cases "j div F = i") (auto simp: mt_line_def en' ml_line_def)
    qed
    have lbs: "lb_fine sh L F (me_main_pc en) j (me_lbs en' ! j)" if "j < L" for j
      using inv that lens fine \<open>\<not> lb_joined _ i\<close> by (cases "j = i") (auto simp: mt_inv_def en' lb_fine_def)
    have fps: "fp_fine rules (me_main_pc en) j (me_fps en' ! j)" if "j < L * F" for j
      using inv that lens items by (cases "j = ?f") (auto simp: mt_inv_def en' fp_fine_def flows_explained_def)
    have "mt_inv le sh L F rules J en'"
      using inv line lbs fps by (auto simp: mt_inv_def en' out_fine_def)
    moreover have "mt_counts le J en'"
      using assms(1,2) f' lens items ML_Push index_member [of ?f "me_fps en" "length \<circ> mf_line"]
        index_member [OF assms(2), of "length \<circ> ml_line"] index_member [of ?f "me_fps en" "length \<circ> passed"]
        index_member [of ?f "me_fps en" "length \<circ> mf_decided"]
      by (simp add: en' mt_counts_def sum_update mf_line_def ml_line_def passed_def)
    moreover have "\<exists>w. mt_written le sh L F header en' w"
      using assms(1) f' lens index_member [of ?f "me_fps en" "length \<circ> mf_hand \<circ> mf_pc"]
      by (fastforce simp: en' mt_written_def sum_update passed_def nth_list_update)
    ultimately show ?thesis by blast
  qed (use assms(3) in \<open>simp add: ml_step_def\<close>)
qed

lemma mo_step_inv:
  assumes "mt_good le sh L F rules header J en" and "mo_step le en = Some en'"
  shows "mt_good le sh L F rules header J en'"
proof -
  obtain w where w: "mt_written le sh L F header en w" using assms(1) by blast
  have same: "mt_inv le sh L F rules J en' \<and> mt_counts le J en'"
    if "me_fps en' = me_fps en" "me_lbs en' = me_lbs en" "me_rules en' = me_rules en" "me_main_pc en' = me_main_pc en"
      "me_stats en' = me_stats en" "out_fine en'"
    using assms(1) that by (auto simp: mt_inv_def mt_counts_def mt_line_def)
  show ?thesis
  proof (cases "me_output_pc en")
    case MO_Test
    then have en': "en' = en\<lparr>me_output_pc := (if me_output_running en \<or> mtq_size (me_output_queue en) > 0 then MO_Pop else MO_Ended)\<rparr>"
      using assms(2) by (simp add: mo_step_def)
    then have "mt_written le sh L F header en' w" using w by (simp add: mt_written_def)
    moreover have "mt_inv le sh L F rules J en' \<and> mt_counts le J en'"
      using assms(1) MO_Test by (intro same) (auto simp: en' mtq_size_def mt_inv_def out_fine_def split: if_splits)
    ultimately show ?thesis by blast
  next
    case MO_Pop
    show ?thesis
    proof (cases "tq_items (me_output_queue en)")
      case Nil
      then have en': "en' = en\<lparr>me_output_pc := MO_Test\<rparr>"
        using assms(2) MO_Pop by (simp add: mo_step_def mtq_pop_def)
      then have "mt_written le sh L F header en' w" using w by (simp add: mt_written_def)
      moreover have "mt_inv le sh L F rules J en' \<and> mt_counts le J en'"
        using assms(1) MO_Pop by (intro same) (auto simp: en' mt_inv_def out_fine_def)
      ultimately show ?thesis by blast
    next
      case (Cons pkt rest)
      then have en': "en' = en\<lparr>me_output_queue := (me_output_queue en)\<lparr>tq_items := rest\<rparr>, me_output_pc := MO_Test,
          me_output := me_output en @ output_packet_bytes le (mp_ts_sec pkt) (mp_ts_usec pkt) (mp_data pkt)\<rparr>"
        using assms(2) MO_Pop by (simp add: mo_step_def mtq_pop_def Let_def)
      have "mt_written le sh L F header en' (w @ [pkt])"
        using w Cons by (simp add: en' mt_written_def output_body_def mp_stamped_def)
      moreover have "mt_inv le sh L F rules J en' \<and> mt_counts le J en'"
        using assms(1) MO_Pop by (intro same) (auto simp: en' mt_inv_def out_fine_def)
      ultimately show ?thesis by blast
    qed
  qed (use assms(2) in \<open>simp add: mo_step_def\<close>)
qed

text \<open>The main thread: the parts stay fine for its new position.\<close>

lemma pc_update:
  assumes "mt_good le sh L F rules header J en" and "mm_aimed sh L pc"
    and "mm_hand pc @ to_make le pc = mm_hand (me_main_pc en) @ to_make le (me_main_pc en)"
    and "length (mm_hand pc) = length (mm_hand (me_main_pc en))"
    and "\<And>i. i < L \<Longrightarrow> lb_fine sh L F pc i (me_lbs en ! i)" and "\<And>i. i < L * F \<Longrightarrow> fp_fine rules pc i (me_fps en ! i)"
    and "out_fine (en\<lparr>me_main_pc := pc\<rparr>)"
  shows "mt_good le sh L F rules header J (en\<lparr>me_main_pc := pc\<rparr>)"
  using assms by (auto simp: mt_inv_def mt_counts_def mt_written_def mt_line_def)

lemma made_packet_read:
  assumes "parse le raw = Inr (ok, parsed)"
  shows "\<not> ok \<or> \<not> pp_has_ip parsed \<or> \<not> pp_has_tcp parsed \<and> \<not> pp_has_udp parsed \<Longrightarrow> made_packet le raw n = None"
    and "\<lbrakk>ok; pp_has_ip parsed; pp_has_tcp parsed \<or> pp_has_udp parsed; make_packet n raw parsed = Inr pkt\<rbrakk> \<Longrightarrow>
      made_packet le raw n = Some pkt"
  using assms by (auto simp: made_packet_def split: bool.split)

lemma count_packet_simps [simp]:
  "mt_total_packets (count_packet parsed data st) = mt_total_packets st + 1"
  "mt_forwarded (count_packet parsed data st) = mt_forwarded st" "mt_dropped (count_packet parsed data st) = mt_dropped st"
  by (simp_all add: count_packet_def Let_def)

lemma mm_step_inv:
  assumes "mt_good le sh L F rules header J en" and "mm_step le sh en = Inr (Some en')"
  shows "mt_good le sh L F rules header J en'"
proof -
  have inv: "mt_inv le sh L F rules J en" using assms(1) by simp
  have lens: "length (me_lbs en) = L" "length (me_fps en) = L * F" and LF: "0 < L" "0 < F" and out: "out_fine en"
    and lbs: "\<And>i. i < L \<Longrightarrow> lb_fine sh L F (me_main_pc en) i (me_lbs en ! i)"
    and fps: "\<And>i. i < L * F \<Longrightarrow> fp_fine rules (me_main_pc en) i (me_fps en ! i)"
    using inv by (auto simp: mt_inv_def)
  show ?thesis
  proof (cases "me_main_pc en")
    case (MM_Read raws n)
    show ?thesis
    proof (cases raws)
      case Nil
      then have "en' = en\<lparr>me_main_pc := MM_StopLB 0\<rparr>" using assms(2) MM_Read by (simp add: mm_step_def)
      moreover have "mt_good le sh L F rules header J (en\<lparr>me_main_pc := MM_StopLB 0\<rparr>)"
        by (rule pc_update [OF assms(1)])
          (use lbs fps out MM_Read Nil in \<open>auto simp: lb_fine_def fp_fine_def out_fine_def\<close>)
      ultimately show ?thesis by simp
    next
      case (Cons raw rest)
      obtain ok parsed where p: "parse le raw = Inr (ok, parsed)" using parse_wp [of le raw] by (auto simp: wp_iff)
      show ?thesis
      proof (cases "ok \<and> pp_has_ip parsed \<and> (pp_has_tcp parsed \<or> pp_has_udp parsed)")
        case False
        then have "en' = en\<lparr>me_main_pc := MM_Read rest n\<rparr>" using assms(2) MM_Read Cons p by (auto simp: mm_step_def)
        moreover have "mt_good le sh L F rules header J (en\<lparr>me_main_pc := MM_Read rest n\<rparr>)"
          by (rule pc_update [OF assms(1)])
            (use lbs fps out MM_Read Cons False made_packet_read(1) [OF p] in \<open>auto simp: lb_fine_def fp_fine_def out_fine_def\<close>)
        ultimately show ?thesis by simp
      next
        case True
        then obtain pkt where pkt: "make_packet n raw parsed = Inr pkt"
          and en': "en' = en\<lparr>me_stats := count_packet parsed (mp_data pkt) (me_stats en),
            me_main_pc := MM_Push (tuple_hash sh pkt mod L) pkt rest (n + 1)\<rparr>"
          using assms(2) MM_Read Cons p lens LF by (auto simp: mm_step_def rbind_Inr_iff split: if_splits)
        have made: "made_packet le raw n = Some pkt" using made_packet_read(2) [OF p] True pkt by simp
        have "mt_inv le sh L F rules J en'"
          using inv lbs fps out MM_Read Cons made
          by (auto simp: en' mt_inv_def mt_line_def lb_fine_def fp_fine_def out_fine_def)
        moreover have "mt_counts le J en'" using assms(1) MM_Read Cons made by (auto simp: en' mt_counts_def)
        moreover have "\<exists>w. mt_written le sh L F header en' w" using assms(1) by (auto simp: en' mt_written_def)
        ultimately show ?thesis by blast
      qed
    qed
  next
    case (MM_Push l pkt raws n)
    let ?lb = "me_lbs en ! l"
    obtain q where q: "mtq_push pkt (ml_input_queue ?lb) = Some q"
      and en': "en' = en\<lparr>me_lbs := (me_lbs en)[l := ?lb\<lparr>ml_input_queue := q\<rparr>], me_main_pc := MM_Read raws n\<rparr>"
      using assms(2) MM_Push by (auto simp: mm_step_def)
    have l: "l = tuple_hash sh pkt mod L" "l < L" using inv MM_Push LF by (auto simp: mt_inv_def)
    then have "\<not> tq_shutdown (ml_input_queue ?lb)" using lbs [of l] MM_Push by (auto simp: lb_fine_def)
    then have items: "tq_items q = tq_items (ml_input_queue ?lb) @ [pkt]" "\<not> tq_shutdown q"
      using q by (auto simp: mtq_push_def split: if_splits)
    have line: "mt_line le sh L F j en' = mt_line le sh L F j en" for j
    proof (cases "j div F = l")
      case True
      then show ?thesis using l lens items MM_Push by (simp add: mt_line_def en' ml_line_def)
    next
      case False
      then have "route sh L F (mp_tuple pkt) \<noteq> j" using l(1) LF by (auto simp: route_def Let_def)
      then show ?thesis using False l lens items MM_Push by (simp add: mt_line_def en' ml_line_def)
    qed
    have lb: "lb_fine sh L F (MM_Read raws n) j (me_lbs en' ! j)" if "j < L" for j
      using lbs [OF that] items l lens MM_Push by (cases "j = l") (auto simp: en' lb_fine_def)
    have "mt_inv le sh L F rules J en'"
      using inv line lb fps out MM_Push by (auto simp: mt_inv_def en' fp_fine_def out_fine_def)
    moreover have "mt_counts le J en'"
      using assms(1) l lens items MM_Push index_member [of l "me_lbs en" "length \<circ> ml_line"]
      by (simp add: en' mt_counts_def sum_update ml_line_def)
    moreover have "\<exists>w. mt_written le sh L F header en' w" using assms(1) by (auto simp: en' mt_written_def)
    ultimately show ?thesis by blast
  next
    case (MM_StopLB i)
    show ?thesis
    proof (cases "i < L")
      case True
      let ?new = "ml_stop (me_lbs en ! i)"
      have en': "en' = (en\<lparr>me_lbs := (me_lbs en)[i := ?new]\<rparr>)\<lparr>me_main_pc := MM_JoinLB i\<rparr>"
        using assms(2) MM_StopLB True lens by (simp add: mm_step_def)
      have "mt_good le sh L F rules header J (en\<lparr>me_lbs := (me_lbs en)[i := ?new]\<rparr>)"
        using lbs [OF True] MM_StopLB True lens
        by (intro lb_update_good [OF assms(1), where i = i and lb = ?new])
          (auto simp: ml_stop_def mtq_shutdown_def ml_line_def lb_fine_def)
      then have "mt_good le sh L F rules header J ((en\<lparr>me_lbs := (me_lbs en)[i := ?new]\<rparr>)\<lparr>me_main_pc := MM_JoinLB i\<rparr>)"
        by (rule pc_update) (use \<open>mt_good _ _ _ _ _ _ _ (en\<lparr>me_lbs := _\<rparr>)\<close> MM_StopLB out in
          \<open>auto simp: mt_inv_def lb_fine_def fp_fine_def out_fine_def\<close>)
      then show ?thesis by (simp only: en')
    next
      case False
      then have "en' = en\<lparr>me_main_pc := MM_StopFP 0\<rparr>" using assms(2) MM_StopLB lens by (simp add: mm_step_def)
      moreover have "mt_good le sh L F rules header J (en\<lparr>me_main_pc := MM_StopFP 0\<rparr>)"
        by (rule pc_update [OF assms(1)])
          (use lbs fps out MM_StopLB False in \<open>auto simp: lb_fine_def fp_fine_def out_fine_def\<close>)
      ultimately show ?thesis by simp
    qed
  next
    case (MM_JoinLB i)
    then have en': "en' = en\<lparr>me_main_pc := MM_StopLB (i + 1)\<rparr>" and e: "ml_pc (me_lbs en ! i) = ML_Ended"
      using assms(2) by (auto simp: mm_step_def split: if_splits)
    have "lb_fine sh L F (MM_StopLB (i + 1)) j (me_lbs en ! j)" if "j < L" for j
      using lbs [OF that] MM_JoinLB e by (cases "j = i") (auto simp: lb_fine_def)
    then have "mt_good le sh L F rules header J (en\<lparr>me_main_pc := MM_StopLB (i + 1)\<rparr>)"
      by (intro pc_update [OF assms(1)]) (use fps out MM_JoinLB in \<open>auto simp: fp_fine_def out_fine_def\<close>)
    then show ?thesis by (simp add: en')
  next
    case (MM_StopFP i)
    show ?thesis
    proof (cases "i < L * F")
      case True
      let ?new = "mf_stop (me_fps en ! i)" let ?mid = "en\<lparr>me_fps := (me_fps en)[i := ?new]\<rparr>"
      have en': "en' = ?mid\<lparr>me_main_pc := MM_JoinFP i\<rparr>"
        using assms(2) MM_StopFP True lens by (simp add: mm_step_def)
      have "mt_inv le sh L F rules J ?mid"
        by (rule fp_update [OF inv, where i = i and fp = ?new])
          (use fps [OF True] True lens out MM_StopFP in
            \<open>auto simp: mf_stop_def mtq_shutdown_def mf_line_def fp_fine_def flows_explained_def out_fine_def\<close>)
      moreover have "mt_counts le J ?mid"
        using assms(1) True lens index_member [of i "me_fps en" "length \<circ> mf_line"] index_member [of i "me_fps en" "length \<circ> passed"]
          index_member [of i "me_fps en" "length \<circ> mf_decided"]
        by (simp add: mt_counts_def sum_update mf_stop_def mtq_shutdown_def mf_line_def passed_def)
      moreover have "\<exists>w. mt_written le sh L F header ?mid w"
        using assms(1) True lens index_member [of i "me_fps en" "length \<circ> mf_hand \<circ> mf_pc"]
        by (fastforce simp: mt_written_def sum_update mf_stop_def passed_def nth_list_update)
      ultimately have good: "mt_good le sh L F rules header J ?mid" by blast
      then have "mt_good le sh L F rules header J (?mid\<lparr>me_main_pc := MM_JoinFP i\<rparr>)"
        by (rule pc_update) (use good MM_StopFP out in \<open>auto simp: mt_inv_def lb_fine_def fp_fine_def out_fine_def\<close>)
      then show ?thesis by (simp only: en')
    next
      case False
      then have "en' = en\<lparr>me_main_pc := MM_StopOutput\<rparr>" using assms(2) MM_StopFP lens by (simp add: mm_step_def)
      moreover have "mt_good le sh L F rules header J (en\<lparr>me_main_pc := MM_StopOutput\<rparr>)"
        by (rule pc_update [OF assms(1)])
          (use lbs fps out MM_StopFP False in \<open>auto simp: lb_fine_def fp_fine_def out_fine_def\<close>)
      ultimately show ?thesis by simp
    qed
  next
    case (MM_JoinFP i)
    then have en': "en' = en\<lparr>me_main_pc := MM_StopFP (i + 1)\<rparr>" and e: "mf_pc (me_fps en ! i) = MF_Ended"
      using assms(2) by (auto simp: mm_step_def split: if_splits)
    have "fp_fine rules (MM_StopFP (i + 1)) j (me_fps en ! j)" if "j < L * F" for j
      using fps [OF that] MM_JoinFP e by (cases "j = i") (auto simp: fp_fine_def)
    then have "mt_good le sh L F rules header J (en\<lparr>me_main_pc := MM_StopFP (i + 1)\<rparr>)"
      by (intro pc_update [OF assms(1)]) (use lbs out MM_JoinFP in \<open>auto simp: lb_fine_def out_fine_def\<close>)
    then show ?thesis by (simp add: en')
  next
    case MM_StopOutput
    then have en': "en' = en\<lparr>me_output_running := False, me_output_queue := mtq_shutdown (me_output_queue en),
        me_main_pc := MM_JoinOutput\<rparr>"
      using assms(2) by (simp add: mm_step_def)
    have "mt_inv le sh L F rules J en'"
      using inv lbs fps out MM_StopOutput
      by (auto simp: en' mt_inv_def mt_line_def lb_fine_def fp_fine_def out_fine_def mtq_shutdown_def)
    moreover have "mt_counts le J en'" using assms(1) MM_StopOutput by (auto simp: en' mt_counts_def)
    moreover have "\<exists>w. mt_written le sh L F header en' w"
      using assms(1) by (auto simp: en' mt_written_def mtq_shutdown_def)
    ultimately show ?thesis by blast
  next
    case MM_JoinOutput
    then have en': "en' = en\<lparr>me_main_pc := MM_Done\<rparr>" and "me_output_pc en = MO_Ended"
      using assms(2) by (auto simp: mm_step_def split: if_splits)
    then have "mt_good le sh L F rules header J (en\<lparr>me_main_pc := MM_Done\<rparr>)"
      by (intro pc_update [OF assms(1)])
        (use lbs fps out MM_JoinOutput in \<open>auto simp: lb_fine_def fp_fine_def out_fine_def\<close>)
    then show ?thesis by (simp add: en')
  qed (use assms(2) in \<open>simp add: mm_step_def\<close>)
qed

lemma mt_thread_good:
  assumes "mt_good le sh L F rules header J en" and "mt_thread_step le sh t en = Inr (Some en')"
  shows "mt_good le sh L F rules header J en'"
proof (cases t)
  case MT_Main
  then show ?thesis using assms(2) by (intro mm_step_inv [OF assms(1)]) (simp add: mt_thread_step_def)
next
  case (MT_LB i)
  then show ?thesis
    using assms(2) by (intro ml_step_inv [OF assms(1)]) (simp_all add: mt_thread_step_def split: if_splits)
next
  case (MT_FP i)
  then have "i < length (me_fps en)" "mf_step i en = Inr (Some en')"
    using assms(2) by (simp_all add: mt_thread_step_def split: if_splits)
  then show ?thesis using mf_step_inv [of le sh L F rules J en header] assms(1) by simp
next
  case MT_Output
  then show ?thesis using assms(2) by (intro mo_step_inv [OF assms(1)]) (simp add: mt_thread_step_def)
qed

lemma fault_written: "mt_written le sh L F header (en\<lparr>me_fault := x\<rparr>) = mt_written le sh L F header en"
  by (simp add: mt_written_def fun_eq_iff)

lemma mt_run_good:
  assumes "mt_run le sh en en'" and "mt_good le sh L F rules header J en"
  shows "mt_good le sh L F rules header J en'"
  using assms
proof (induction)
  case (step en1 en2)
  then have good: "mt_good le sh L F rules header J en1" by blast
  from step.hyps(2) show ?case
  proof cases
    case (step t)
    then show ?thesis by (intro mt_thread_good [OF good])
  next
    case (fault t e)
    then show ?thesis
      using good fault_written by (simp add: mt_inv_def mt_counts_def mt_line_def out_fine_def)
  qed
qed simp

section \<open>The start\<close>

lemma upto_image: "map (\<lambda>i. nat (int n + i)) [0..int m - 1] = [n..<n + m]"
  unfolding upto_nat by (rule nth_equalityI) simp_all

lemma mt_launch:
  assumes "mt_main le captures creates argv = Inr (MT_Running en)" and "mt_options (drop 3 argv) default_mt_options = Inr op"
    and "mo_num_lbs op = int L" and "mo_fps_per_lb op = int F"
    and "pcap_open le (captures (argv ! 1)) closed_reader = (True, reader)"
  shows "me_fps en = replicate (L * F) (mf_start new_mt_fast_path)"
    and "me_lbs en = map (\<lambda>i. ml_start (new_mt_load_balancer [i * F..<i * F + F])) [0..<L]"
    and "me_main_pc en = MM_Read (read_packets le reader) 0" and "me_output_queue en = new_queue 10000"
    and "me_output_running en" and "me_output_pc en = MO_Test" and "me_fault en = None"
    and "me_output en = store_global_header le (pr_global_header reader)"
    and "mt_total_packets (me_stats en) = 0" "mt_forwarded (me_stats en) = 0" "mt_dropped (me_stats en) = 0"
proof -
  obtain en0 rules where en0: "new_mt_engine (int L) (int F) = Inr en0"
    and p: "mt_process le (captures (argv ! 1)) (creates (argv ! 2)) (en0\<lparr>me_rules := rules\<rparr>) = Some en"
    using assms(1-4) by (auto simp: mt_main_def rbind_Inr_iff split: if_splits option.splits)
  have en: "en = (en0\<lparr>me_rules := rules\<rparr>)\<lparr>me_output := store_global_header le (pr_global_header reader),
      me_fps := map mf_start (me_fps en0), me_lbs := map ml_start (me_lbs en0), me_output_running := True,
      me_output_pc := MO_Test, me_main_pc := MM_Read (read_packets le reader) 0\<rparr>"
    using p assms(5) by (auto simp: mt_process_def split: if_splits)
  have f: "me_fps en0 = map (\<lambda>_. new_mt_fast_path) [0..int (L * F) - 1]"
    and l: "me_lbs en0 = map (\<lambda>lb. new_mt_load_balancer (map (\<lambda>i. nat (lb * int F + i)) [0..int F - 1])) [0..int L - 1]"
    and rest: "me_output_queue en0 = new_queue 10000" "me_fault en0 = None" "mt_total_packets (me_stats en0) = 0"
      "mt_forwarded (me_stats en0) = 0" "mt_dropped (me_stats en0) = 0"
    using en0 by (auto simp: new_mt_engine_def Let_def split: if_splits)
  show "me_fps en = replicate (L * F) (mf_start new_mt_fast_path)"
    unfolding en f upto_nat by (simp add: map_replicate_const)
  have "map (\<lambda>j. nat (int i * int F + j)) [0..int F - 1] = [i * F..<i * F + F]" for i
    using upto_image [of "i * F" F] by simp
  then show "me_lbs en = map (\<lambda>i. ml_start (new_mt_load_balancer [i * F..<i * F + F])) [0..<L]"
    unfolding en by (simp add: l upto_nat)
  show "me_main_pc en = MM_Read (read_packets le reader) 0" "me_output_queue en = new_queue 10000" "me_output_running en"
    "me_output_pc en = MO_Test" "me_fault en = None" "me_output en = store_global_header le (pr_global_header reader)"
    "mt_total_packets (me_stats en) = 0" "mt_forwarded (me_stats en) = 0" "mt_dropped (me_stats en) = 0"
    using rest by (simp_all add: en)
qed

lemma mt_launch_good:
  assumes "mt_main le captures creates argv = Inr (MT_Running en)" and "mt_options (drop 3 argv) default_mt_options = Inr op"
    and "mo_num_lbs op = int L" and "mo_fps_per_lb op = int F" and "0 < L" and "0 < F"
    and "pcap_open le (captures (argv ! 1)) closed_reader = (True, reader)"
  shows "mt_good le sh L F (me_rules en) (store_global_header le (pr_global_header reader))
    (made_packets le (read_packets le reader) 0) en"
proof -
  note en = mt_launch [OF assms(1-4,7)]
  have lb: "me_lbs en ! i = ml_start (new_mt_load_balancer [i * F..<i * F + F])" if "i < L" for i using that by (simp add: en)
  have fp: "me_fps en ! i = mf_start new_mt_fast_path" if "i < L * F" for i using that by (simp add: en)
  have "lb_fine sh L F (me_main_pc en) i (me_lbs en ! i)" if "i < L" for i
    using lb [OF that] by (simp add: lb_fine_def ml_start_def new_mt_load_balancer_def new_queue_def en)
  moreover have "fp_fine rules (me_main_pc en) i (me_fps en ! i)" if "i < L * F" for i rules
    using fp [OF that] by (simp add: fp_fine_def flows_explained_def mf_start_def new_mt_fast_path_def new_queue_def en)
  moreover have "mt_line le sh L F i en = mine sh L F i (made_packets le (read_packets le reader) 0)" if "i < L * F" for i
    using fp [OF that] lb [OF in_block [OF that]]
    by (simp add: mt_line_def mf_line_def ml_line_def ml_start_def mf_start_def new_mt_fast_path_def
        new_mt_load_balancer_def new_queue_def en)
  ultimately have "mt_inv le sh L F (me_rules en) (made_packets le (read_packets le reader) 0) en"
    using assms(5,6) by (simp add: mt_inv_def en out_fine_def new_queue_def)
  moreover have zero: "sum_list (map (\<lambda>_. 0) xs) = (0 :: nat)" for xs :: "'b list" by (induction xs) simp_all
  have "mt_counts le (made_packets le (read_packets le reader) 0) en"
    by (simp add: mt_counts_def en zero sum_list_replicate mf_line_def passed_def mf_start_def new_mt_fast_path_def
        new_queue_def ml_line_def ml_start_def new_mt_load_balancer_def comp_def)
  moreover have "mt_written le sh L F (store_global_header le (pr_global_header reader)) en []"
    by (simp add: mt_written_def en output_body_def new_queue_def passed_def mf_start_def new_mt_fast_path_def
        sum_list_replicate)
  ultimately show ?thesis by blast
qed

section \<open>What becomes of the packets\<close>

text \<open>The packets nobody has decided on when the threads have ended.\<close>

definition left_over :: "MtEngine \<Rightarrow> nat" where
  "left_over en = sum_list (map (\<lambda>fp. length (tq_items (mf_input_queue fp))) (me_fps en)) +
     sum_list (map (\<lambda>lb. length (tq_items (ml_input_queue lb))) (me_lbs en))"

lemma mt_done:
  assumes "mt_good le sh L F rules header J en" and "me_main_pc en = MM_Done"
  obtains written where "me_output en = header @ output_body le (map mp_stamped written)"
    and "\<And>i. i < L * F \<Longrightarrow> mine sh L F i written = passed (me_fps en ! i)"
    and "\<And>i. i < L * F \<Longrightarrow> prefix (map fst (mf_decided (me_fps en ! i))) (mine sh L F i J)"
    and "\<And>i. i < L * F \<Longrightarrow> left_over en = 0 \<Longrightarrow> map fst (mf_decided (me_fps en ! i)) = mine sh L F i J"
    and "length written = mt_forwarded (me_stats en)" and "mt_total_packets (me_stats en) = length J"
    and "length J = mt_forwarded (me_stats en) + mt_dropped (me_stats en) + left_over en"
proof -
  have inv: "mt_inv le sh L F rules J en" and counts: "mt_counts le J en" using assms(1) by simp_all
  obtain w where w: "mt_written le sh L F header en w" using assms(1) by blast
  have lens: "length (me_lbs en) = L" "length (me_fps en) = L * F" using inv by (simp_all add: mt_inv_def)
  have out: "tq_items (me_output_queue en) = []" using inv assms(2) by (simp add: mt_inv_def out_fine_def)
  have fps: "mf_pc fp = MF_Ended" if "fp \<in> set (me_fps en)" for fp
    using that inv assms(2) lens by (auto simp: mt_inv_def fp_fine_def in_set_conv_nth)
  have lbs: "ml_pc lb = ML_Ended" if "lb \<in> set (me_lbs en)" for lb
    using that inv assms(2) lens by (auto simp: mt_inv_def lb_fine_def in_set_conv_nth)
  have line: "mf_line (me_fps en ! i) @ mine sh L F i (ml_line (me_lbs en ! (i div F))) = mine sh L F i J" if "i < L * F" for i
    using inv that assms(2) by (simp add: mt_inv_def mt_line_def)
  have hands: "map (length \<circ> mf_hand \<circ> mf_pc) (me_fps en) = map (\<lambda>_. 0) (me_fps en)" using fps by simp
  have "length w = mt_forwarded (me_stats en)" using w out unfolding mt_written_def hands by (simp add: map_replicate_const sum_list_replicate)
  moreover have "mine sh L F i w = passed (me_fps en ! i)" if "i < L * F" for i
    using w [unfolded mt_written_def, THEN conjunct2, THEN conjunct1, rule_format, OF that] out fps lens that by simp
  moreover have "prefix (map fst (mf_decided (me_fps en ! i))) (mine sh L F i J)" if "i < L * F" for i
    using line [OF that] by (auto simp: mf_line_def prefix_def intro: sym)
  moreover have "sum_list (map (length \<circ> mf_line) (me_fps en)) = sum_list (map (length \<circ> mf_decided) (me_fps en)) +
      sum_list (map (\<lambda>fp. length (tq_items (mf_input_queue fp))) (me_fps en))"
    by (simp add: mf_line_def sum_list_addf [symmetric] comp_def)
  moreover have "sum_list (map (length \<circ> ml_line) (me_lbs en)) = sum_list (map (\<lambda>lb. length (tq_items (ml_input_queue lb))) (me_lbs en))"
    by (intro arg_cong [where f = sum_list] map_cong) (simp_all add: lbs ml_line_def)
  ultimately have l: "length J = mt_forwarded (me_stats en) + mt_dropped (me_stats en) + left_over en"
    using counts assms(2) by (simp add: mt_counts_def left_over_def)
  have all: "map fst (mf_decided (me_fps en ! i)) = mine sh L F i J" if "i < L * F" "left_over en = 0" for i
  proof -
    have "tq_items (mf_input_queue (me_fps en ! i)) = []" "tq_items (ml_input_queue (me_lbs en ! (i div F))) = []"
      using that(2) that(1) in_block [OF that(1)] lens by (simp_all add: left_over_def sum_list_eq_0_iff)
    then show ?thesis using line [OF that(1)] lbs lens in_block [OF that(1)] by (simp add: mf_line_def ml_line_def)
  qed
  show thesis
    by (rule that [of w]) (use w counts assms(2) all l \<open>length w = _\<close> \<open>\<And>i. _ \<Longrightarrow> mine _ _ _ _ w = _\<close>
      \<open>\<And>i. _ \<Longrightarrow> prefix _ _\<close> in \<open>simp_all add: mt_written_def mt_counts_def\<close>)
qed

end
