(* ===== verification/Legacy_Compare.thy ===== *)
theory Legacy_Compare
  imports Legacy_Refinement
begin

text \<open>
  What can be said of the output of \<open>legacy/dpi_mt.cpp\<close>: its accounts, the comparison with the
  single-threaded program of \<open>legacy/main_working.cpp\<close>, and a run in which every packet is lost.
\<close>

section \<open>The single-threaded program, flow by flow\<close>

fun single_run ::
  "bool \<Rightarrow> BlockingRules \<Rightarrow> FiveTuple \<Rightarrow> RawPacket list \<Rightarrow> LFlow option \<Rightarrow> (bool list \<times> LFlow option) res" where
  "single_run le rules t [] entry = Inr ([], entry)"
| "single_run le rules t (raw # raws) entry =
     rbind (parse le raw) (\<lambda>(_, parsed).
     rbind (flow_after rules t parsed (rp_data raw) (case entry of None \<Rightarrow> new_flow t | Some flow \<Rightarrow> flow)) (\<lambda>flow.
     rbind (single_run le rules t raws (Some flow)) (\<lambda>(blocked, entry). Inr (lf_blocked flow # blocked, entry))))"

definition raw_of_flow :: "bool \<Rightarrow> FiveTuple \<Rightarrow> RawPacket \<Rightarrow> bool" where
  "raw_of_flow le t raw \<longleftrightarrow> flow_of le raw = Some t"

lemma flow_of_parsed:
  assumes "flow_of le raw = Some t"
  obtains pk where "parse le raw = Inr (True, pk)" "pp_has_ip pk" "pp_has_tcp pk \<or> pp_has_udp pk" "tuple_from_text pk = Inr t"
  using assms by (auto simp: flow_of_def split: sum.splits bool.splits if_splits)

lemma legacy_packet_flow:
  assumes "legacy_packet le rules raw st = Inr st'"
  shows "case flow_of le raw of
      None \<Rightarrow> ls_flows st' = ls_flows st \<and> ls_output st' = ls_output st
    | Some t \<Rightarrow> \<exists>pk flow. parse le raw = Inr (True, pk) \<and>
        flow_after rules t pk (rp_data raw) (case ls_flows st t of None \<Rightarrow> new_flow t | Some flow \<Rightarrow> flow) = Inr flow \<and>
        ls_flows st' = (ls_flows st)(t \<mapsto> flow) \<and>
        ls_output st' = ls_output st @ (if lf_blocked flow then [] else output_body le [stamped_raw raw])"
proof -
  obtain ok pk where p: "parse le raw = Inr (ok, pk)" using parse_wp [of le raw] by (auto simp: wp_iff)
  show ?thesis
  proof (cases "ok \<and> pp_has_ip pk \<and> (pp_has_tcp pk \<or> pp_has_udp pk)")
    case False
    then have "flow_of le raw = None" by (auto simp: flow_of_def p split: bool.split)
    then show ?thesis using assms p False by (auto simp: legacy_packet_def Let_def)
  next
    case True
    then obtain t flow where t: "tuple_from_text pk = Inr t"
      and f: "flow_after rules t pk (rp_data raw) (case ls_flows st t of None \<Rightarrow> new_flow t | Some flow \<Rightarrow> flow) = Inr flow"
      using assms p by (auto simp: legacy_packet_def rbind_Inr_iff Let_def)
    then have "flow_of le raw = Some t" using True by (simp add: flow_of_def p)
    then show ?thesis
      using assms p True t f by (auto simp: legacy_packet_def Let_def output_body_def stamped_raw_def)
  qed
qed

text \<open>The packets of a list that their flags let through.\<close>

definition let_through :: "'a list \<Rightarrow> bool list \<Rightarrow> 'a list" where
  "let_through xs blocked = map fst (filter (\<lambda>(_, b). \<not> b) (zip xs blocked))"

lemma let_through_Cons [simp]: "let_through (x # xs) (b # bs) = (if b then [] else [x]) @ let_through xs bs"
  by (simp add: let_through_def)

lemma let_through_Nil [simp]: "let_through [] bs = []" by (simp add: let_through_def)

lemma legacy_loop_flows:
  assumes "legacy_loop le rules raws st = Inr st'"
  shows "\<exists>written. ls_output st' = ls_output st @ output_body le (map stamped_raw written) \<and>
    (\<forall>t. \<exists>bs. single_run le rules t (filter (raw_of_flow le t) raws) (ls_flows st t) = Inr (bs, ls_flows st' t) \<and>
      filter (raw_of_flow le t) written = let_through (filter (raw_of_flow le t) raws) bs)"
  using assms
proof (induction raws arbitrary: st)
  case Nil
  then show ?case by (intro exI [of _ "[]"]) (simp add: output_body_def)
next
  case (Cons raw raws)
  then obtain st1 where 1: "legacy_packet le rules raw st = Inr st1" and "legacy_loop le rules raws st1 = Inr st'"
    by (auto simp: rbind_Inr_iff)
  from Cons.IH [OF this(2)] obtain w where out: "ls_output st' = ls_output st1 @ output_body le (map stamped_raw w)"
    and run: "\<And>t. \<exists>bs. single_run le rules t (filter (raw_of_flow le t) raws) (ls_flows st1 t) = Inr (bs, ls_flows st' t) \<and>
      filter (raw_of_flow le t) w = let_through (filter (raw_of_flow le t) raws) bs" by blast
  show ?case
  proof (cases "flow_of le raw")
    case None
    then have "\<not> raw_of_flow le t raw" for t by (simp add: raw_of_flow_def)
    then show ?thesis using None legacy_packet_flow [OF 1] out run by (intro exI [of _ w]) simp
  next
    case (Some t)
    then obtain pk flow where f: "parse le raw = Inr (True, pk)"
      "flow_after rules t pk (rp_data raw) (case ls_flows st t of None \<Rightarrow> new_flow t | Some flow \<Rightarrow> flow) = Inr flow"
      "ls_flows st1 = (ls_flows st)(t \<mapsto> flow)"
      "ls_output st1 = ls_output st @ (if lf_blocked flow then [] else output_body le [stamped_raw raw])"
      using legacy_packet_flow [OF 1] by auto
    let ?w = "(if lf_blocked flow then [] else [raw]) @ w"
    have "ls_output st' = ls_output st @ output_body le (map stamped_raw ?w)"
      using out f(4) by (simp add: output_body_def)
    moreover have "\<exists>bs. single_run le rules u (filter (raw_of_flow le u) (raw # raws)) (ls_flows st u) = Inr (bs, ls_flows st' u) \<and>
        filter (raw_of_flow le u) ?w = let_through (filter (raw_of_flow le u) (raw # raws)) bs" for u
    proof (cases "u = t")
      case True
      obtain bs where "single_run le rules t (filter (raw_of_flow le t) raws) (Some flow) = Inr (bs, ls_flows st' t)"
        "filter (raw_of_flow le t) w = let_through (filter (raw_of_flow le t) raws) bs"
        using run [of t] by (auto simp: f(3))
      then show ?thesis using True Some f(1,2) by (intro exI [of _ "lf_blocked flow # bs"]) (simp add: raw_of_flow_def)
    next
      case False
      then show ?thesis using run [of u] Some by (auto simp: f(3) raw_of_flow_def)
    qed
    ultimately show ?thesis by blast
  qed
qed

section \<open>One packet in both programs\<close>

text \<open>An HTTP request with a Host line is longer than ten bytes.\<close>

lemma http_scan_newline: "http_scan p n i = Inr (Some h) \<Longrightarrow> \<exists>j \<ge> i. j + 6 < n \<and> rd p j = Inr 0x0A"
proof (induction p n i rule: http_scan.induct)
  case (1 p n i)
  show ?case
  proof (cases "i + 6 < n \<and> rd p i \<noteq> Inr 0x0A")
    case True
    then obtain b where b: "rd p i = Inr b" "b \<noteq> 0x0A" using 1(4) by (auto simp: rbind_Inr_iff http_scan.simps [of p n i])
    then have "http_scan p n (i + 1) = Inr (Some h)" using 1(4) True by (simp add: http_scan.simps [of p n i])
    then obtain j where "j \<ge> i + 1" "j + 6 < n" "rd p j = Inr 0x0A" using 1(3) True b by blast
    then show ?thesis by (intro exI [of _ j]) simp
  next
    case False
    then show ?thesis using 1(4) by (auto simp: http_scan.simps [of p n i] split: if_splits)
  qed
qed

lemma http_host_long:
  assumes "HTTPHostExtractor_extract p (length p) = Inr (Some h)"
  shows "10 < length p"
proof -
  have 4: "4 \<le> length p" "map byte_char (take 4 p) \<in> set http_methods" and scan: "http_scan p (length p) 0 = Inr (Some h)"
    using assms by (auto simp: HTTPHostExtractor_extract_def isHTTPRequest_def rbind_Inr_iff split: if_splits)
  obtain j where j: "j + 6 < length p" "p ! j = 0x0A" using http_scan_newline [OF scan] by auto
  have "\<not> j < 4"
  proof
    assume "j < 4"
    then have "take 4 p ! j \<in> set (take 4 p)" using 4(1) by (intro nth_mem) simp
    then have "byte_char 0x0A \<in> set (map byte_char (take 4 p))" using j(2) \<open>j < 4\<close> by force
    moreover have "\<forall>m \<in> set http_methods. byte_char 0x0A \<notin> set m" by code_simp
    ultimately show False using 4(2) by blast
  qed
  then show ?thesis using j(1) by simp
qed

text \<open>The payload the parser found is the one both programs work on.\<close>

lemma payload_place_ipv4:
  assumes "parse le raw = Inr (True, pk)" and "pp_ip_version pk = 4" and "pp_has_tcp pk \<or> pp_has_udp pk"
  shows "\<exists>off. payload_place pk (rp_data raw) = Inr (off, length (pp_payload_data pk)) \<and>
    drop off (rp_data raw) = pp_payload_data pk"
proof -
  let ?p = "rp_data raw" and ?t = "14 + unat (rp_data raw ! 14 AND 0x0F) * 4"
  obtain off where p: "14 < length ?p" "layout ?p ?t pk off" "pp_payload_data pk = drop off ?p"
    using parse_layout [OF assms(1,2) refl] by blast
  then have "off \<le> length ?p" by (simp add: layout_def)
  then have "payload_place pk ?p = Inr (off, length ?p - off)"
    using p(1,2) assms(3) by (auto simp: payload_place_def layout_def Let_def)
  then show ?thesis using p(3) by simp
qed

lemma try_sni_payload:
  assumes "parse le raw = Inr (True, pk)" and "pp_ip_version pk = 4"
  shows "try_sni pk (rp_data raw) flow =
    (if (lf_app_type flow = UNKNOWN \<or> lf_app_type flow = HTTPS) \<and> lf_sni flow = [] \<and> pp_has_tcp pk \<and> pp_dest_port pk = 443 \<and>
        5 < length (pp_payload_data pk)
     then rbind (SNIExtractor_extract (pp_payload_data pk) (length (pp_payload_data pk))) (\<lambda>sni. Inr (with_name sni flow))
     else Inr flow)"
  using legacy_payload_ipv4 [OF assms] by (cases "pp_has_tcp pk") (auto simp: try_sni_def)

lemma try_host_payload:
  assumes "parse le raw = Inr (True, pk)" and "pp_ip_version pk = 4"
  shows "try_host pk (rp_data raw) flow =
    (if (lf_app_type flow = UNKNOWN \<or> lf_app_type flow = HTTP) \<and> lf_sni flow = [] \<and> pp_has_tcp pk \<and> pp_dest_port pk = 80
     then rbind (HTTPHostExtractor_extract (pp_payload_data pk) (length (pp_payload_data pk))) (\<lambda>host. Inr (with_name host flow))
     else Inr flow)"
proof -
  have "HTTPHostExtractor_extract [] 0 = Inr None" by (simp add: HTTPHostExtractor_extract_def isHTTPRequest_def)
  then show ?thesis
    using legacy_payload_ipv4 [OF assms] by (cases "pp_has_tcp pk") (auto simp: try_host_def with_name_def)
qed

lemma classify_payload:
  assumes "mp_payload_length pkt = length P" and "drop (mp_payload_offset pkt) (mp_data pkt) = P"
    and "SNIExtractor_extract P (length P) = Inr sni" and "HTTPHostExtractor_extract P (length P) = Inr host"
    and "t = mp_tuple pkt"
  shows "classifyFlow pkt flow = Inr
    (case if ft_dst_port t = 443 \<and> 5 < length P then sni else if ft_dst_port t = 80 then host else None of
       Some name \<Rightarrow> name_entry name flow
     | None \<Rightarrow> if ft_dst_port t = 53 \<or> ft_src_port t = 53 then flow\<lparr>fe_app_type := DNS, fe_classified := True\<rparr>
         else if ft_dst_port t = 443 then flow\<lparr>fe_app_type := HTTPS\<rparr>
         else if ft_dst_port t = 80 then flow\<lparr>fe_app_type := HTTP\<rparr> else flow)"
proof -
  have "host = None" if "\<not> 10 < length P" using that http_host_long [of P] assms(4) by (cases host) auto
  then show ?thesis using assms by (auto simp: classifyFlow_def Let_def split: option.split)
qed

text \<open>
  Traffic on which the programs agree: IPv4, names only in TCP payloads, and each name one that
  \<open>sniToAppType\<close> does not take for unknown. (The single-threaded program tries such a flow again.)
\<close>

definition names_in :: "ParsedPacket \<Rightarrow> string \<Rightarrow> bool" where
  "names_in pk name \<longleftrightarrow>
     SNIExtractor_extract (pp_payload_data pk) (length (pp_payload_data pk)) = Inr (Some name) \<or>
     HTTPHostExtractor_extract (pp_payload_data pk) (length (pp_payload_data pk)) = Inr (Some name)"

definition comparable :: "bool \<Rightarrow> RawPacket \<Rightarrow> bool" where
  "comparable le raw \<longleftrightarrow> (\<forall>pk. parse le raw = Inr (True, pk) \<and> pp_has_ip pk \<and> (pp_has_tcp pk \<or> pp_has_udp pk) \<longrightarrow>
     pp_ip_version pk = 4 \<and> (\<forall>name. names_in pk name \<longrightarrow> pp_has_tcp pk \<and> sniToAppType name \<noteq> UNKNOWN))"

text \<open>The two entries of a flow, as far as both programs keep them.\<close>

definition port_app :: "FiveTuple \<Rightarrow> AppType" where
  "port_app t = (if ft_dst_port t = 53 \<or> ft_src_port t = 53 then DNS else if ft_dst_port t = 443 then HTTPS
     else if ft_dst_port t = 80 then HTTP else UNKNOWN)"

definition same_flow :: "FiveTuple \<Rightarrow> LFlow \<Rightarrow> FlowEntry \<Rightarrow> bool" where
  "same_flow t f e \<longleftrightarrow> fe_tuple e = lf_tuple f \<and> fe_app_type e = lf_app_type f \<and> fe_sni e = lf_sni f \<and>
     fe_packets e = lf_packets f \<and> fe_bytes e = lf_bytes f \<and> fe_blocked e = lf_blocked f \<and>
     (if lf_sni f = [] then lf_app_type f \<in> {UNKNOWN, port_app t} \<and> fe_classified e = (lf_app_type f = DNS)
      else lf_app_type f \<noteq> UNKNOWN \<and> fe_classified e)"

lemma same_flow_new: "same_flow t (new_flow t) (new_entry t)"
  by (simp add: same_flow_def new_flow_def new_entry_def)

definition classified_flow :: "ParsedPacket \<Rightarrow> bytes \<Rightarrow> LFlow \<Rightarrow> LFlow res" where
  "classified_flow pk data f = rbind (try_sni pk data f) (\<lambda>f. rbind (try_host pk data f) (\<lambda>f. Inr (by_port pk f)))"

lemma same_classification:
  assumes "same_flow t f e" and "parse le raw = Inr (True, pk)" and "pp_ip_version pk = 4"
    and "\<And>name. names_in pk name \<Longrightarrow> pp_has_tcp pk \<and> sniToAppType name \<noteq> UNKNOWN"
    and "pp_dest_port pk = ft_dst_port t" and "pp_src_port pk = ft_src_port t" and "mp_tuple pkt = t"
    and "mp_payload_length pkt = length (pp_payload_data pk)" and "drop (mp_payload_offset pkt) (mp_data pkt) = pp_payload_data pk"
  shows "\<exists>f' e'. classified_flow pk (rp_data raw) f = Inr f' \<and>
    (if \<not> fe_classified e then classifyFlow pkt e else Inr e) = Inr e' \<and> same_flow t f' e'"
proof -
  let ?P = "pp_payload_data pk"
  obtain sni where s: "SNIExtractor_extract ?P (length ?P) = Inr sni" using sni.total [of ?P] by blast
  obtain host where h: "HTTPHostExtractor_extract ?P (length ?P) = Inr host" using http.total [of ?P] by blast
  note sni = try_sni_payload [OF assms(2,3), unfolded s rbind.simps] and host = try_host_payload [OF assms(2,3), unfolded h rbind.simps]
  note mt = classify_payload [OF assms(8,9) s h assms(7) [symmetric]]
  have known: "pp_has_tcp pk \<and> sniToAppType name \<noteq> UNKNOWN" if "sni = Some name \<or> host = Some name" for name
    using that assms(4) s h by (auto simp: names_in_def)
  have nonempty: "sniToAppType name \<noteq> UNKNOWN \<Longrightarrow> name \<noteq> []" for name by (auto simp: sniToAppType_def)
  show ?thesis
  proof (cases "fe_classified e")
    case True
    have "try_sni pk (rp_data raw) f = Inr f" "try_host pk (rp_data raw) f = Inr f" "by_port pk f = f"
      using assms(1) True by (auto simp: same_flow_def sni host by_port_def split: if_splits)
    then show ?thesis using True assms(1) by (simp add: classified_flow_def)
  next
    case False
    have none: "lf_sni f = []" "lf_app_type f \<noteq> DNS" "lf_app_type f \<in> {UNKNOWN, port_app t}"
      using assms(1) False by (auto simp: same_flow_def split: if_splits)
    let ?name = "if ft_dst_port t = 443 \<and> 5 < length ?P then sni else if ft_dst_port t = 80 then host else None"
    show ?thesis
    proof (cases ?name)
      case (Some name)
      then have n: "pp_has_tcp pk" "sniToAppType name \<noteq> UNKNOWN" "name \<noteq> []"
        using known [of name] nonempty [of name] by (auto split: if_splits)
      have "classified_flow pk (rp_data raw) f = Inr (with_name (Some name) f)"
        using none n Some assms(5)
        by (auto simp: classified_flow_def sni host with_name_def by_port_def port_app_def split: if_splits)
      then show ?thesis
        using assms(1) False n Some by (simp add: mt same_flow_def with_name_def name_entry_def)
    next
      case None
      have tcp: "host = None \<or> pp_has_tcp pk" "sni = None \<or> pp_has_tcp pk"
        using known by (metis option.exhaust)+
      have "classified_flow pk (rp_data raw) f = Inr (by_port pk f)"
        using None none tcp assms(5) by (auto simp: classified_flow_def sni host with_name_def split: if_splits option.split)
      moreover have "by_port pk f = f\<lparr>lf_app_type := port_app t\<rparr>"
        using none assms(5,6) by (auto simp: by_port_def port_app_def Let_def split: if_splits)
      ultimately show ?thesis
        using assms(1) False None none by (auto simp: mt same_flow_def port_app_def)
    qed
  qed
qed

lemma rbind_assoc: "rbind (rbind m f) g = rbind m (\<lambda>x. rbind (f x) g)"
  by (cases m) simp_all

lemma same_step:
  assumes "same_flow t f e" and "flow_of le raw = Some t" and "comparable le raw" and "made_packet le raw n = Some pkt"
  shows "\<exists>pk f' e'. parse le raw = Inr (True, pk) \<and> flow_after rules t pk (rp_data raw) f = Inr f' \<and>
    entry_after rules pkt e = Inr e' \<and> same_flow t f' e' \<and> lf_blocked f' = fe_blocked e' \<and>
    mp_tuple pkt = t \<and> mp_stamped pkt = stamped_raw raw"
proof -
  obtain pk where pk: "parse le raw = Inr (True, pk)" "pp_has_ip pk" "pp_has_tcp pk \<or> pp_has_udp pk" "tuple_from_text pk = Inr t"
    using flow_of_parsed [OF assms(2)] .
  have v: "pp_ip_version pk = 4" and names: "\<And>name. names_in pk name \<Longrightarrow> pp_has_tcp pk \<and> sniToAppType name \<noteq> UNKNOWN"
    using assms(3) pk by (auto simp: comparable_def)
  obtain off where off: "payload_place pk (rp_data raw) = Inr (off, length (pp_payload_data pk))"
    "drop off (rp_data raw) = pp_payload_data pk"
    using payload_place_ipv4 [OF pk(1) v pk(3)] by blast
  have pkt: "mp_tuple pkt = t" "mp_data pkt = rp_data raw" "mp_payload_offset pkt = off"
    "mp_payload_length pkt = length (pp_payload_data pk)" "mp_stamped pkt = stamped_raw raw"
    using assms(4) pk off by (auto simp: made_packet_def make_packet_def mp_stamped_def stamped_raw_def)
  have ports: "pp_dest_port pk = ft_dst_port t" "pp_src_port pk = ft_src_port t"
    using pk(4) by (auto simp: tuple_from_text_def rbind_Inr_iff)
  define f1 where "f1 = (let f = (if lf_packets f = 0 then f\<lparr>lf_tuple := t\<rparr> else f)
    in f\<lparr>lf_packets := lf_packets f + 1, lf_bytes := lf_bytes f + of_nat (length (rp_data raw))\<rparr>)"
  define e1 where "e1 = (let e = (if fe_packets e = 0 then e\<lparr>fe_tuple := t\<rparr> else e)
    in e\<lparr>fe_packets := fe_packets e + 1, fe_bytes := fe_bytes e + of_nat (length (rp_data raw))\<rparr>)"
  have "same_flow t f1 e1" using assms(1) by (auto simp: same_flow_def f1_def e1_def split: if_splits)
  from same_classification [OF this pk(1) v names ports pkt(1,4)] off(2) pkt(2,3) obtain f2 e2 where
    2: "classified_flow pk (rp_data raw) f1 = Inr f2" "(if \<not> fe_classified e1 then classifyFlow pkt e1 else Inr e1) = Inr e2"
      "same_flow t f2 e2"
    by auto
  let ?f = "if lf_blocked f2 then f2 else f2\<lparr>lf_blocked := br_isBlocked rules (ft_src_ip t) (lf_app_type f2) (lf_sni f2)\<rparr>"
  let ?e = "if \<not> fe_blocked e2 then e2\<lparr>fe_blocked := br_isBlocked rules (ft_src_ip t) (fe_app_type e2) (fe_sni e2)\<rparr> else e2"
  have "flow_after rules t pk (rp_data raw) f = rbind (classified_flow pk (rp_data raw) f1) (\<lambda>f2.
      Inr (if lf_blocked f2 then f2 else f2\<lparr>lf_blocked := br_isBlocked rules (ft_src_ip t) (lf_app_type f2) (lf_sni f2)\<rparr>))"
    unfolding flow_after_def classified_flow_def f1_def
    by (cases "try_sni pk (rp_data raw) f1"; simp add: Let_def f1_def rbind_assoc)
  then have "flow_after rules t pk (rp_data raw) f = Inr ?f" by (simp add: 2(1))
  moreover have "entry_after rules pkt e = rbind (if \<not> fe_classified e1 then classifyFlow pkt e1 else Inr e1) (\<lambda>e2.
      Inr (if \<not> fe_blocked e2 then e2\<lparr>fe_blocked := br_isBlocked rules (ft_src_ip t) (fe_app_type e2) (fe_sni e2)\<rparr> else e2))"
    unfolding entry_after_def e1_def rules_isBlocked_def pkt(1,2) Let_def by (rule refl)
  then have "entry_after rules pkt e = Inr ?e" by (simp only: 2(2) rbind.simps)
  moreover have "same_flow t ?f ?e" "lf_blocked ?f = fe_blocked ?e" using 2(3) by (auto simp: same_flow_def)
  ultimately show ?thesis using pk(1) pkt(1,5) by blast
qed

section \<open>A flow in both programs\<close>

definition twin :: "bool \<Rightarrow> RawPacket \<Rightarrow> Packet \<Rightarrow> bool" where
  "twin le raw pkt \<longleftrightarrow> (\<exists>n. made_packet le raw n = Some pkt)"

lemma made_packet_flow:
  assumes "comparable le raw"
  shows "made_packet le raw n = None \<longleftrightarrow> flow_of le raw = None"
    and "made_packet le raw n = Some pkt \<Longrightarrow> flow_of le raw = Some (mp_tuple pkt)"
proof -
  have *: "case flow_of le raw of None \<Rightarrow> made_packet le raw n = None
    | Some t \<Rightarrow> \<exists>pkt. made_packet le raw n = Some pkt \<and> mp_tuple pkt = t"
  proof (cases "\<exists>pk. parse le raw = Inr (True, pk) \<and> pp_has_ip pk \<and> (pp_has_tcp pk \<or> pp_has_udp pk)")
    case True
    then obtain pk where pk: "parse le raw = Inr (True, pk)" "pp_has_ip pk" "pp_has_tcp pk \<or> pp_has_udp pk" by blast
    then have v: "pp_ip_version pk = 4" using assms by (auto simp: comparable_def)
    obtain off where "payload_place pk (rp_data raw) = Inr (off, length (pp_payload_data pk))"
      using payload_place_ipv4 [OF pk(1) v pk(3)] by blast
    then show ?thesis
      using pk tuple_from_text_ipv4 [OF parse_wf [OF pk(1)] v] by (auto simp: flow_of_def made_packet_def make_packet_def)
  next
    case False
    then show ?thesis by (auto simp: flow_of_def made_packet_def split: sum.split bool.split)
  qed
  show "made_packet le raw n = None \<longleftrightarrow> flow_of le raw = None" using * by (cases "flow_of le raw") auto
  show "made_packet le raw n = Some pkt \<Longrightarrow> flow_of le raw = Some (mp_tuple pkt)" using * by (cases "flow_of le raw") auto
qed

lemma flow_twins:
  "\<forall>raw \<in> set raws. comparable le raw \<Longrightarrow>
   list_all2 (twin le) (filter (raw_of_flow le t) raws) (filter (of_tuple t) (made_packets le raws n))"
proof (induction raws arbitrary: n)
  case (Cons raw raws)
  then have c: "comparable le raw" by simp
  show ?case
  proof (cases "made_packet le raw n")
    case None
    then have "\<not> raw_of_flow le t raw" using made_packet_flow(1) [OF c] by (simp add: raw_of_flow_def)
    then show ?thesis using Cons None by simp
  next
    case (Some pkt)
    then have "raw_of_flow le t raw = of_tuple t pkt" using made_packet_flow(2) [OF c Some] by (auto simp: raw_of_flow_def of_tuple_def)
    then show ?thesis using Cons Some by (auto simp: twin_def)
  qed
qed simp

lemma same_run:
  assumes "list_all2 (twin le) raws pkts" and "\<forall>raw \<in> set raws. comparable le raw \<and> raw_of_flow le t raw"
    and "rel_option (same_flow t) f e"
  shows "\<exists>bs f' e'. single_run le rules t raws f = Inr (bs, f') \<and> entry_run rules pkts e = Inr (bs, e') \<and>
    length bs = length raws \<and> map mp_stamped pkts = map stamped_raw raws"
  using assms
proof (induction arbitrary: f e)
  case (Cons raw raws pkt pkts)
  let ?f = "case f of None \<Rightarrow> new_flow t | Some f \<Rightarrow> f" and ?e = "case e of None \<Rightarrow> new_entry t | Some e \<Rightarrow> e"
  have "same_flow t ?f ?e" using Cons.prems(2) by (cases f; cases e) (auto simp: same_flow_new)
  moreover obtain n where "made_packet le raw n = Some pkt" using Cons.hyps(1) by (auto simp: twin_def)
  moreover have "flow_of le raw = Some t" "comparable le raw" using Cons.prems(1) by (simp_all add: raw_of_flow_def)
  ultimately obtain pk f' e' where s: "parse le raw = Inr (True, pk)" "flow_after rules t pk (rp_data raw) ?f = Inr f'"
    "entry_after rules pkt ?e = Inr e'" "same_flow t f' e'" "lf_blocked f' = fe_blocked e'" "mp_tuple pkt = t"
    "mp_stamped pkt = stamped_raw raw"
    using same_step [of t ?f ?e le raw n pkt rules] by blast
  from Cons.IH [of "Some f'" "Some e'"] Cons.prems(1) s(4) obtain bs g h where
    "single_run le rules t raws (Some f') = Inr (bs, g)" "entry_run rules pkts (Some e') = Inr (bs, h)"
    "length bs = length raws" "map mp_stamped pkts = map stamped_raw raws"
    by auto
  then show ?case using s by auto
qed simp

lemma let_through_map: "let_through (map f xs) bs = map f (let_through xs bs)"
  by (induction xs bs rule: list_induct2') (simp_all add: let_through_def)

lemma let_through_append:
  "length xs = length bs \<Longrightarrow> let_through (xs @ ys) (bs @ cs) = let_through xs bs @ let_through ys cs"
  by (simp add: let_through_def)

lemma entry_run_append:
  assumes "entry_run rules (xs @ ys) e = Inr (bs, e')" and "entry_run rules xs e = Inr (cs, e1)"
  shows "\<exists>ds. bs = cs @ ds"
  using assms by (induction xs arbitrary: e bs cs) (auto simp: rbind_Inr_iff)

section \<open>The comparison\<close>

lemma filter_mine: "route sh L F t = i \<Longrightarrow> filter (of_tuple t) (mine sh L F i xs) = filter (of_tuple t) xs"
  by (induction xs) (auto simp: mine_def of_tuple_def)

lemma filter_passed:
  "filter (of_tuple t) (passed fp) =
   let_through (map fst (filter (\<lambda>(pkt, _). of_tuple t pkt) (mf_decided fp))) (map snd (filter (\<lambda>(pkt, _). of_tuple t pkt) (mf_decided fp)))"
proof -
  have "filter (of_tuple t) (map fst (filter (\<lambda>(_, b). \<not> b) ds)) =
      let_through (map fst (filter (\<lambda>(pkt, _). of_tuple t pkt) ds)) (map snd (filter (\<lambda>(pkt, _). of_tuple t pkt) ds))" for ds
    by (induction ds) auto
  then show ?thesis by (simp add: passed_def)
qed

lemma prefix_filter: "prefix xs ys \<Longrightarrow> prefix (filter P xs) (filter P ys)"
  by (auto simp: prefix_def)

lemma one_flow:
  assumes "flows_explained rules fp" and "\<forall>raw \<in> set raws. comparable le raw"
    and "prefix (map fst (mf_decided fp)) (mine sh L F i (made_packets le raws 0))" and "route sh L F t = i"
    and "single_run le rules t (filter (raw_of_flow le t) raws) None = Inr (bs, g)"
    and "single = let_through (filter (raw_of_flow le t) raws) bs"
  shows "prefix (map mp_stamped (filter (of_tuple t) (passed fp))) (map stamped_raw single) \<and>
    (map fst (mf_decided fp) = mine sh L F i (made_packets le raws 0) \<longrightarrow>
     map mp_stamped (filter (of_tuple t) (passed fp)) = map stamped_raw single)"
proof -
  let ?raws = "filter (raw_of_flow le t) raws" and ?pkts = "filter (of_tuple t) (made_packets le raws 0)"
  let ?ds = "filter (\<lambda>(pkt, _). of_tuple t pkt) (mf_decided fp)"
  have ps: "filter (of_tuple t) (map fst (mf_decided fp)) = map fst ?ds"
    by (simp add: filter_map comp_def case_prod_unfold)
  obtain cs f' e' where r: "single_run le rules t ?raws None = Inr (cs, f')" "entry_run rules ?pkts None = Inr (cs, e')"
    "length cs = length ?raws" "map mp_stamped ?pkts = map stamped_raw ?raws"
    using same_run [OF flow_twins [OF assms(2), where t = t and n = 0], where f = None and e = None and rules = rules and t = t] assms(2) by auto
  have bs: "bs = cs" using r(1) assms(5) by simp
  have pre: "prefix (map fst ?ds) ?pkts"
    using prefix_filter [OF assms(3), of "of_tuple t"] filter_mine [OF assms(4)] by (simp add: ps)
  then obtain qs where qs: "?pkts = map fst ?ds @ qs" by (auto simp: prefix_def)
  have "entry_run rules (map fst ?ds) None = Inr (map snd ?ds, mf_flows fp t)"
    using assms(1) [unfolded flows_explained_def, rule_format, of t] unfolding ps .
  then obtain ds where ds: "bs = map snd ?ds @ ds" using entry_run_append r(2) bs qs by metis
  have "map stamped_raw single = let_through (map mp_stamped ?pkts) bs"
    using r(4) by (simp add: assms(6) let_through_map)
  also have "\<dots> = map mp_stamped (filter (of_tuple t) (passed fp)) @ let_through (map mp_stamped qs) ds"
    unfolding qs ds map_append by (subst let_through_append) (simp_all add: filter_passed let_through_map)
  finally have eq: "map stamped_raw single = map mp_stamped (filter (of_tuple t) (passed fp)) @ let_through (map mp_stamped qs) ds" .
  moreover have "qs = []" if "map fst (mf_decided fp) = mine sh L F i (made_packets le raws 0)"
    using that qs filter_mine [OF assms(4), of "made_packets le raws 0"] by (simp add: ps [symmetric])
  ultimately show ?thesis by auto
qed

section \<open>A run in which nothing gets through\<close>

lemma mt_run_step:
  "me_fault en = None \<Longrightarrow> mt_thread_step le sh t en = Inr (Some en1) \<Longrightarrow> mt_run le sh en1 en' \<Longrightarrow> mt_run le sh en en'"
  by (blast intro: mt_step.step converse_rtranclp_into_rtranclp)

text \<open>No packet has reached a fast path.\<close>

definition untouched :: "bytes \<Rightarrow> MtEngine \<Rightarrow> bool" where
  "untouched header en \<longleftrightarrow> me_fault en = None \<and> me_output en = header \<and> tq_items (me_output_queue en) = [] \<and>
     me_output_pc en = MO_Test \<and> mt_forwarded (me_stats en) = 0 \<and> mt_dropped (me_stats en) = 0 \<and>
     (\<forall>fp \<in> set (me_fps en). tq_items (mf_input_queue fp) = [])"

definition lb_waiting :: "nat \<Rightarrow> MtLoadBalancer \<Rightarrow> bool" where
  "lb_waiting n lb \<longleftrightarrow> ml_pc lb = ML_Test \<and> \<not> tq_shutdown (ml_input_queue lb) \<and>
     length (tq_items (ml_input_queue lb)) + n \<le> tq_max_size (ml_input_queue lb)"

definition readable :: "bool \<Rightarrow> RawPacket \<Rightarrow> bool" where
  "readable le raw \<longleftrightarrow> (\<forall>pk n. parse le raw = Inr (True, pk) \<and> pp_has_ip pk \<and> (pp_has_tcp pk \<or> pp_has_udp pk) \<longrightarrow>
     (\<exists>pkt. make_packet n raw pk = Inr pkt))"

lemma read_all:
  assumes "me_main_pc en = MM_Read raws n" and "untouched header en" and "me_lbs en \<noteq> []"
    and "\<forall>lb \<in> set (me_lbs en). lb_waiting (length (made_packets le raws n)) lb" and "\<forall>raw \<in> set raws. readable le raw"
    and "\<forall>fp \<in> set (me_fps en). mf_pc fp = MF_Test"
  shows "\<exists>en' n'. mt_run le sh en en' \<and> me_main_pc en' = MM_Read [] n' \<and> untouched header en' \<and>
    (\<forall>lb \<in> set (me_lbs en'). ml_pc lb = ML_Test) \<and> (\<forall>fp \<in> set (me_fps en'). mf_pc fp = MF_Test)"
  using assms
proof (induction raws arbitrary: en n)
  case Nil
  then show ?case by (intro exI [of _ en] exI [of _ n]) (auto simp: lb_waiting_def)
next
  case (Cons raw raws)
  obtain ok parsed where p: "parse le raw = Inr (ok, parsed)" using parse_wp [of le raw] by (auto simp: wp_iff)
  have none: "me_fault en = None" using Cons.prems(2) by (simp add: untouched_def)
  show ?case
  proof (cases "ok \<and> pp_has_ip parsed \<and> (pp_has_tcp parsed \<or> pp_has_udp parsed)")
    case False
    let ?en = "en\<lparr>me_main_pc := MM_Read raws n\<rparr>"
    have "mt_thread_step le sh MT_Main en = Inr (Some ?en)"
      using Cons.prems(1) p False by (auto simp: mt_thread_step_def mm_step_def)
    moreover have "made_packets le (raw # raws) n = made_packets le raws n"
      using made_packet_read(1) [OF p] False by simp
    then have "\<exists>en' n'. mt_run le sh ?en en' \<and> me_main_pc en' = MM_Read [] n' \<and> untouched header en' \<and>
        (\<forall>lb \<in> set (me_lbs en'). ml_pc lb = ML_Test) \<and> (\<forall>fp \<in> set (me_fps en'). mf_pc fp = MF_Test)"
      using Cons.prems by (intro Cons.IH) (simp_all add: untouched_def)
    ultimately show ?thesis using mt_run_step [OF none] by blast
  next
    case True
    then have "\<exists>pkt. make_packet n raw parsed = Inr pkt" using Cons.prems(5) p by (auto simp: readable_def)
    then obtain pkt where pkt: "make_packet n raw parsed = Inr pkt" by blast
    have made: "made_packets le (raw # raws) n = pkt # made_packets le raws (n + 1)"
      using made_packet_read(2) [OF p] True pkt by simp
    define l where "l = tuple_hash sh pkt mod length (me_lbs en)"
    let ?lb = "me_lbs en ! l"
    define q where "q = (ml_input_queue ?lb)\<lparr>tq_items := tq_items (ml_input_queue ?lb) @ [pkt]\<rparr>"
    let ?mid = "en\<lparr>me_stats := count_packet parsed (mp_data pkt) (me_stats en), me_main_pc := MM_Push l pkt raws (n + 1)\<rparr>"
    let ?en = "?mid\<lparr>me_lbs := (me_lbs en)[l := ?lb\<lparr>ml_input_queue := q\<rparr>], me_main_pc := MM_Read raws (n + 1)\<rparr>"
    have l: "l < length (me_lbs en)" using Cons.prems(3) by (simp add: l_def)
    have "lb_waiting (length (made_packets le (raw # raws) n)) ?lb" using Cons.prems(4) l by simp
    then have push: "mtq_push pkt (ml_input_queue ?lb) = Some q"
      unfolding made by (simp add: lb_waiting_def mtq_push_def q_def)
    have 1: "mt_thread_step le sh MT_Main en = Inr (Some ?mid)"
      using Cons.prems(1,3) p True pkt by (auto simp: mt_thread_step_def mm_step_def l_def)
    have 2: "mt_thread_step le sh MT_Main ?mid = Inr (Some ?en)"
      using push by (simp add: mt_thread_step_def mm_step_def)
    have "lb_waiting (length (made_packets le raws (n + 1))) lb" if "lb \<in> set (me_lbs ?en)" for lb
    proof -
      from that obtain j where "j < length (me_lbs en)" "lb = (me_lbs en)[l := ?lb\<lparr>ml_input_queue := q\<rparr>] ! j"
        by (auto simp: in_set_conv_nth)
      then have j: "j < length (me_lbs en)" "lb = (if j = l then ?lb\<lparr>ml_input_queue := q\<rparr> else me_lbs en ! j)"
        by (simp_all add: nth_list_update)
      have "lb_waiting (length (made_packets le (raw # raws) n)) (me_lbs en ! j)" using Cons.prems(4) j(1) by simp
      then show ?thesis using j(2) unfolding made by (auto simp: lb_waiting_def q_def)
    qed
    then have "\<forall>lb \<in> set (me_lbs ?en). lb_waiting (length (made_packets le raws (n + 1))) lb" by blast
    then have "\<exists>en' n'. mt_run le sh ?en en' \<and> me_main_pc en' = MM_Read [] n' \<and> untouched header en' \<and>
        (\<forall>lb \<in> set (me_lbs en'). ml_pc lb = ML_Test) \<and> (\<forall>fp \<in> set (me_fps en'). mf_pc fp = MF_Test)"
      using Cons.prems(2,3,5,6) by (intro Cons.IH) (simp_all add: untouched_def)
    moreover have "me_fault ?mid = None" using none by simp
    ultimately show ?thesis using mt_run_step [OF none 1 mt_run_step [OF _ 2]] by blast
  qed
qed

lemma stop_all_lbs:
  assumes "me_main_pc en = MM_StopLB i" and "untouched header en" and "i \<le> length (me_lbs en)"
    and "\<And>j. i \<le> j \<Longrightarrow> j < length (me_lbs en) \<Longrightarrow> ml_pc (me_lbs en ! j) = ML_Test"
    and "\<forall>fp \<in> set (me_fps en). mf_pc fp = MF_Test"
  shows "\<exists>en'. mt_run le sh en en' \<and> me_main_pc en' = MM_StopFP 0 \<and> untouched header en' \<and>
    (\<forall>fp \<in> set (me_fps en'). mf_pc fp = MF_Test)"
  using assms
proof (induction "length (me_lbs en) - i" arbitrary: en i)
  case 0
  then have "mt_thread_step le sh MT_Main en = Inr (Some (en\<lparr>me_main_pc := MM_StopFP 0\<rparr>))"
    by (simp add: mt_thread_step_def mm_step_def)
  then show ?case
    using 0 mt_run_step [of en le sh MT_Main] by (intro exI [of _ "en\<lparr>me_main_pc := MM_StopFP 0\<rparr>"]) (auto simp: untouched_def)
next
  case (Suc d)
  have none: "me_fault en = None" using Suc.prems(2) by (simp add: untouched_def)
  have i: "i < length (me_lbs en)" using Suc.hyps(2) by simp
  let ?lb = "ml_stop (me_lbs en ! i)"
  let ?en1 = "en\<lparr>me_lbs := (me_lbs en)[i := ?lb], me_main_pc := MM_JoinLB i\<rparr>"
  let ?en2 = "?en1\<lparr>me_lbs := (me_lbs en)[i := ?lb\<lparr>ml_pc := ML_Ended\<rparr>]\<rparr>"
  let ?en3 = "?en2\<lparr>me_main_pc := MM_StopLB (i + 1)\<rparr>"
  have 1: "mt_thread_step le sh MT_Main en = Inr (Some ?en1)"
    using Suc.prems(1) i by (simp add: mt_thread_step_def mm_step_def)
  have 2: "mt_thread_step le sh (MT_LB i) ?en1 = Inr (Some ?en2)"
    using Suc.prems(4) i by (simp add: mt_thread_step_def ml_step_def ml_stop_def Let_def)
  have 3: "mt_thread_step le sh MT_Main ?en2 = Inr (Some ?en3)"
    using i by (simp add: mt_thread_step_def mm_step_def)
  have "\<exists>en'. mt_run le sh ?en3 en' \<and> me_main_pc en' = MM_StopFP 0 \<and> untouched header en' \<and>
      (\<forall>fp \<in> set (me_fps en'). mf_pc fp = MF_Test)"
    using Suc.prems Suc.hyps(2) by (intro Suc.hyps(1) [of _ "i + 1"]) (simp_all add: untouched_def)
  moreover have "me_fault ?en1 = None" "me_fault ?en2 = None" using none by simp_all
  ultimately show ?case using mt_run_step [OF none 1 mt_run_step [OF _ 2 mt_run_step [OF _ 3]]] by blast
qed

lemma stop_all_fps:
  assumes "me_main_pc en = MM_StopFP i" and "untouched header en" and "i \<le> length (me_fps en)"
    and "\<And>j. i \<le> j \<Longrightarrow> j < length (me_fps en) \<Longrightarrow> mf_pc (me_fps en ! j) = MF_Test"
  shows "\<exists>en'. mt_run le sh en en' \<and> me_main_pc en' = MM_StopOutput \<and> untouched header en'"
  using assms
proof (induction "length (me_fps en) - i" arbitrary: en i)
  case 0
  then have "mt_thread_step le sh MT_Main en = Inr (Some (en\<lparr>me_main_pc := MM_StopOutput\<rparr>))"
    by (simp add: mt_thread_step_def mm_step_def)
  then show ?case
    using 0 mt_run_step [of en le sh MT_Main] by (intro exI [of _ "en\<lparr>me_main_pc := MM_StopOutput\<rparr>"]) (auto simp: untouched_def)
next
  case (Suc d)
  have none: "me_fault en = None" using Suc.prems(2) by (simp add: untouched_def)
  have i: "i < length (me_fps en)" using Suc.hyps(2) by simp
  let ?fp = "mf_stop (me_fps en ! i)"
  let ?en1 = "en\<lparr>me_fps := (me_fps en)[i := ?fp], me_main_pc := MM_JoinFP i\<rparr>"
  let ?en2 = "?en1\<lparr>me_fps := (me_fps en)[i := ?fp\<lparr>mf_pc := MF_Ended\<rparr>]\<rparr>"
  let ?en3 = "?en2\<lparr>me_main_pc := MM_StopFP (i + 1)\<rparr>"
  have 1: "mt_thread_step le sh MT_Main en = Inr (Some ?en1)"
    using Suc.prems(1) i by (simp add: mt_thread_step_def mm_step_def)
  have 2: "mt_thread_step le sh (MT_FP i) ?en1 = Inr (Some ?en2)"
    using Suc.prems(4) i by (simp add: mt_thread_step_def mf_step_def mf_stop_def Let_def)
  have 3: "mt_thread_step le sh MT_Main ?en2 = Inr (Some ?en3)"
    using i by (simp add: mt_thread_step_def mm_step_def)
  have "\<forall>fp \<in> set (me_fps ?en3). tq_items (mf_input_queue fp) = []"
    using Suc.prems(2) i by (auto simp: untouched_def mf_stop_def mtq_shutdown_def dest!: set_update_subset_insert [THEN subsetD])
  then have "untouched header ?en3" using Suc.prems(2) by (simp add: untouched_def)
  then have "\<exists>en'. mt_run le sh ?en3 en' \<and> me_main_pc en' = MM_StopOutput \<and> untouched header en'"
    using Suc.prems Suc.hyps(2) by (intro Suc.hyps(1) [of _ "i + 1"]) simp_all
  moreover have "me_fault ?en1 = None" "me_fault ?en2 = None" using none by simp_all
  ultimately show ?case using mt_run_step [OF none 1 mt_run_step [OF _ 2 mt_run_step [OF _ 3]]] by blast
qed

lemma hasty_run:
  assumes "mt_main le captures creates argv = Inr (MT_Running en)" and "mt_options (drop 3 argv) default_mt_options = Inr op"
    and "mo_num_lbs op = int L" and "mo_fps_per_lb op = int F" and "0 < L"
    and "pcap_open le (captures (argv ! 1)) closed_reader = (True, reader)"
    and "\<forall>raw \<in> set (read_packets le reader). readable le raw" and "length (made_packets le (read_packets le reader) 0) \<le> 10000"
  shows "\<exists>en'. mt_run le sh en en' \<and> me_main_pc en' = MM_Done \<and> me_output en' = store_global_header le (pr_global_header reader) \<and>
    mt_forwarded (me_stats en') = 0 \<and> mt_dropped (me_stats en') = 0"
proof -
  let ?h = "store_global_header le (pr_global_header reader)"
  note en = mt_launch [OF assms(1-4,6)]
  have "untouched ?h en" "\<forall>fp \<in> set (me_fps en). mf_pc fp = MF_Test"
    by (simp_all add: untouched_def en new_queue_def mf_start_def new_mt_fast_path_def)
  moreover have "\<forall>lb \<in> set (me_lbs en). lb_waiting (length (made_packets le (read_packets le reader) 0)) lb" "me_lbs en \<noteq> []"
    using assms(5,8) by (auto simp: en lb_waiting_def ml_start_def new_mt_load_balancer_def new_queue_def)
  ultimately obtain en1 n where 1: "mt_run le sh en en1" "me_main_pc en1 = MM_Read [] n" "untouched ?h en1"
    "\<forall>lb \<in> set (me_lbs en1). ml_pc lb = ML_Test" "\<forall>fp \<in> set (me_fps en1). mf_pc fp = MF_Test"
    using read_all [OF en(3) _ _ _ assms(7)] by blast
  have none: "me_fault en1 = None" using 1(3) by (simp add: untouched_def)
  have "mt_thread_step le sh MT_Main en1 = Inr (Some (en1\<lparr>me_main_pc := MM_StopLB 0\<rparr>))"
    using 1(2) by (simp add: mt_thread_step_def mm_step_def)
  moreover have "\<exists>en'. mt_run le sh (en1\<lparr>me_main_pc := MM_StopLB 0\<rparr>) en' \<and> me_main_pc en' = MM_StopFP 0 \<and>
      untouched ?h en' \<and> (\<forall>fp \<in> set (me_fps en'). mf_pc fp = MF_Test)"
    using 1(3-5) by (intro stop_all_lbs [of _ 0]) (simp_all add: untouched_def)
  ultimately obtain en2 where 2: "mt_run le sh en1 en2" "me_main_pc en2 = MM_StopFP 0" "untouched ?h en2"
    "\<forall>fp \<in> set (me_fps en2). mf_pc fp = MF_Test"
    using mt_run_step [OF none] by blast
  obtain en3 where 3: "mt_run le sh en2 en3" "me_main_pc en3 = MM_StopOutput" "untouched ?h en3"
    using stop_all_fps [OF 2(2,3), of le sh] 2(4) by auto
  let ?en4 = "en3\<lparr>me_output_running := False, me_output_queue := mtq_shutdown (me_output_queue en3), me_main_pc := MM_JoinOutput\<rparr>"
  let ?en5 = "?en4\<lparr>me_output_pc := MO_Ended\<rparr>"
  let ?en6 = "?en5\<lparr>me_main_pc := MM_Done\<rparr>"
  have "mt_thread_step le sh MT_Main en3 = Inr (Some ?en4)" using 3(2) by (simp add: mt_thread_step_def mm_step_def)
  moreover have "mt_thread_step le sh MT_Output ?en4 = Inr (Some ?en5)"
    using 3(3) by (simp add: mt_thread_step_def mo_step_def mtq_size_def mtq_shutdown_def untouched_def)
  moreover have "mt_thread_step le sh MT_Main ?en5 = Inr (Some ?en6)" by (simp add: mt_thread_step_def mm_step_def)
  moreover have "me_fault en3 = None" "me_fault ?en4 = None" "me_fault ?en5 = None" using 3(3) by (simp_all add: untouched_def)
  ultimately have "mt_run le sh en3 ?en6" by (meson mt_run_step rtranclp.rtrancl_refl)
  then have "mt_run le sh en ?en6" using 1(1) 2(1) 3(1) by (meson rtranclp_trans)
  moreover have "me_output ?en6 = ?h \<and> mt_forwarded (me_stats ?en6) = 0 \<and> mt_dropped (me_stats ?en6) = 0"
    using 3(3) by (simp add: untouched_def)
  ultimately show ?thesis by (intro exI [of _ ?en6]) simp
qed

section \<open>The output of the threads\<close>

lemma ipv4_readable:
  assumes "\<forall>pk. parse le raw = Inr (True, pk) \<and> pp_has_ip pk \<longrightarrow> pp_ip_version pk = 4"
  shows "readable le raw"
  unfolding readable_def
proof (intro allI impI, elim conjE)
  fix pk n assume pk: "parse le raw = Inr (True, pk)" "pp_has_ip pk" "pp_has_tcp pk \<or> pp_has_udp pk"
  then have v: "pp_ip_version pk = 4" using assms by blast
  show "\<exists>pkt. make_packet n raw pk = Inr pkt"
    using payload_place_ipv4 [OF pk(1) v pk(3)] tuple_from_text_ipv4 [OF parse_wf [OF pk(1)] v] by (auto simp: make_packet_def)
qed

text \<open>
  C12. The accounts of the multi-threaded program: under every interleaving, when it has ended, each fast path
  has decided on an initial segment of its packets in file order, each packet once; the output is the header
  and exactly the packets it let through, in order; and every packet made from the capture is forwarded,
  dropped, or among those left over in the queues of the stopped threads.
\<close>

theorem legacy_threads_account:
  assumes "mt_main le captures creates argv = Inr (MT_Running en)" and "mt_options (drop 3 argv) default_mt_options = Inr op"
    and "mo_num_lbs op = int L" and "mo_fps_per_lb op = int F" and "0 < L" and "0 < F"
    and "pcap_open le (captures (argv ! 1)) closed_reader = (True, reader)"
    and "mt_run le sh en en'" and "me_main_pc en' = MM_Done"
  shows "\<exists>written. me_output en' = store_global_header le (pr_global_header reader) @ output_body le (map mp_stamped written) \<and>
    (\<forall>i < L * F. prefix (map fst (mf_decided (me_fps en' ! i))) (mine sh L F i (made_packets le (read_packets le reader) 0)) \<and>
      mine sh L F i written = passed (me_fps en' ! i)) \<and>
    length written = mt_forwarded (me_stats en') \<and>
    mt_total_packets (me_stats en') = length (made_packets le (read_packets le reader) 0) \<and>
    mt_total_packets (me_stats en') = mt_forwarded (me_stats en') + mt_dropped (me_stats en') + left_over en'"
proof -
  from mt_done [OF mt_run_good [OF assms(8) mt_launch_good [OF assms(1-7)]] assms(9)] obtain w where
    "me_output en' = store_global_header le (pr_global_header reader) @ output_body le (map mp_stamped w)"
    "\<And>i. i < L * F \<Longrightarrow> mine sh L F i w = passed (me_fps en' ! i)"
    "\<And>i. i < L * F \<Longrightarrow> prefix (map fst (mf_decided (me_fps en' ! i))) (mine sh L F i (made_packets le (read_packets le reader) 0))"
    "length w = mt_forwarded (me_stats en')"
    "mt_total_packets (me_stats en') = length (made_packets le (read_packets le reader) 0)"
    "length (made_packets le (read_packets le reader) 0) = mt_forwarded (me_stats en') + mt_dropped (me_stats en') + left_over en'"
    by metis
  then show ?thesis by (intro exI [of _ w]) simp
qed

text \<open>
  C11. The multi-threaded program agrees with the single-threaded one. On comparable traffic and under the
  same rules, whatever the interleaving: of each flow the output holds the packets that the single-threaded
  program writes, in the same order, up to the point where the threads were stopped; when no packet was left
  over, the two outputs hold the same packets of every flow.
\<close>

theorem legacy_threads_agree:
  assumes "mt_main le captures creates argv = Inr (MT_Running en)" and "mt_options (drop 3 argv) default_mt_options = Inr op"
    and "mo_num_lbs op = int L" and "mo_fps_per_lb op = int F" and "0 < L" and "0 < F"
    and "pcap_open le (captures (argv ! 1)) closed_reader = (True, reader)"
    and "mt_run le sh en en'" and "me_main_pc en' = MM_Done"
    and "\<forall>raw \<in> set (read_packets le reader). comparable le raw"
    and "legacy_loop le (me_rules en) (read_packets le reader) (legacy_start (store_global_header le (pr_global_header reader))) = Inr st"
  shows "\<exists>written single. me_output en' = store_global_header le (pr_global_header reader) @ output_body le (map mp_stamped written) \<and>
    ls_output st = store_global_header le (pr_global_header reader) @ output_body le (map stamped_raw single) \<and>
    (\<forall>t. let threads = map mp_stamped (filter (of_tuple t) written);
             alone = map stamped_raw (filter (raw_of_flow le t) single)
         in prefix threads alone \<and> (left_over en' = 0 \<longrightarrow> threads = alone))"
proof -
  let ?h = "store_global_header le (pr_global_header reader)" and ?raws = "read_packets le reader"
  have good: "mt_good le sh L F (me_rules en) ?h (made_packets le ?raws 0) en'"
    by (rule mt_run_good [OF assms(8) mt_launch_good [OF assms(1-7)]])
  from mt_done [OF this assms(9)] obtain w where out: "me_output en' = ?h @ output_body le (map mp_stamped w)"
    and mine: "\<And>i. i < L * F \<Longrightarrow> mine sh L F i w = passed (me_fps en' ! i)"
    and pre: "\<And>i. i < L * F \<Longrightarrow> prefix (map fst (mf_decided (me_fps en' ! i))) (mine sh L F i (made_packets le ?raws 0))"
    and all: "\<And>i. i < L * F \<Longrightarrow> left_over en' = 0 \<Longrightarrow> map fst (mf_decided (me_fps en' ! i)) = mine sh L F i (made_packets le ?raws 0)"
    by metis
  obtain single where ls: "ls_output st = ?h @ output_body le (map stamped_raw single)"
    and run: "\<And>t. \<exists>bs. single_run le (me_rules en) t (filter (raw_of_flow le t) ?raws) None = Inr (bs, ls_flows st t) \<and>
      filter (raw_of_flow le t) single = let_through (filter (raw_of_flow le t) ?raws) bs"
    using legacy_loop_flows [OF assms(11)] by (auto simp: legacy_start_def)
  have "prefix (map mp_stamped (filter (of_tuple t) w)) (map stamped_raw (filter (raw_of_flow le t) single)) \<and>
    (left_over en' = 0 \<longrightarrow> map mp_stamped (filter (of_tuple t) w) = map stamped_raw (filter (raw_of_flow le t) single))" for t
  proof -
    let ?i = "route sh L F t"
    have i: "?i < L * F" by (rule route_less [OF assms(5,6)])
    have ex: "flows_explained (me_rules en) (me_fps en' ! ?i)" using good i by (auto simp: mt_inv_def fp_fine_def)
    obtain bs where bs: "single_run le (me_rules en) t (filter (raw_of_flow le t) ?raws) None = Inr (bs, ls_flows st t)"
      "filter (raw_of_flow le t) single = let_through (filter (raw_of_flow le t) ?raws) bs" using run by blast
    have "filter (of_tuple t) w = filter (of_tuple t) (passed (me_fps en' ! ?i))"
      using filter_mine [of sh L F t ?i w] mine [OF i] by simp
    then show ?thesis using one_flow [OF ex assms(10) pre [OF i] refl bs] all [OF i] by simp
  qed
  then show ?thesis using out ls by (intro exI [of _ w] exI [of _ single]) (simp add: Let_def)
qed

text \<open>
  C13. The multi-threaded program can lose everything: for every IPv4 capture of at most 10000 packets there
  is an interleaving in which the program ends normally and its output is the bare header, although no packet
  was counted as dropped. It stops its threads after a pause, however much is still queued.
\<close>

theorem legacy_threads_can_lose_everything:
  assumes "mt_main le captures creates argv = Inr (MT_Running en)" and "mt_options (drop 3 argv) default_mt_options = Inr op"
    and "mo_num_lbs op = int L" and "mo_fps_per_lb op = int F" and "0 < L" and "0 < F"
    and "pcap_open le (captures (argv ! 1)) closed_reader = (True, reader)"
    and "\<forall>raw \<in> set (read_packets le reader). \<forall>pk. parse le raw = Inr (True, pk) \<and> pp_has_ip pk \<longrightarrow> pp_ip_version pk = 4"
    and "length (made_packets le (read_packets le reader) 0) \<le> 10000"
  shows "\<exists>en'. mt_run le sh en en' \<and> me_main_pc en' = MM_Done \<and>
    me_output en' = store_global_header le (pr_global_header reader) \<and> mt_dropped (me_stats en') = 0 \<and>
    mt_total_packets (me_stats en') = length (made_packets le (read_packets le reader) 0)"
proof -
  have "\<forall>raw \<in> set (read_packets le reader). readable le raw" using assms(8) ipv4_readable by blast
  then obtain en' where r: "mt_run le sh en en'" "me_main_pc en' = MM_Done"
    "me_output en' = store_global_header le (pr_global_header reader)" "mt_dropped (me_stats en') = 0"
    using hasty_run [OF assms(1-5,7) _ assms(9)] by blast
  have "mt_total_packets (me_stats en') = length (made_packets le (read_packets le reader) 0)"
    using mt_done [OF mt_run_good [OF r(1) mt_launch_good [OF assms(1-7)]] r(2)] by metis
  with r show ?thesis by blast
qed

text \<open>A capture of one bare segment, and the default pools.\<close>

lemma bare_comparable:
  assumes "rp_data raw = bare_frame"
  shows "comparable True raw"
  unfolding comparable_def
proof (intro allI impI, elim conjE)
  fix pk assume pk: "parse True raw = Inr (True, pk)"
  have "wf_segment bare_segment" "wf_ipv4_packet sample_ip"
    by (simp_all add: wf_segment_def bare_segment_def wf_ipv4_packet_def sample_ip_def)
  from tcp4_frame_parsed [OF this, of "[1, 2, 3, 4, 5, 6]" "[6, 5, 4, 3, 2, 1]" raw True] assms pk
  have "pp_payload_data pk = []" by (auto simp: bare_frame_def bare_segment_def)
  moreover have "SNIExtractor_extract [] 0 = Inr None" "HTTPHostExtractor_extract [] 0 = Inr None"
    by (simp_all add: SNIExtractor_extract_def isTLSClientHello_def HTTPHostExtractor_extract_def isHTTPRequest_def)
  ultimately show "pp_ip_version pk = 4 \<and> (\<forall>name. names_in pk name \<longrightarrow> pp_has_tcp pk \<and> sniToAppType name \<noteq> UNKNOWN)"
    using bare_frame_ipv4 [OF assms pk] by (simp add: names_in_def)
qed

lemma sample_mt_launch:
  obtains en reader where "mt_main True (\<lambda>_. sample_capture 1) (\<lambda>_. True) [''dpi'', ''in'', ''out''] = Inr (MT_Running en)"
    "pcap_open True (sample_capture 1) closed_reader = (True, reader)" "me_rules en = no_blocking"
proof -
  obtain reader where r: "pcap_open True (sample_capture 1) closed_reader = (True, reader)"
    using sample_capture_read [of 1] by blast
  then have "\<exists>en. mt_main True (\<lambda>_. sample_capture 1) (\<lambda>_. True) [''dpi'', ''in'', ''out''] = Inr (MT_Running en) \<and> me_rules en = no_blocking"
    by (simp add: mt_main_def default_mt_options_def new_mt_engine_def mt_rules_def mt_process_def Let_def)
  then show thesis using r that by blast
qed

lemma length_made: "length (made_packets le raws i) \<le> length raws"
  by (induction raws arbitrary: i) (auto split: option.split intro: le_SucI)

lemma sample_made:
  assumes "pcap_open True (sample_capture 1) closed_reader = (True, reader)"
  shows "length (made_packets True (read_packets True reader) 0) \<le> 10000"
  using length_made [of True "read_packets True reader" 0] sample_capture_packets(1) [OF assms] by simp

lemma default_pools: "mt_options (drop 3 [''dpi'', ''in'', ''out'']) default_mt_options = Inr default_mt_options"
  "mo_num_lbs default_mt_options = int 2" "mo_fps_per_lb default_mt_options = int 2"
  by (simp_all add: default_mt_options_def)

lemma sample_hasty_run:
  assumes "mt_main True (\<lambda>_. sample_capture 1) (\<lambda>_. True) [''dpi'', ''in'', ''out''] = Inr (MT_Running en)"
    and "pcap_open True (sample_capture 1) closed_reader = (True, reader)"
  obtains en' where "mt_run True sample_hash en en'" "me_main_pc en' = MM_Done"
proof -
  have "\<forall>raw \<in> set (read_packets True reader). readable True raw"
    using sample_ipv4 [OF assms(2)] ipv4_readable by blast
  then show thesis using hasty_run [OF assms(1) default_pools] assms(2) sample_made [OF assms(2)] that by auto
qed

lemma legacy_threads_account_witness:
  "\<exists>en en' (reader :: PcapReader) written. mt_main True (\<lambda>_. sample_capture 1) (\<lambda>_. True) [''dpi'', ''in'', ''out''] = Inr (MT_Running en) \<and>
     mt_run True sample_hash en en' \<and> me_main_pc en' = MM_Done \<and>
     me_output en' = store_global_header True (pr_global_header reader) @ output_body True (map mp_stamped written) \<and>
     length written = mt_forwarded (me_stats en')"
proof -
  obtain en reader where h: "mt_main True (\<lambda>_. sample_capture 1) (\<lambda>_. True) [''dpi'', ''in'', ''out''] = Inr (MT_Running en)"
    "pcap_open True (sample_capture 1) closed_reader = (True, reader)" using sample_mt_launch by metis
  obtain en' where r: "mt_run True sample_hash en en'" "me_main_pc en' = MM_Done" using sample_hasty_run [OF h] .
  obtain written where "me_output en' = store_global_header True (pr_global_header reader) @ output_body True (map mp_stamped written)"
    "length written = mt_forwarded (me_stats en')"
    using legacy_threads_account [OF h(1) default_pools _ _ _ r] h(2) by auto
  with h(1) r show ?thesis by blast
qed

lemma legacy_threads_agree_witness:
  "\<exists>en en' (st :: LegacyState) (reader :: PcapReader) written single. mt_main True (\<lambda>_. sample_capture 1) (\<lambda>_. True) [''dpi'', ''in'', ''out''] = Inr (MT_Running en) \<and>
     mt_run True sample_hash en en' \<and> me_main_pc en' = MM_Done \<and>
     me_output en' = store_global_header True (pr_global_header reader) @ output_body True (map mp_stamped written) \<and>
     ls_output st = store_global_header True (pr_global_header reader) @ output_body True (map stamped_raw single)"
proof -
  obtain en reader where h: "mt_main True (\<lambda>_. sample_capture 1) (\<lambda>_. True) [''dpi'', ''in'', ''out''] = Inr (MT_Running en)"
    "pcap_open True (sample_capture 1) closed_reader = (True, reader)" using sample_mt_launch by metis
  obtain en' where r: "mt_run True sample_hash en en'" "me_main_pc en' = MM_Done" using sample_hasty_run [OF h] .
  obtain st where st: "legacy_loop True (me_rules en) (read_packets True reader)
      (legacy_start (store_global_header True (pr_global_header reader))) = Inr st"
    using legacy_loop_ipv4 [OF sample_ipv4 [OF h(2)]] by blast
  have c: "\<forall>raw \<in> set (read_packets True reader). comparable True raw"
    using sample_capture_packets(2) [OF h(2)] bare_comparable by blast
  obtain written single where
    "me_output en' = store_global_header True (pr_global_header reader) @ output_body True (map mp_stamped written)"
    "ls_output st = store_global_header True (pr_global_header reader) @ output_body True (map stamped_raw single)"
    using legacy_threads_agree [OF h(1) default_pools _ _ h(2) r c st] by auto
  with h(1) r show ?thesis by blast
qed

lemma legacy_threads_can_lose_everything_witness:
  "\<exists>en en' (reader :: PcapReader). mt_main True (\<lambda>_. sample_capture 1) (\<lambda>_. True) [''dpi'', ''in'', ''out''] = Inr (MT_Running en) \<and>
     mt_run True sample_hash en en' \<and> me_main_pc en' = MM_Done \<and>
     me_output en' = store_global_header True (pr_global_header reader) \<and> mt_dropped (me_stats en') = 0"
proof -
  obtain en reader where h: "mt_main True (\<lambda>_. sample_capture 1) (\<lambda>_. True) [''dpi'', ''in'', ''out''] = Inr (MT_Running en)"
    "pcap_open True (sample_capture 1) closed_reader = (True, reader)" using sample_mt_launch by metis
  have "\<exists>en'. mt_run True sample_hash en en' \<and> me_main_pc en' = MM_Done \<and>
      me_output en' = store_global_header True (pr_global_header reader) \<and> mt_dropped (me_stats en') = 0 \<and>
      mt_total_packets (me_stats en') = length (made_packets True (read_packets True reader) 0)"
    by (rule legacy_threads_can_lose_everything [OF h(1) default_pools _ _ _ sample_ipv4 [OF h(2)] sample_made [OF h(2)]])
      (use h(2) in simp_all)
  then show ?thesis using h(1) by blast
qed

end
