(* ===== verification/Legacy_Printers.thy ===== *)
theory Legacy_Printers
  imports Legacy_Single
begin

text \<open>
  The two programs that only print the packets of a capture: the viewer of \<open>legacy/main_viewer.cpp\<close> and the
  test program of \<open>legacy/main_simple.cpp\<close>, with what they write to \<open>std::cout\<close> and \<open>std::cerr\<close>. The text of
  a point in time in the local time zone is a parameter. The build no longer compiles them.
\<close>

section \<open>Output and messages of the reader\<close>

record Console =
  cout :: string
  cerr :: string

definition silent :: Console where
  "silent = \<lparr>cout = [], cerr = []\<rparr>"

definition say :: "string \<Rightarrow> Console \<Rightarrow> Console" where
  "say s con = con\<lparr>cout := cout con @ s\<rparr>"

definition complain :: "string \<Rightarrow> Console \<Rightarrow> Console" where
  "complain s con = con\<lparr>cerr := cerr con @ s\<rparr>"

definition integer_text :: "int \<Rightarrow> string" where
  "integer_text i = (if i < 0 then ''-'' else []) @ to_string (nat \<bar>i\<bar>)"

text \<open>What \<open>PcapReader::open\<close> prints; \<open>reader\<close> is the reader after the call.\<close>

definition open_messages :: "bool \<Rightarrow> string \<Rightarrow> bytes option \<Rightarrow> PcapReader \<Rightarrow> Console \<Rightarrow> Console" where
  "open_messages le filename content reader con =
     (case content of
        None \<Rightarrow> complain (put_line (''Error: Could not open file: '' @ filename)) con
      | Some bs \<Rightarrow>
          (case fst (stream_read 24 (bs, False)) of
             None \<Rightarrow> complain (put_line ''Error: Could not read PCAP global header'') con
           | Some hb \<Rightarrow>
               let magic = magic_number (load_global_header le hb); h = pr_global_header reader
               in if magic = PCAP_MAGIC_NATIVE \<or> magic = PCAP_MAGIC_SWAPPED then
                    say (put_line (''Opened PCAP file: '' @ filename) @
                      put_line (''  Version: '' @ to_string (unat (version_major h)) @ ''.'' @
                        to_string (unat (version_minor h))) @
                      put_line (''  Snaplen: '' @ to_string (unat (snaplen h)) @ '' bytes'') @
                      put_line (''  Link type: '' @ to_string (unat (network h)) @
                        (if network h = 1 then '' (Ethernet)'' else []))) con
                  else complain (put_line (''Error: Invalid PCAP magic number: 0x'' @ to_hex (unat magic))) con))"

text \<open>What a call of \<open>readNextPacket\<close> that delivers nothing prints.\<close>

definition read_complaint :: "bool \<Rightarrow> PcapReader \<Rightarrow> string" where
  "read_complaint le reader =
     (case pr_file reader of
        None \<Rightarrow> []
      | Some f \<Rightarrow>
          (case stream_read 16 f of
             (None, _) \<Rightarrow> []
           | (Some hb, f') \<Rightarrow>
               let n = maybeSwap32 (pr_needs_byte_swap reader) (incl_len (load_packet_header le hb))
               in if snaplen (pr_global_header reader) < n \<or> 65535 < n
                  then put_line (''Error: Invalid packet length: '' @ to_string (unat n))
                  else if fst (stream_read (unat n) f') = None then put_line ''Error: Could not read packet data''
                  else []))"

section \<open>The viewer\<close>

text \<open>\<open>std::setfill('0')\<close> and \<open>std::setw(n)\<close>.\<close>

definition zero_filled :: "nat \<Rightarrow> string \<Rightarrow> string" where
  "zero_filled n s = replicate (n - length s) (CHR ''0'') @ s"

definition ether_type_text :: "u16 \<Rightarrow> string" where
  "ether_type_text ether_type =
     zero_filled 4 (to_hex (unat ether_type)) @
     (if ether_type = 0x0800 then '' (IPv4)'' else if ether_type = 0x86DD then '' (IPv6)''
      else if ether_type = 0x0806 then '' (ARP)'' else [])"

text \<open>The first 32 bytes of the payload.\<close>

definition payload_preview :: "ParsedPacket \<Rightarrow> string res" where
  "payload_preview pkt =
     rbind (rd_bytes (pp_payload_data pkt) 0 (min (pp_payload_length pkt) 32)) (\<lambda>preview.
       Inr (concat (map (\<lambda>b. hex2 b @ '' '') preview) @ (if 32 < pp_payload_length pkt then ''...'' else [])))"

definition printPacketSummary :: "(u32 \<Rightarrow> string) \<Rightarrow> ParsedPacket \<Rightarrow> nat \<Rightarrow> string res" where
  "printPacketSummary local_time pkt packet_num =
     rbind (if 0 < pp_payload_length pkt
            then rbind (payload_preview pkt) (\<lambda>preview.
              Inr (put_line [] @ put_line ''[Payload]'' @
                put_line (''  Length: '' @ to_string (pp_payload_length pkt) @ '' bytes'') @
                put_line (''  Preview: '' @ preview)))
            else Inr []) (\<lambda>payload.
       Inr (put_line [] @ put_line (''========== Packet #'' @ to_string packet_num @ '' =========='') @
         put_line (''Time: '' @ local_time (pp_timestamp_sec pkt) @ ''.'' @
           zero_filled 6 (to_string (unat (pp_timestamp_usec pkt)))) @
         put_line [] @ put_line ''[Ethernet]'' @
         put_line (''  Source MAC:      '' @ pp_src_mac pkt) @
         put_line (''  Destination MAC: '' @ pp_dest_mac pkt) @
         put_line (''  EtherType:       0x'' @ ether_type_text (pp_ether_type pkt)) @
         (if pp_has_ip pkt then
            put_line [] @ put_line (''[IPv'' @ to_string (unat (pp_ip_version pkt)) @ '']'') @
            put_line (''  Source IP:      '' @ pp_src_ip pkt) @
            put_line (''  Destination IP: '' @ pp_dest_ip pkt) @
            put_line (''  Protocol:       '' @ protocolToString (pp_protocol pkt)) @
            put_line (''  TTL:            '' @ to_string (unat (pp_ttl pkt)))
          else []) @
         (if pp_has_tcp pkt then
            put_line [] @ put_line ''[TCP]'' @
            put_line (''  Source Port:      '' @ to_string (unat (pp_src_port pkt))) @
            put_line (''  Destination Port: '' @ to_string (unat (pp_dest_port pkt))) @
            put_line (''  Sequence Number:  '' @ to_string (unat (pp_seq_number pkt))) @
            put_line (''  Ack Number:       '' @ to_string (unat (pp_ack_number pkt))) @
            put_line (''  Flags:            '' @ tcpFlagsToString (pp_tcp_flags pkt))
          else []) @
         (if pp_has_udp pkt then
            put_line [] @ put_line ''[UDP]'' @
            put_line (''  Source Port:      '' @ to_string (unat (pp_src_port pkt))) @
            put_line (''  Destination Port: '' @ to_string (unat (pp_dest_port pkt)))
          else []) @
         payload))"

definition viewer_usage :: "string \<Rightarrow> string" where
  "viewer_usage program_name =
     put_line (''Usage: '' @ program_name @ '' <pcap_file> [max_packets]'') @ put_line [] @
     put_line ''Arguments:'' @
     put_line ''  pcap_file   - Path to a .pcap file captured by Wireshark'' @
     put_line ''  max_packets - (Optional) Maximum number of packets to display'' @ put_line [] @
     put_line ''Example:'' @
     put_line (''  '' @ program_name @ '' capture.pcap'') @
     put_line (''  '' @ program_name @ '' capture.pcap 10'')"

text \<open>The loop: the packets read, the parse errors and what was printed.\<close>

function viewer_loop ::
  "bool \<Rightarrow> (u32 \<Rightarrow> string) \<Rightarrow> int \<Rightarrow> PcapReader \<Rightarrow> nat \<Rightarrow> nat \<Rightarrow> Console \<Rightarrow> (nat \<times> nat \<times> Console) res" where
  "viewer_loop le local_time max_packets reader packet_count parse_errors con =
     (case readNextPacket le reader of
        (None, _) \<Rightarrow> Inr (packet_count, parse_errors, complain (read_complaint le reader) con)
      | (Some raw, reader') \<Rightarrow>
          let packet_count = packet_count + 1 in
          rbind (parse le raw) (\<lambda>(ok, parsed_packet).
          rbind (if ok
                 then rbind (printPacketSummary local_time parsed_packet packet_count) (\<lambda>s.
                   Inr (parse_errors, say s con))
                 else Inr (parse_errors + 1, complain
                   (put_line (''Warning: Failed to parse packet #'' @ to_string packet_count)) con))
            (\<lambda>(parse_errors, con).
              if 0 < max_packets \<and> max_packets \<le> int packet_count
              then Inr (packet_count, parse_errors,
                say (put_line [] @ put_line (''(Stopped after '' @ integer_text max_packets @ '' packets)'')) con)
              else viewer_loop le local_time max_packets reader' packet_count parse_errors con)))"
  by pat_completeness auto
termination
  by (relation "measure (\<lambda>(_, _, _, reader, _). unread reader)") (auto dest: readNextPacket_unread [OF sym])

declare viewer_loop.simps [simp del]

text \<open>The program: its exit code and what it has printed. A limit that is no number ends it by an exception.\<close>

definition viewer_main ::
  "bool \<Rightarrow> (string \<Rightarrow> bytes option) \<Rightarrow> (u32 \<Rightarrow> string) \<Rightarrow> string list \<Rightarrow> (int \<times> Console) res" where
  "viewer_main le captures local_time argv =
     (let con = say (put_line ''===================================='' @ put_line ''     Packet Analyzer v1.0'' @
            put_line ''===================================='' @ put_line []) silent
      in if length argv < 2 then Inr (1, say (viewer_usage (argv ! 0)) con)
         else
           rbind (if 3 \<le> length argv then stoi (argv ! 2) else Inr (-1)) (\<lambda>max_packets.
             let (opened, reader) = pcap_open le (captures (argv ! 1)) closed_reader;
                 con = open_messages le (argv ! 1) (captures (argv ! 1)) reader con
             in if \<not> opened then Inr (1, con)
                else rbind (viewer_loop le local_time max_packets reader 0 0
                    (say (put_line [] @ put_line ''--- Reading packets ---'') con))
                  (\<lambda>(packet_count, parse_errors, con).
                    Inr (0, say (put_line [] @ put_line ''===================================='' @
                      put_line ''Summary:'' @
                      put_line (''  Total packets read:  '' @ to_string packet_count) @
                      put_line (''  Parse errors:        '' @ to_string parse_errors) @
                      put_line ''===================================='') con))))"

section \<open>The test program\<close>

text \<open>
  The server name of a packet to port 443. Unlike \<open>main_working.cpp\<close> it reads the data offset of the TCP
  header without a look at the length of the packet.
\<close>

definition simple_sni :: "ParsedPacket \<Rightarrow> bytes \<Rightarrow> string option res" where
  "simple_sni parsed data =
     (if pp_has_tcp parsed \<and> pp_dest_port parsed = 443 \<and> 0 < pp_payload_length parsed then
        rbind (rd data 14) (\<lambda>b.
          let payload_offset = 14 + unat (b AND 0x0F) * 4 in
          rbind (rd data (payload_offset + 12)) (\<lambda>b.
            let payload_offset = payload_offset + unat (drop_bit 4 b AND 0x0F) * 4
            in if payload_offset < length data
               then SNIExtractor_extract (drop payload_offset data) (length data - payload_offset)
               else Inr None))
      else Inr None)"

definition simple_line :: "nat \<Rightarrow> ParsedPacket \<Rightarrow> string option \<Rightarrow> string" where
  "simple_line packets parsed sni =
     put_line (''Packet '' @ to_string packets @ '': '' @
       pp_src_ip parsed @ '':'' @ to_string (unat (pp_src_port parsed)) @ '' -> '' @
       pp_dest_ip parsed @ '':'' @ to_string (unat (pp_dest_port parsed)) @
       (case sni of None \<Rightarrow> [] | Some name \<Rightarrow> '' [SNI: '' @ name @ '']''))"

function simple_loop :: "bool \<Rightarrow> PcapReader \<Rightarrow> nat \<Rightarrow> nat \<Rightarrow> Console \<Rightarrow> (nat \<times> nat \<times> Console) res" where
  "simple_loop le reader packets tls_count con =
     (case readNextPacket le reader of
        (None, _) \<Rightarrow> Inr (packets, tls_count, complain (read_complaint le reader) con)
      | (Some raw, reader') \<Rightarrow>
          let packets = packets + 1 in
          rbind (parse le raw) (\<lambda>(ok, parsed).
            if \<not> ok \<or> \<not> pp_has_ip parsed then simple_loop le reader' packets tls_count con
            else rbind (simple_sni parsed (rp_data raw)) (\<lambda>sni.
              simple_loop le reader' packets (if sni = None then tls_count else tls_count + 1)
                (say (simple_line packets parsed sni) con))))"
  by pat_completeness auto
termination
  by (relation "measure (\<lambda>(_, reader, _). unread reader)") (auto dest: readNextPacket_unread [OF sym])

declare simple_loop.simps [simp del]

definition simple_main :: "bool \<Rightarrow> (string \<Rightarrow> bytes option) \<Rightarrow> string list \<Rightarrow> (int \<times> Console) res" where
  "simple_main le captures argv =
     (if length argv < 2 then Inr (1, complain (put_line (''Usage: '' @ argv ! 0 @ '' <pcap_file>'')) silent)
      else
        let (opened, reader) = pcap_open le (captures (argv ! 1)) closed_reader;
            con = open_messages le (argv ! 1) (captures (argv ! 1)) reader silent
        in if \<not> opened then Inr (1, con)
           else rbind (simple_loop le reader 0 0 (say (put_line ''Processing packets...'') con))
             (\<lambda>(packets, tls_count, con).
               Inr (0, say (put_line [] @ put_line (''Total packets: '' @ to_string packets) @
                 put_line (''SNI extracted: '' @ to_string tls_count)) con)))"

section \<open>What they do\<close>

text \<open>A packet the parser accepts.\<close>

definition parses :: "bool \<Rightarrow> RawPacket \<Rightarrow> bool" where
  "parses le raw = (case parse le raw of Inr (ok, _) \<Rightarrow> ok | _ \<Rightarrow> False)"

lemma summary_total:
  assumes "parse le raw = Inr (ok, pk)"
  shows "\<exists>s. printPacketSummary local_time pk n = Inr s"
  using parse_wp [of le raw] assms by (simp add: wp_iff printPacketSummary_def payload_preview_def rd_bytes_in)

text \<open>
  The viewer reads no byte outside a packet, counts every packet it reads and every packet the parser
  rejects, and stops at its limit.
\<close>

lemma viewer_loop_counts:
  fixes le reader max_packets and c e :: nat
  assumes "0 < max_packets \<Longrightarrow> int c < max_packets"
  defines "ps \<equiv> read_packets le reader"
  defines "shown \<equiv> if 0 < max_packets then take (nat (max_packets - int c)) ps else ps"
  shows "\<exists>con'. viewer_loop le local_time max_packets reader c e con =
    Inr (c + length shown, e + length (filter (\<lambda>raw. \<not> parses le raw) shown), con')"
  using assms(1) unfolding shown_def ps_def
proof (induction le local_time max_packets reader c e con rule: viewer_loop.induct)
  case (1 le lt mx rd c e con)
  note loop = viewer_loop.simps [of le lt mx rd c e con] and read = read_packets.simps [of le rd]
  show ?case
  proof (cases "readNextPacket le rd")
    case (Pair q rd')
    show ?thesis
    proof (cases q)
      case None
      then show ?thesis using Pair by (simp add: loop read)
    next
      case (Some raw)
      obtain ok pk where p: "parse le raw = Inr (ok, pk)" using parse_wp [of le raw] by (auto simp: wp_iff)
      obtain s where s: "printPacketSummary lt pk (c + 1) = Inr s" using summary_total [OF p] by blast
      obtain e1 con1 where one: "(if ok then rbind (printPacketSummary lt pk (c + 1)) (\<lambda>s. Inr (e, say s con))
          else Inr (e + 1, complain (put_line (''Warning: Failed to parse packet #'' @ to_string (c + 1))) con)) = Inr (e1, con1)"
        "e1 = e + (if parses le raw then 0 else 1)"
        using p s by (cases ok) (auto simp: parses_def)
      have ps: "read_packets le rd = raw # read_packets le rd'" using Pair Some by (simp add: read)
      have step: "viewer_loop le lt mx rd c e con = (if 0 < mx \<and> mx \<le> int (c + 1) then Inr (c + 1, e1,
          say (put_line [] @ put_line (''(Stopped after '' @ integer_text mx @ '' packets)'')) con1)
        else viewer_loop le lt mx rd' (c + 1) e1 con1)"
        using one(1) by (simp only: loop Pair Some option.case prod.case Let_def p rbind.simps)
      show ?thesis
      proof (cases "0 < mx \<and> mx \<le> int (c + 1)")
        case True
        then have "nat (mx - int c) = 1" using 1(2) by simp
        then show ?thesis using True step one(2) ps by simp
      next
        case False
        then have n: "0 < mx \<Longrightarrow> nat (mx - int c) = Suc (nat (mx - int (c + 1)))" by simp
        have "0 < mx \<Longrightarrow> int (c + 1) < mx" using False by simp
        then show ?thesis
          using 1(1) [OF Pair [symmetric] Some refl p refl one(1) refl False] False step one(2) ps n
          by (cases "0 < mx") auto
      qed
    qed
  qed
qed

theorem viewer_reports_capture:
  assumes "2 \<le> length argv" and "if 3 \<le> length argv then stoi (argv ! 2) = Inr max_packets else max_packets = -1"
    and "pcap_open le (captures (argv ! 1)) closed_reader = (True, reader)"
  defines "ps \<equiv> read_packets le reader"
  defines "shown \<equiv> if 0 < max_packets then take (nat max_packets) ps else ps"
  shows "\<exists>con s. viewer_main le captures local_time argv = Inr (0, con) \<and>
    cout con = s @ put_line ''Summary:'' @
      put_line (''  Total packets read:  '' @ to_string (length shown)) @
      put_line (''  Parse errors:        '' @ to_string (length (filter (\<lambda>raw. \<not> parses le raw) shown))) @
      put_line ''====================================''"
proof -
  have m: "(if 3 \<le> length argv then stoi (argv ! 2) else Inr (-1)) = Inr max_packets" using assms(2) by (simp split: if_splits)
  have loop: "\<exists>con'. viewer_loop le local_time max_packets reader 0 0 con =
      Inr (length shown, length (filter (\<lambda>raw. \<not> parses le raw) shown), con')" for con
    using viewer_loop_counts [of max_packets 0 le local_time reader 0 con]
    by (cases "0 < max_packets") (simp_all add: shown_def ps_def)
  show ?thesis
    unfolding viewer_main_def Let_def m rbind.simps assms(3) prod.case
    using assms(1) loop [of "say (put_line [] @ put_line ''--- Reading packets ---'')
      (open_messages le (argv ! 1) (captures (argv ! 1)) reader (say (put_line ''===================================='' @
        put_line ''     Packet Analyzer v1.0'' @ put_line ''===================================='' @ put_line []) silent))"]
    by (auto simp: say_def [of _ "_ :: Console"])
qed

section \<open>The names the test program finds\<close>

text \<open>On IPv4 the name is sought in the payload the parser found.\<close>

lemma simple_sni_payload:
  assumes "parse le raw = Inr (True, pk)" and "pp_ip_version pk = 4"
  shows "simple_sni pk (rp_data raw) =
    (if pp_has_tcp pk \<and> pp_dest_port pk = 443 \<and> pp_payload_data pk \<noteq> []
     then SNIExtractor_extract (pp_payload_data pk) (length (pp_payload_data pk)) else Inr None)"
proof -
  let ?p = "rp_data raw" and ?t = "14 + unat (rp_data raw ! 14 AND 0x0F) * 4"
  have len: "pp_payload_length pk = length (pp_payload_data pk)" using parse_wp [of le raw] assms(1) by (simp add: wp_iff)
  show ?thesis
  proof (cases "pp_has_tcp pk \<and> pp_dest_port pk = 443 \<and> pp_payload_data pk \<noteq> []")
    case True
    obtain off where p: "14 < length ?p" "layout ?p ?t pk off" "pp_payload_data pk = drop off ?p"
      using parse_layout [OF assms refl] by blast
    then have "?t + 20 \<le> length ?p" "off = ?t + unat (drop_bit 4 (?p ! (?t + 12)) AND 0x0F) * 4" "off \<le> length ?p"
      using True by (simp_all add: layout_def)
    moreover have "off < length ?p" using True p(3) by simp
    ultimately show ?thesis using True p len by (simp add: simple_sni_def Let_def)
  qed (auto simp: simple_sni_def len)
qed

definition names_server :: "bool \<Rightarrow> RawPacket \<Rightarrow> bool" where
  "names_server le raw =
     (case parse le raw of
        Inr (True, pk) \<Rightarrow> pp_has_tcp pk \<and> pp_dest_port pk = 443 \<and>
          (case SNIExtractor_extract (pp_payload_data pk) (length (pp_payload_data pk)) of Inr (Some _) \<Rightarrow> True | _ \<Rightarrow> False)
      | _ \<Rightarrow> False)"

lemma names_server_iff:
  assumes "parse le raw = Inr (True, pk)" and "pp_ip_version pk = 4"
  shows "\<exists>sni. simple_sni pk (rp_data raw) = Inr sni \<and> (sni \<noteq> None \<longleftrightarrow> names_server le raw)"
proof -
  obtain sni where x: "SNIExtractor_extract (pp_payload_data pk) (length (pp_payload_data pk)) = Inr sni"
    using SNIExtractor_extract_wp [of "pp_payload_data pk"] by (auto simp: wp_iff)
  have "pp_payload_data pk = [] \<Longrightarrow> sni = None"
    using x by (auto simp: SNIExtractor_extract_def isTLSClientHello_def)
  then show ?thesis
    using x unfolding simple_sni_payload [OF assms] by (auto simp: names_server_def assms(1) split: option.splits)
qed

text \<open>
  On IPv4 traffic the test program runs through, counts every packet, and counts as names found exactly the
  packets to port 443 whose TCP payload is a ClientHello with a server name.
\<close>

lemma simple_loop_counts:
  assumes "\<forall>raw \<in> set (read_packets le reader). \<forall>pk. parse le raw = Inr (True, pk) \<and> pp_has_ip pk \<longrightarrow> pp_ip_version pk = 4"
  shows "\<exists>con'. simple_loop le reader n t con = Inr (n + length (read_packets le reader),
    t + length (filter (names_server le) (read_packets le reader)), con')"
  using assms
proof (induction le reader n t con rule: simple_loop.induct)
  case (1 le rd n t con)
  note loop = simple_loop.simps [of le rd n t con] and read = read_packets.simps [of le rd]
  show ?case
  proof (cases "readNextPacket le rd")
    case (Pair q rd')
    show ?thesis
    proof (cases q)
      case None
      then show ?thesis using Pair by (simp add: loop read)
    next
      case (Some raw)
      have ps: "read_packets le rd = raw # read_packets le rd'" using Pair Some by (simp add: read)
      obtain ok pk where p: "parse le raw = Inr (ok, pk)" using parse_wp [of le raw] by (auto simp: wp_iff)
      show ?thesis
      proof (cases "ok \<and> pp_has_ip pk")
        case False
        have "\<not> names_server le raw" using False p parse_wf [OF p]
          by (cases ok) (auto simp: names_server_def wf_parsed_def no_transport_def)
        then show ?thesis
          using 1(1) [OF Pair [symmetric] Some refl p refl] False 1(3) ps Pair Some p by (simp add: loop)
      next
        case True
        then have v: "parse le raw = Inr (True, pk)" "pp_ip_version pk = 4" using p 1(3) ps by auto
        obtain sni where s: "simple_sni pk (rp_data raw) = Inr sni" "sni \<noteq> None \<longleftrightarrow> names_server le raw"
          using names_server_iff [OF v] by blast
        then show ?thesis
          using 1(2) [OF Pair [symmetric] Some refl p refl _ s(1)] True 1(3) ps Pair Some p by (cases sni) (simp_all add: loop)
      qed
    qed
  qed
qed

text \<open>
  Elsewhere it reads beyond the packet: it takes the low half of byte 14 for the header length, which in an
  IPv6 packet is half of the traffic class.
\<close>

lemma simple_sni_over_read:
  assumes "pp_has_tcp pk" and "pp_dest_port pk = 443" and "0 < pp_payload_length pk" and "14 < length data"
    and "length data \<le> 26 + unat (data ! 14 AND 0x0F) * 4"
  shows "simple_sni pk data = Inl OutOfBounds"
  using assms by (simp add: simple_sni_def Let_def)

theorem simple_main_over_reads:
  "\<exists>pk. parse True sample_frame6 = Inr (True, pk) \<and> simple_sni pk (rp_data sample_frame6) = Inl OutOfBounds"
proof -
  have "unat ((0x6F :: u8) AND 0x0F) * 4 = 60" by code_simp
  then show ?thesis using sample_frame6_parsed simple_sni_over_read sample_frame6_bytes by force
qed

end
