(* ===== verification/Legacy_Reports.thy ===== *)
theory Legacy_Reports
  imports Legacy_Refinement Report
begin

text \<open>
  What \<open>legacy/main_working.cpp\<close> and \<open>legacy/dpi_mt.cpp\<close> print: banners, usage and the reports at the end. As
  in the theory \<open>Report\<close>, texts printed from a \<open>double\<close> are parameters, applications with equal counts come
  in the order of the enumeration, and the order of the other hash tables is a parameter.
\<close>

section \<open>Usage and banners\<close>

definition working_usage :: "string \<Rightarrow> string" where
  "working_usage prog =
     put_line [] @
     put_line ''DPI Engine - Deep Packet Inspection System'' @
     put_line ''=========================================='' @
     put_line [] @
     put_line (''Usage: '' @ prog @ '' <input.pcap> <output.pcap> [options]'') @
     put_line [] @
     put_line ''Options:'' @
     put_line ''  --block-ip <ip>        Block traffic from source IP'' @
     put_line ''  --block-app <app>      Block application (YouTube, Facebook, etc.)'' @
     put_line ''  --block-domain <dom>   Block domain (substring match)'' @
     put_line [] @
     put_line ''Example:'' @
     put_line (''  '' @ prog @ '' capture.pcap filtered.pcap --block-app YouTube --block-ip 192.168.1.50'')"

definition mt_usage :: "string \<Rightarrow> string" where
  "mt_usage prog =
     put_line [] @
     put_line ''DPI Engine v2.0 - Multi-threaded Deep Packet Inspection'' @
     put_line ''========================================================'' @
     put_line [] @
     put_line (''Usage: '' @ prog @ '' <input.pcap> <output.pcap> [options]'') @
     put_line [] @
     put_line ''Options:'' @
     put_line ''  --block-ip <ip>        Block source IP'' @
     put_line ''  --block-app <app>      Block application (YouTube, Facebook, etc.)'' @
     put_line ''  --block-domain <dom>   Block domain (substring match)'' @
     put_line ''  --lbs <n>              Number of load balancer threads (default: 2)'' @
     put_line ''  --fps <n>              FP threads per LB (default: 2)'' @
     put_line [] @
     put_line ''Example:'' @
     put_line (''  '' @ prog @ '' capture.pcap filtered.pcap --block-app YouTube --block-ip 192.168.1.50'')"

definition working_banner :: string where
  "working_banner = [newline] @ top_line @ box_line (''                    DPI ENGINE v1.0                            '' @ bar) @
     end_line @ [newline]"

text \<open>A number as \<open>std::setw(2)\<close> prints it.\<close>

definition number2 :: "int \<Rightarrow> string" where
  "number2 i = setw 2 ((if i < 0 then ''-'' else []) @ to_string (nat \<bar>i\<bar>))"

definition mt_banner :: "int \<Rightarrow> int \<Rightarrow> string" where
  "mt_banner num_lbs fps_each =
     [newline] @ top_line @ box_line (''              DPI ENGINE v2.0 (Multi-threaded)                 '' @ bar) @
     mid_line @
     box_line ('' Load Balancers: '' @ number2 num_lbs @ ''    FPs per LB: '' @ number2 fps_each @
       ''    Total FPs: '' @ number2 (num_lbs * fps_each) @ ''     '' @ bar) @
     end_line @ [newline]"

section \<open>The application breakdown\<close>

text \<open>The entries of the hash table of counts, sorted by descending count.\<close>

definition app_rows :: "(AppType \<Rightarrow> nat) \<Rightarrow> (AppType \<times> nat) list" where
  "app_rows counts =
     sort_key (\<lambda>(_, n). - int n) (filter (\<lambda>(_, n). n \<noteq> 0) (map (\<lambda>a. (a, counts a)) (all_apps @ [APP_COUNT])))"

text \<open>
  One mark per five percent. The program truncates a quotient of \<open>double\<close>s, which is this quotient as long
  as the numbers stay below \<open>2 ^ 45\<close>.
\<close>

definition bar_length :: "nat \<Rightarrow> nat \<Rightarrow> nat" where
  "bar_length n packets = 20 * n div packets"

definition app_row :: "(nat \<Rightarrow> nat \<Rightarrow> string) \<Rightarrow> nat \<Rightarrow> AppType \<times> nat \<Rightarrow> string" where
  "app_row percent packets row =
     (case row of (app, n) \<Rightarrow>
        box_line '' '' @ setw_left 15 (appTypeToString app) @ setw 8 (to_string n) @ '' '' @ setw 5 (percent n packets) @
        ''% '' @ setw_left 20 (replicate (bar_length n packets) (CHR ''#'')) @ ''  '' @ bar)"

definition name_row :: "string \<times> AppType \<Rightarrow> string" where
  "name_row row = (case row of (sni, app) \<Rightarrow> put_line (''  - '' @ sni @ '' -> '' @ appTypeToString app))"

section \<open>The report of the single-threaded program\<close>

text \<open>\<open>unique_snis\<close>, filled from the flows in the order of their table.\<close>

fun unique_snis :: "LFlow list \<Rightarrow> (string \<rightharpoonup> AppType) \<Rightarrow> string \<rightharpoonup> AppType" where
  "unique_snis [] snis = snis"
| "unique_snis (flow # flows) snis =
     unique_snis flows (if lf_sni flow \<noteq> [] then snis(lf_sni flow \<mapsto> lf_app_type flow) else snis)"

definition count_line :: "nat \<Rightarrow> nat \<Rightarrow> string \<Rightarrow> nat \<Rightarrow> string" where
  "count_line width space label n = box_line label @ setw width (to_string n) @ spaces space @ bar"

text \<open>\<open>flows\<close> are the flows and \<open>names\<close> the names in the orders of their hash tables.\<close>

definition working_report ::
  "(nat \<Rightarrow> nat \<Rightarrow> string) \<Rightarrow> LFlow list \<Rightarrow> string list \<Rightarrow> string \<Rightarrow> LegacyState \<Rightarrow> string" where
  "working_report percent flows names output_file st =
     [newline] @ top_line @
     box_line (''                      PROCESSING REPORT                       '' @ bar) @
     mid_line @
     count_line 10 29 '' Total Packets:      '' (ls_total_packets st) @
     count_line 10 29 '' Forwarded:          '' (ls_forwarded st) @
     count_line 10 29 '' Dropped:            '' (ls_dropped st) @
     count_line 10 29 '' Active Flows:       '' (length flows) @
     mid_line @
     box_line (''                    APPLICATION BREAKDOWN                     '' @ bar) @
     mid_line @
     concat (map (app_row percent (ls_total_packets st)) (app_rows (ls_app_stats st))) @
     end_line @
     put_line [] @ put_line ''[Detected Applications/Domains]'' @
     concat (map (\<lambda>sni. case unique_snis flows Map.empty sni of None \<Rightarrow> [] | Some app \<Rightarrow> name_row (sni, app)) names) @
     put_line [] @ put_line (''Output written to: '' @ output_file)"

section \<open>The report of the multi-threaded program\<close>

definition mt_report :: "(nat \<Rightarrow> nat \<Rightarrow> string) \<Rightarrow> string list \<Rightarrow> MtEngine \<Rightarrow> string" where
  "mt_report percent names en =
     (let st = me_stats en in
      [newline] @ top_line @
      box_line (''                      PROCESSING REPORT                        '' @ bar) @
      mid_line @
      count_line 12 27 '' Total Packets:      '' (mt_total_packets st) @
      count_line 12 27 '' Total Bytes:        '' (mt_total_bytes st) @
      count_line 12 27 '' TCP Packets:        '' (mt_tcp_packets st) @
      count_line 12 27 '' UDP Packets:        '' (mt_udp_packets st) @
      mid_line @
      count_line 12 27 '' Forwarded:          '' (mt_forwarded st) @
      count_line 12 27 '' Dropped:            '' (mt_dropped st) @
      mid_line @
      box_line ('' THREAD STATISTICS                                             '' @ bar) @
      concat (map (\<lambda>(i, lb). count_line 12 27 (''   LB'' @ to_string i @ '' dispatched:   '') (ml_dispatched lb))
        (enumerate 0 (me_lbs en))) @
      concat (map (\<lambda>(i, fp). count_line 12 27 (''   FP'' @ to_string i @ '' processed:    '') (mf_processed fp))
        (enumerate 0 (me_fps en))) @
      mid_line @
      box_line (''                   APPLICATION BREAKDOWN                       '' @ bar) @
      mid_line @
      concat (map (app_row percent (mt_total_packets st)) (app_rows (mt_app_counts st))) @
      end_line @
      (if mt_detected_snis st = Map.empty then []
       else put_line [] @ put_line ''[Detected Domains/SNIs]'' @
         concat (map (\<lambda>sni. case mt_detected_snis st sni of None \<Rightarrow> [] | Some app \<Rightarrow> name_row (sni, app)) names)))"

section \<open>What the reports show\<close>

lemma sum_list_rows: "sum_list (map snd (app_rows counts)) = sum_list (map counts (all_apps @ [APP_COUNT]))"
proof -
  have "sum_list (map snd (filter (\<lambda>(_, n). n \<noteq> 0) (map (\<lambda>a. (a, counts a)) xs))) = sum_list (map counts xs)" for xs
    by (induction xs) auto
  moreover have "mset (map snd (app_rows counts)) =
      mset (map snd (filter (\<lambda>(_, n). n \<noteq> 0) (map (\<lambda>a. (a, counts a)) (all_apps @ [APP_COUNT]))))"
    by (simp add: app_rows_def del: map_append)
  ultimately show ?thesis by (metis sum_mset_sum_list)
qed

lemma sum_list_one_more:
  assumes "distinct xs" and "\<And>x. x \<noteq> a \<Longrightarrow> g x = f x" and "g a = f a + (1 :: nat)"
  shows "sum_list (map g xs) = sum_list (map f xs) + (if a \<in> set xs then 1 else 0)"
  using assms(1)
proof (induction xs)
  case (Cons x xs)
  then show ?case using assms(2) [of x] assms(3) by (cases "x = a") auto
qed simp

lemma every_app: "distinct (all_apps @ [APP_COUNT])" "a \<in> set (all_apps @ [APP_COUNT])"
  using set_all_apps by (auto simp: all_apps_def)

text \<open>The counts of the applications add up to the packets decided.\<close>

definition app_total :: "(AppType \<Rightarrow> nat) \<Rightarrow> nat" where
  "app_total counts = sum_list (map counts (all_apps @ [APP_COUNT]))"

lemma app_total_count_up [simp]: "app_total (counts(a := Suc (counts a))) = Suc (app_total counts)"
  using sum_list_one_more [OF every_app(1), of a "counts(a := Suc (counts a))" counts] every_app(2)
  by (simp add: app_total_def del: map_append)

lemma app_total_zero [simp]: "app_total (\<lambda>_. 0) = 0"
  by (simp add: app_total_def)

definition decided_counted :: "LegacyState \<Rightarrow> bool" where
  "decided_counted st \<longleftrightarrow>
     app_total (ls_app_stats st) = ls_forwarded st + ls_dropped st \<and> ls_forwarded st + ls_dropped st \<le> ls_total_packets st"

definition named :: "LFlow \<Rightarrow> bool" where
  "named flow \<longleftrightarrow> lf_sni flow = [] \<or> sniToAppType (lf_sni flow) \<in> {UNKNOWN, lf_app_type flow}"

lemma named_with_name [simp]: "lf_sni flow = [] \<Longrightarrow> named (with_name name flow)"
  by (simp add: named_def with_name_def split: option.split)

lemma named_try:
  assumes "named flow"
  shows "try_sni parsed data flow = Inr flow' \<Longrightarrow> named flow'" "try_host parsed data flow = Inr flow' \<Longrightarrow> named flow'"
  using assms by (auto simp: try_sni_def try_host_def rbind_Inr_iff split: if_splits option.splits)

lemma named_by_port: "named flow \<Longrightarrow> named (by_port parsed flow)"
  by (auto simp: named_def by_port_def Let_def)

lemma named_flow_after:
  assumes "flow_after rules tuple parsed data flow = Inr flow'" and "named flow"
  shows "named flow'"
proof -
  define f where "f = (let flow = (if lf_packets flow = 0 then flow\<lparr>lf_tuple := tuple\<rparr> else flow)
    in flow\<lparr>lf_packets := lf_packets flow + 1, lf_bytes := lf_bytes flow + of_nat (length data)\<rparr>)"
  have "named f" using assms(2) by (simp add: f_def named_def Let_def)
  moreover obtain f1 f2 where "try_sni parsed data f = Inr f1" "try_host parsed data f1 = Inr f2"
    "lf_sni flow' = lf_sni (by_port parsed f2)" "lf_app_type flow' = lf_app_type (by_port parsed f2)"
    using assms(1) by (auto simp: flow_after_def f_def Let_def rbind_Inr_iff split: if_splits)
  ultimately show ?thesis using named_try [of f] named_try [of f1] named_by_port [of f2 parsed] by (simp add: named_def)
qed

lemma legacy_packet_reported:
  assumes "legacy_packet le rules raw st = Inr st'" and "decided_counted st" and "\<forall>flow \<in> ran (ls_flows st). named flow"
  shows "decided_counted st' \<and> (\<forall>flow \<in> ran (ls_flows st'). named flow)"
proof -
  have new: "named (case ls_flows st t of None \<Rightarrow> new_flow t | Some flow \<Rightarrow> flow)" for t
    using assms(3) by (auto simp: new_flow_def named_def ran_def split: option.split)
  obtain ok pk where p: "parse le raw = Inr (ok, pk)" using parse_wp [of le raw] by (auto simp: wp_iff)
  show ?thesis
  proof (cases "ok \<and> pp_has_ip pk \<and> (pp_has_tcp pk \<or> pp_has_udp pk)")
    case False
    then have "st' = st\<lparr>ls_total_packets := ls_total_packets st + 1\<rparr>"
      using assms(1) p by (auto simp: legacy_packet_def Let_def)
    then show ?thesis using assms(2,3) by (simp add: decided_counted_def)
  next
    case True
    then obtain t flow where f: "flow_after rules t pk (rp_data raw)
        (case ls_flows st t of None \<Rightarrow> new_flow t | Some flow \<Rightarrow> flow) = Inr flow"
      and st': "ls_flows st' = (ls_flows st)(t \<mapsto> flow)"
        "ls_app_stats st' = (ls_app_stats st)(lf_app_type flow := ls_app_stats st (lf_app_type flow) + 1)"
        "ls_total_packets st' = ls_total_packets st + 1"
        "ls_forwarded st' + ls_dropped st' = ls_forwarded st + ls_dropped st + 1"
      using assms(1) p by (auto simp: legacy_packet_def Let_def rbind_Inr_iff split: if_splits)
    have "named flow" using named_flow_after [OF f new] .
    then show ?thesis using assms(2,3) st' by (auto simp: decided_counted_def ran_def split: if_splits)
  qed
qed

lemma legacy_loop_reported:
  assumes "legacy_loop le rules raws st = Inr st'" and "decided_counted st" and "\<forall>flow \<in> ran (ls_flows st). named flow"
  shows "decided_counted st' \<and> (\<forall>flow \<in> ran (ls_flows st'). named flow)"
  using assms
proof (induction raws arbitrary: st)
  case (Cons raw raws)
  then obtain st1 where "legacy_packet le rules raw st = Inr st1" "legacy_loop le rules raws st1 = Inr st'"
    by (auto simp: rbind_Inr_iff)
  then show ?case using Cons.IH legacy_packet_reported Cons.prems(2,3) by blast
qed simp

lemma unique_snis_app:
  assumes "\<forall>flow \<in> set flows. named flow" and "sniToAppType sni \<noteq> UNKNOWN"
  shows "unique_snis flows snis sni = (if sni \<noteq> [] \<and> sni \<in> lf_sni ` set flows then Some (sniToAppType sni) else snis sni)"
  using assms(1)
proof (induction flows arbitrary: snis)
  case (Cons flow flows)
  moreover have "lf_sni flow = sni \<Longrightarrow> sni \<noteq> [] \<Longrightarrow> lf_app_type flow = sniToAppType sni"
    using Cons.prems assms(2) by (auto simp: named_def)
  ultimately show ?case by auto
qed simp

text \<open>
  The breakdown of the single-threaded program accounts for every packet it decided, no bar is longer than its
  column, and the application shown with a name does not depend on the order of the flow table, unless the
  name is one the classification knows nothing of, like a lone dot.
\<close>

theorem working_report_breakdown:
  assumes "legacy_loop le rules raws (legacy_start header) = Inr st" and "set flows = ran (ls_flows st)"
  shows "sum_list (map snd (app_rows (ls_app_stats st))) = ls_forwarded st + ls_dropped st"
    and "\<forall>(app, n) \<in> set (app_rows (ls_app_stats st)). bar_length n (ls_total_packets st) \<le> 20"
    and "sniToAppType sni \<noteq> UNKNOWN \<Longrightarrow> unique_snis flows Map.empty sni =
      (if sni \<noteq> [] \<and> sni \<in> lf_sni ` ran (ls_flows st) then Some (sniToAppType sni) else None)"
proof -
  have "decided_counted st \<and> (\<forall>flow \<in> ran (ls_flows st). named flow)"
    by (rule legacy_loop_reported [OF assms(1)]) (simp_all add: legacy_start_def decided_counted_def)
  then have d: "app_total (ls_app_stats st) = ls_forwarded st + ls_dropped st"
      "ls_forwarded st + ls_dropped st \<le> ls_total_packets st" and n: "\<forall>flow \<in> set flows. named flow"
    by (simp_all add: decided_counted_def assms(2))
  show rows: "sum_list (map snd (app_rows (ls_app_stats st))) = ls_forwarded st + ls_dropped st"
    using d(1) by (simp add: sum_list_rows app_total_def)
  show "\<forall>(app, n) \<in> set (app_rows (ls_app_stats st)). bar_length n (ls_total_packets st) \<le> 20"
  proof clarify
    fix app n assume "(app, n) \<in> set (app_rows (ls_app_stats st))"
    then have "n \<le> sum_list (map snd (app_rows (ls_app_stats st)))"
      using member_le_sum_list [of n "map snd (app_rows (ls_app_stats st))"] by force
    then have "20 * n div ls_total_packets st \<le> 20 * ls_total_packets st div ls_total_packets st"
      using rows d(2) by (intro div_le_mono) simp
    also have "\<dots> \<le> 20" by (cases "ls_total_packets st = 0") simp_all
    finally show "bar_length n (ls_total_packets st) \<le> 20" by (simp add: bar_length_def)
  qed
  show "sniToAppType sni \<noteq> UNKNOWN \<Longrightarrow> unique_snis flows Map.empty sni =
      (if sni \<noteq> [] \<and> sni \<in> lf_sni ` ran (ls_flows st) then Some (sniToAppType sni) else None)"
    using unique_snis_app [OF n] by (simp add: assms(2))
qed

text \<open>In the multi-threaded program too, at every moment, whatever the interleaving.\<close>

definition mt_counted :: "MtStats \<Rightarrow> bool" where
  "mt_counted st \<longleftrightarrow> app_total (mt_app_counts st) = mt_forwarded st + mt_dropped st"

lemma mt_counted_packet [simp]: "mt_counted (count_packet parsed data st) = mt_counted st"
  by (simp add: mt_counted_def count_packet_def Let_def)

lemma mf_decide_counted:
  assumes "mf_decide rules pkt fp st = Inr (fp', st')" and "mt_counted st"
  shows "mt_counted st'"
  using assms by (auto simp: mf_decide_def rbind_Inr_iff mt_counted_def recordApp_def Let_def split: if_splits)

lemma mt_thread_counted:
  assumes "mt_thread_step le sh t en = Inr (Some en')" and "mt_counted (me_stats en)"
  shows "mt_counted (me_stats en')"
proof (cases t)
  case MT_Main
  then show ?thesis
    using assms by (auto simp: mt_thread_step_def mm_step_def rbind_Inr_iff
        split: mm_pc.splits list.splits if_splits)
next
  case (MT_LB i)
  then show ?thesis
    using assms by (auto simp: mt_thread_step_def ml_step_def Let_def split: ml_pc.splits option.splits prod.splits if_splits)
next
  case (MT_FP i)
  then show ?thesis
    using assms by (auto simp: mt_thread_step_def mf_step_def Let_def rbind_Inr_iff intro: mf_decide_counted
        split: mf_pc.splits option.splits prod.splits if_splits)
next
  case MT_Output
  then show ?thesis
    using assms by (auto simp: mt_thread_step_def mo_step_def Let_def split: mo_pc.splits option.splits prod.splits)
qed

theorem mt_report_breakdown:
  assumes "mt_run le sh en en'" and "mt_counted (me_stats en)"
  shows "sum_list (map snd (app_rows (mt_app_counts (me_stats en')))) = mt_forwarded (me_stats en') + mt_dropped (me_stats en')"
proof -
  have "mt_counted (me_stats en')"
    using assms
    by (induction) (auto elim!: mt_step.cases intro: mt_thread_counted)
  then show ?thesis by (simp add: sum_list_rows mt_counted_def app_total_def)
qed

end
