(* ===== verification/Spec2Isabelle.thy ===== *)
theory Spec2Isabelle
  imports App_Types Command_Line Profiling Flow_Refinement Progress Legacy_Compare Legacy_Printers Legacy_Reports
begin

text \<open>
  The High-Performance DPI Engine: a C++17 program that reads a packet capture, inspects every packet,
  drops what its rules forbid and writes the rest to a second capture.

  \<^bold>\<open>The program.\<close> \<open>main_dpi.cpp\<close> reads options and rules and starts a \<open>DPIEngine\<close>. The engine's reader
  thread reads the capture and puts raw packets into one queue. Parser workers take them from there, parse
  them, make a \<open>PacketJob\<close> with a \<open>FlowKey\<close>, and put it into the queue of a load balancer, chosen by the hash
  of the flow. A load balancer puts the job into the queue of one of its fast paths, again by the hash. A
  fast path owns the connection table of its flows; it follows the TCP state, extracts the server name from
  the payload (TLS, HTTP, DNS, QUIC; TLS over several segments by a reassembler), asks the rule manager,
  and calls the engine back with the verdict. Forwarded packets go through an output queue to the thread
  that writes the output file. The main thread waits for the reader and then stops the pools in order.

  \<^bold>\<open>Theories, from the bottom up.\<close> A definition has the name of the function or type it models; a state
  is a record with the source's members, prefixed by an abbreviation of the class.
  \<^item> \<open>Dpi_Prelude\<close>: faults (\<open>cxx_fault\<close>: out-of-bounds reads, signed overflow, exceptions, division by zero),
    the error monad (\<open>res\<close>, \<open>rbind\<close>), checked reads, and lemmas on lists, words and bytes. \<open>Dpi_Text\<close>:
    character classes, decimal texts, \<open>std::stoi\<close>.
  \<^item> \<open>Net_Utils\<close> (\<open>platform.h\<close>, \<open>net_utils.h\<close>, \<open>ipv6_utils.h\<close>), \<open>Flow\<close> (\<open>types.h\<close>: keys, canonical form,
    hashes), \<open>App_Types\<close> (applications and their names), \<open>Pcap\<close> (\<open>pcap_reader.cpp\<close>, the writer's format).
  \<^item> \<open>Packet_Parser\<close> (\<open>packet_parser.cpp\<close>), \<open>Sni\<close> (\<open>sni_extractor.cpp\<close>), \<open>Reassembler\<close>
    (\<open>tcp_reassembler.cpp\<close>), \<open>Rules\<close> (\<open>rule_manager.cpp\<close>), \<open>Tracker\<close> (\<open>connection_tracker.cpp\<close>),
    \<open>Queue\<close> (\<open>thread_safe_queue.h\<close>).
  \<^item> \<open>Fast_Path\<close>, \<open>Load_Balancer\<close>, \<open>Parser_Pool\<close>: the three kinds of workers (\<open>fast_path.cpp\<close>,
    \<open>load_balancer.cpp\<close>, \<open>parser_pool.cpp\<close>) and their managers.
  \<^item> \<open>Engine\<close> (\<open>dpi_engine.cpp\<close>): the state of all threads and the step relation \<open>e_step\<close>, one rule per
    thread; \<open>Report\<close>, \<open>Json_Report\<close>: its reports; \<open>Profiling\<close> (\<open>profiler.cpp\<close>); \<open>Command_Line\<close>
    (\<open>main_dpi.cpp\<close>).
  \<^item> \<open>Pipeline\<close>, \<open>Flow_Order\<close>, \<open>Output_File\<close>, \<open>Progress\<close>, \<open>Shutdown\<close>: theorems about the engine as a whole,
    under every interleaving of its threads.
  \<^item> \<open>Flow_Spec\<close>: what happens to a single flow, without tables, queues and threads (\<open>flow_step\<close>,
    \<open>flow_run\<close>), and the fast path as a refinement of it; \<open>Flow_Refinement\<close>: the same for the engine.
  \<^item> \<open>Legacy_Single\<close> (\<open>legacy/main_working.cpp\<close>): the single-threaded program from which the engine was
    developed, as a reference to compare the engine with. \<open>Legacy_Threads\<close> (\<open>legacy/dpi_mt.cpp\<close>): the
    multi-threaded version in between, again a state of all threads and a step relation \<open>mt_step\<close>;
    \<open>Legacy_Refinement\<close> holds its invariant \<open>mt_inv\<close>, \<open>Legacy_Compare\<close> what follows from it, and
    \<open>Legacy_Reports\<close> what the two programs print. \<open>Legacy_Printers\<close>: the programs that only print packets
    (\<open>legacy/main_viewer.cpp\<close>, \<open>legacy/main_simple.cpp\<close>).
  \<^item> This theory: from the bytes on the wire to the verdict, and the comparison of the two programs.

  \<^bold>\<open>Interfaces.\<close> Where one part relies on another there is a locale, interpreted on the model: \<open>rule_set\<close>
    (blocked addresses, applications, ports), \<open>flow_identity\<close> and \<open>flow_table\<close> (one entry per flow, whatever
    the direction), \<open>fifo_channel\<close> (the queue as its users see it), \<open>extractor\<close> (total, reports only bytes of
    the payload).

  \<^bold>\<open>How code became definitions.\<close>
  \<^item> Integers that wrap in the code are words; \<open>size_t\<close> differences that can go below zero are written with
    their wrap-around; C++ \<open>int\<close> is \<open>int\<close> with overflow as a fault where the code computes with it.
    Counters that only count (\<open>DPIStats\<close>, per-thread statistics) are \<open>nat\<close>.
  \<^item> Every read of a buffer is checked and yields a fault outside of it, so that memory safety is the
    theorem that no fault occurs. The byte order of the machine is the parameter \<open>le\<close>.
  \<^item> A hash map is the list of its entries in the order of iteration. \<open>std::hash\<close> is the parameter \<open>sh\<close>.
  \<^item> A mutex makes an operation one step. A thread is an automaton: a push that finds its queue full does
    not step, and between a pop and the push that follows the thread holds its packet. A round of a fast
    path up to its call of the output callback is one step: everything it touches belongs to it, except the
    rules, which the rule \<open>rules\<close> of \<open>e_step\<close> may replace between any two steps.
  \<^item> The clock is a parameter of each step and need not advance. Files are the lists of their bytes; a
    write to an open file succeeds.

  \<^bold>\<open>What the lemmas show.\<close>
  \<^item> The bytes: parsing and writing are inverse to what a sender puts on the wire (\<open>Pcap\<close>, \<open>Packet_Parser\<close>,
    \<open>Sni\<close>), and no parser or extractor reads outside its input, whatever the input.
  \<^item> The reassembler, over sequences of its calls (\<open>ra_run\<close>): on the segments of a stream, in any order after
    the first, its buffer is the longest prefix of the stream it has got, it finds the server name when the
    prefix holds it, and it gives up only beyond its limit; its memory is bounded whatever it gets.
  \<^item> The rules: matching agrees with a declarative specification; saved rules come back.
  \<^item> The connection table keeps one entry per flow and its bound; clean-up removes what it should.
  \<^item> The fast path: which packets fault, what a blocked address, a blocked flow, a TLS, HTTP or DNS name
    leads to, and that a stopped fast path drains its queue.
  \<^item> The engine: \<open>pipeline_inv\<close> says where every packet is and how far the shutdown has come; it is kept by
    every step, so each packet is decided exactly once, by the fast path of its flow, in file order if
    there is one parser; what is in the output file was forwarded, and can be read back unless the input is
    byte-swapped; and when the queues are large enough
    the engine can always finish.
  \<^item> A flow is treated as if it were alone: the engine with one parser refines \<open>flow_run\<close>, a function of the
    packets of the flow, the rules and the clock. An RST frees a blocked flow until the next clean-up.
  \<^item> The single-threaded program cuts off every flow at one point, and the engine decides as it does. Its
    multi-threaded version writes the same packets of every flow, as far as its threads get: it does not
    drain its queues, and what is still in them when the threads stop is lost.
  \<^item> The reports: the JSON document is read back by a JSON reader; the sums in it are right, and so are those
    in the breakdowns the legacy programs print and in the summary of the viewer.
  \<^item> Flaws found on the way are theorems too, each with an input or a schedule that shows it.

  \<^bold>\<open>Bounds and fuel.\<close> Loops recurse on a distance that shrinks. \<open>walk_loop\<close> has the bound of the code, ten
  extension headers. \<open>ipv6_emit\<close> has fuel 9, one more than there are groups, and \<open>ipv6ToString_Some\<close> shows
  that it always returns. The JSON reader, which is a specification, has the length of the text as fuel,
  which is shown to be enough. The loop of a fast path runs until the thread is stopped;
  \<open>fp_run\<close> is a partial function that is shown to return after the stop. The engine as a whole is a step
  relation; \<open>Progress\<close> gives a measure, \<open>work\<close>, by which it can always reach its end.

  \<^bold>\<open>Not modelled.\<close> Progress messages on the console other than usage, banners and reports; where the threads
  use the timers of the profiler, which has no effect on packets; numbers printed from a \<open>double\<close> and local
  time, which are parameters; failing writes; the product of the thread counts leaving \<open>int\<close>, except in the
  legacy program; the tests, the benchmark and the web front end, which are around the program.
\<close>

section \<open>From the wire to the decision\<close>

text \<open>The frame a client sends on a TCP connection, with its flow.\<close>

record tcp_frame =
  tf_dst_mac :: bytes
  tf_src_mac :: bytes
  tf_ip :: ipv4_packet
  tf_segment :: tcp_segment

definition frame_bytes :: "tcp_frame \<Rightarrow> bytes" where
  "frame_bytes f = ethernet_bytes (tf_dst_mac f) (tf_src_mac f) 0x0800 @ ipv4_header_bytes 6 (tf_ip f) @
     tcp_header_bytes (tf_segment f) @ sg_payload (tf_segment f)"

definition wf_frame :: "tcp_frame \<Rightarrow> bool" where
  "wf_frame f \<longleftrightarrow> length (tf_dst_mac f) = 6 \<and> length (tf_src_mac f) = 6 \<and> wf_ipv4_packet (tf_ip f) \<and>
     wf_segment (tf_segment f)"

definition frame_tuple :: "bool \<Rightarrow> tcp_frame \<Rightarrow> FiveTuple" where
  "frame_tuple le f = \<lparr>ft_src_ip = load32_at le (quad (ip4_src (tf_ip f))) 0,
     ft_dst_ip = load32_at le (quad (ip4_dst (tf_ip f))) 0, ft_src_port = sg_src_port (tf_segment f),
     ft_dst_port = sg_dst_port (tf_segment f), ft_protocol = 6\<rparr>"

lemma frame_parsed:
  assumes "wf_frame f" and "rp_data raw = frame_bytes f"
  obtains pk where "parse le raw = Inr (True, pk)" "pp_ip_version pk = 4" "pp_has_tcp pk" "tuple_of pk = frame_tuple le f"
    "pp_tcp_flags pk = sg_flags (tf_segment f)" "pp_payload_data pk = sg_payload (tf_segment f)"
proof -
  have "rp_data raw = ethernet_bytes (tf_dst_mac f) (tf_src_mac f) 0x0800 @ ipv4_header_bytes 6 (tf_ip f) @
      tcp_header_bytes (tf_segment f) @ sg_payload (tf_segment f)"
    by (simp add: assms(2) frame_bytes_def)
  from tcp4_frame_parsed [OF _ _ _ _ this, of le] assms(1) obtain pk where
    pk: "parse le raw = Inr (True, pk)" "pp_ip_version pk = 4"
    and f: "pp_has_tcp pk" "pp_src_port pk = sg_src_port (tf_segment f)" "pp_dest_port pk = sg_dst_port (tf_segment f)"
      "pp_tcp_flags pk = sg_flags (tf_segment f)" "pp_src_ip_raw pk = load32_at le (quad (ip4_src (tf_ip f))) 0"
      "pp_dst_ip_raw pk = load32_at le (quad (ip4_dst (tf_ip f))) 0" "pp_payload_data pk = sg_payload (tf_segment f)"
    by (auto simp: wf_frame_def)
  have "pp_protocol pk = 6" using parse_wf [OF pk(1)] f(1) by (simp add: wf_parsed_def)
  then have "tuple_of pk = frame_tuple le f" using f by (simp add: tuple_of_def frame_tuple_def)
  then show thesis using that pk f by blast
qed

lemma frame_becomes_job:
  assumes "wf_frame f" and "rj_data rj = frame_bytes f" and "sg_payload (tf_segment f) \<noteq> []"
  obtains job where "job_of le rj = Inr (Some job)" "proper_job job" "pj_tuple job = frame_tuple le f"
    "pj_flow_key job = fromFiveTuple (frame_tuple le f)" "pj_tcp_flags job = sg_flags (tf_segment f)"
    "drop (pj_payload_offset job) (pj_data job) = sg_payload (tf_segment f)"
    "stamped_job job = stamped_raw (raw_packet rj)"
proof -
  have "rp_data (raw_packet rj) = frame_bytes f" by (simp add: raw_packet_def assms(2))
  then obtain pk where pk: "parse le (raw_packet rj) = Inr (True, pk)" "pp_ip_version pk = 4"
    and f: "pp_has_tcp pk" "tuple_of pk = frame_tuple le f" "pp_tcp_flags pk = sg_flags (tf_segment f)"
      "pp_payload_data pk = sg_payload (tf_segment f)"
    using frame_parsed [OF assms(1)] by metis
  from ipv4_job [OF pk, of "rj_packet_id rj"] obtain job where
    job: "createPacketJob (raw_packet rj) pk (rj_packet_id rj) = Inr job" "proper_job job"
      "carries (raw_packet rj) pk (rj_packet_id rj) job" "pj_flow_key job = fromFiveTuple (tuple_of pk)"
      "getPayload job = Some (sg_payload (tf_segment f))"
    using f assms(3) by auto
  show thesis
  proof (rule that [of job])
    show "job_of le rj = Inr (Some job)" using pk(1) job(1) by (simp add: job_of_def)
    show "drop (pj_payload_offset job) (pj_data job) = sg_payload (tf_segment f)"
      using job(5) by (auto simp: getPayload_def split: if_splits)
  qed (use job f in \<open>simp_all add: carries_def stamped_job_def stamped_raw_def\<close>)
qed

text \<open>The first segment with payload of a new connection, with a client's complete ClientHello.\<close>

definition opens_with_hello :: "bool \<Rightarrow> tcp_frame \<Rightarrow> client_hello \<Rightarrow> FastPath \<Rightarrow> RuleManager \<Rightarrow> bool" where
  "opens_with_hello le f ch fp rm \<longleftrightarrow>
     wf_frame f \<and> prefix (client_hello_bytes ch) (sg_payload (tf_segment f)) \<and> wf_client_hello ch \<and> ch_host ch \<noteq> [] \<and>
     length (sg_payload (tf_segment f)) \<le> 16384 \<and> sg_flags (tf_segment f) AND RST = 0 \<and>
     wf_tracker (fp_connection_tracker fp) \<and>
     getConnection (fp_connection_tracker fp) (fromFiveTuple (frame_tuple le f)) = None \<and>
     \<not> isIPBlocked rm (ft_src_ip (frame_tuple le f)) \<and> \<not> isIPBlocked rm (ft_dst_ip (frame_tuple le f))"

lemma hello_frame_judged:
  assumes "opens_with_hello le f ch fp rm" and "rj_data rj = frame_bytes f"
    and "sg_src_port (tf_segment f) \<noteq> 80" and "sg_dst_port (tf_segment f) \<noteq> 80"
  shows "\<exists>job. job_of le rj = Inr (Some job) \<and> stamped_job job = stamped_raw (raw_packet rj) \<and>
    (let host = map byte_char (ch_host ch);
         blocked = isAppBlocked rm (sniToAppType host) \<or> isDomainBlocked rm host
     in acted (processPacket now rm job fp) fp job (if blocked then DROP else FORWARD)
          (\<lambda>c. c_state c = (if blocked then BLOCKED else CLASSIFIED) \<and>
            c_app_type c = sniToAppType host \<and> bestDomain c = host))"
proof -
  have frame: "wf_frame f" and hello: "prefix (client_hello_bytes ch) (sg_payload (tf_segment f))" "wf_client_hello ch"
      "ch_host ch \<noteq> []" "length (sg_payload (tf_segment f)) \<le> 16384"
    and new: "wf_tracker (fp_connection_tracker fp)"
      "getConnection (fp_connection_tracker fp) (fromFiveTuple (frame_tuple le f)) = None"
    and ips: "\<not> isIPBlocked rm (ft_src_ip (frame_tuple le f))" "\<not> isIPBlocked rm (ft_dst_ip (frame_tuple le f))"
    using assms(1) by (simp_all add: opens_with_hello_def)
  obtain q where q: "sg_payload (tf_segment f) = client_hello_bytes ch @ q" using hello(1) by (auto elim: prefixE)
  then have "sg_payload (tf_segment f) \<noteq> []" by (simp add: client_hello_bytes_def record_start_def)
  then obtain job where job: "job_of le rj = Inr (Some job)" "proper_job job" "pj_tuple job = frame_tuple le f"
    "pj_flow_key job = fromFiveTuple (frame_tuple le f)" "pj_tcp_flags job = sg_flags (tf_segment f)"
    "drop (pj_payload_offset job) (pj_data job) = sg_payload (tf_segment f)"
    "stamped_job job = stamped_raw (raw_packet rj)"
    using frame_becomes_job [OF frame assms(2), of le thesis] by blast
  have key: "ipv4_key (pj_flow_key job) (ft_src_ip (frame_tuple le f)) (ft_dst_ip (frame_tuple le f))"
    "fk_protocol (pj_flow_key job) = 6" "fk_src_port (pj_flow_key job) \<noteq> 80" "fk_dst_port (pj_flow_key job) \<noteq> 80"
    using assms(3,4) by (simp_all add: job(4) ipv4_key_def fromFiveTuple_def frame_tuple_def)
  have "\<not> resets job" using assms(1) by (simp add: resets_def job(5) opens_with_hello_def)
  from hello_packet_decided [OF new(1) job(2) key(1) ips this key(2-4) _ _ _ hello(2,3), of q now]
  show ?thesis
    using job(1,6,7) q hello(4) new(2) by (auto simp: awaits_payload_def job(4))
qed

text \<open>
  C1. The product's promise for TLS, from the bytes on the wire to the verdict: when the first segment
  with payload of a new connection outside port 80 carries a client's complete ClientHello, the raw frame
  is parsed, turned into a job and processed to the verdict its server name calls for: the frame is
  dropped and the connection blocked if the application the name stands for or the name itself is
  blocked, and forwarded otherwise.
\<close>

theorem tls_frame_is_judged_by_its_server_name:
  assumes "opens_with_hello le f ch fp rm" and "rj_data rj = frame_bytes f"
    and "sg_src_port (tf_segment f) \<noteq> 80" and "sg_dst_port (tf_segment f) \<noteq> 80"
  shows "\<exists>job. job_of le rj = Inr (Some job) \<and>
    (let host = map byte_char (ch_host ch);
         blocked = isAppBlocked rm (sniToAppType host) \<or> isDomainBlocked rm host
     in acted (processPacket now rm job fp) fp job (if blocked then DROP else FORWARD)
          (\<lambda>c. c_state c = (if blocked then BLOCKED else CLASSIFIED) \<and>
            c_app_type c = sniToAppType host \<and> bestDomain c = host))"
  using hello_frame_judged [OF assms] by blast

text \<open>The sample: a ClientHello for \<open>a.io\<close> on port 443, with a rule against \<open>A.io\<close>.\<close>

definition hello_frame :: tcp_frame where
  "hello_frame = \<lparr>tf_dst_mac = [1, 2, 3, 4, 5, 6], tf_src_mac = [6, 5, 4, 3, 2, 1],
     tf_ip = sample_ip\<lparr>ip4_tos_to_fragment := [0, 0, 95, 0, 1, 0, 0]\<rparr>,
     tf_segment = sample_segment\<lparr>sg_payload := client_hello_bytes sample_hello\<rparr>\<rparr>"

lemma sample_opens_with_hello:
  assumes "rm_blocked_ips rm = []"
  shows "opens_with_hello True hello_frame sample_hello (new_fast_path 0) rm"
proof -
  have "wf_frame hello_frame"
    by (simp add: wf_frame_def hello_frame_def wf_segment_def wf_ipv4_packet_def sample_ip_def sample_segment_def)
  moreover have "length (client_hello_bytes sample_hello) \<le> 16384" "ch_host sample_hello \<noteq> []"
    by (simp_all add: client_hello_bytes_def record_start_def sample_hello_def hello_body_def hello_prefix_def
        hello_extensions_def extension_bytes_def server_name_extension_def)
  ultimately show ?thesis
    using assms wf_sample_hello
    by (simp add: opens_with_hello_def isIPBlocked_def) (simp add: hello_frame_def sample_segment_def)
qed

definition hello_job :: RawPacketJob where
  "hello_job = \<lparr>rj_packet_id = 0, rj_ts_sec = 0, rj_ts_usec = 0, rj_data = frame_bytes hello_frame\<rparr>"

lemma hello_frame_ports: "sg_src_port (tf_segment hello_frame) = 50000" "sg_dst_port (tf_segment hello_frame) = 443"
  by (simp_all add: hello_frame_def sample_segment_def)

lemma tls_frame_is_judged_by_its_server_name_witness:
  "\<exists>job. job_of True hello_job = Inr (Some job) \<and>
     acted (processPacket 9 (blockDomain ''A.io'' no_rules) job (new_fast_path 0)) (new_fast_path 0) job DROP
       (\<lambda>c. c_state c = BLOCKED \<and> c_app_type c = sniToAppType ''a.io'' \<and> bestDomain c = ''a.io'')"
proof -
  have "rm_blocked_ips (blockDomain ''A.io'' no_rules) = []" by (simp add: blockDomain_def no_rules_def Let_def)
  from tls_frame_is_judged_by_its_server_name [OF sample_opens_with_hello [OF this], of hello_job 9]
  show ?thesis
    using sample_host sample_host_blocked by (simp add: hello_frame_ports hello_job_def Let_def)
qed

section \<open>The engine and the single-threaded program\<close>

text \<open>Rules of the two programs that block the same applications and agree on one name.\<close>

definition rules_agree :: "BlockingRules \<Rightarrow> RuleManager \<Rightarrow> string \<Rightarrow> bool" where
  "rules_agree br rm host \<longleftrightarrow>
     (\<forall>app. isAppBlocked rm app \<longleftrightarrow> app \<in> set (br_blocked_apps br)) \<and>
     (isDomainBlocked rm host \<longleftrightarrow> list_ex (\<lambda>d. finds d host) (br_blocked_domains br))"

text \<open>
  C9. The engine decides as the single-threaded program it was developed from: when the rules of the two
  agree, the first packet of a TLS connection to port 443 that names a known server is dropped by both or
  forwarded by both, the flow is blocked in both or in neither, and what the engine hands to its output
  thread and the other program writes is the same record.
\<close>

theorem engine_agrees_with_single_threaded_program:
  assumes "opens_with_hello le f ch fp rm" and "rj_data rj = frame_bytes f"
    and "sg_src_port (tf_segment f) \<noteq> 80" and "sg_dst_port (tf_segment f) = 443"
    and "host = map byte_char (ch_host ch)" and "sniToAppType host \<noteq> UNKNOWN"
    and "rules_agree br rm host" and "ft_src_ip (frame_tuple le f) \<notin> set (br_blocked_ips br)"
    and "ls_flows st (frame_tuple le f) = None"
  shows "\<exists>job action c fp' st'. job_of le rj = Inr (Some job) \<and> processPacket now rm job fp = Inr fp' \<and>
    fp_output fp' = fp_output fp @ [(job, action)] \<and>
    getConnection (fp_connection_tracker fp') (pj_flow_key job) = Some c \<and>
    legacy_packet le br (raw_packet rj) st = Inr st' \<and>
    (blocked_in st' (frame_tuple le f) \<longleftrightarrow> c_state c = BLOCKED) \<and>
    ls_output st' = ls_output st @ (if action = DROP then [] else output_body le [stamped_job job])"
proof -
  have "sg_dst_port (tf_segment f) \<noteq> 80" using assms(4) by simp
  from hello_frame_judged [OF assms(1-3) this, of now] obtain job where
    job: "job_of le rj = Inr (Some job)" "stamped_job job = stamped_raw (raw_packet rj)"
    and acts: "let blocked = isAppBlocked rm (sniToAppType host) \<or> isDomainBlocked rm host
     in acted (processPacket now rm job fp) fp job (if blocked then DROP else FORWARD)
          (\<lambda>c. c_state c = (if blocked then BLOCKED else CLASSIFIED) \<and>
            c_app_type c = sniToAppType host \<and> bestDomain c = host)"
    unfolding assms(5) Let_def by blast
  define blocked where "blocked = (isAppBlocked rm (sniToAppType host) \<or> isDomainBlocked rm host)"
  from acts obtain fp' c where e: "processPacket now rm job fp = Inr fp'"
    "fp_output fp' = fp_output fp @ [(job, if blocked then DROP else FORWARD)]"
    "getConnection (fp_connection_tracker fp') (pj_flow_key job) = Some c"
    "c_state c = (if blocked then BLOCKED else CLASSIFIED)"
    by (auto simp: blocked_def [symmetric] acted_def Let_def)
  obtain pk where pk: "parse le (raw_packet rj) = Inr (True, pk)" "pp_ip_version pk = 4" "pp_has_tcp pk"
      "tuple_of pk = frame_tuple le f" "pp_payload_data pk = sg_payload (tf_segment f)"
    using frame_parsed [of f "raw_packet rj" le] assms(1,2) by (metis opens_with_hello_def raw_packet_def RawPacket.select_convs(2))
  have fields: "pp_dest_port pk = 443" "pp_src_ip_raw pk = ft_src_ip (frame_tuple le f)"
    using assms(4) by (simp_all add: pk(4) [symmetric] tuple_of_def) (metis FiveTuple.select_convs(4) frame_tuple_def pk(4) tuple_of_def)
  obtain q where q: "pp_payload_data pk = client_hello_bytes ch @ q"
    using assms(1) pk(5) by (auto simp: opens_with_hello_def elim: prefixE)
  have hello: "wf_client_hello ch" "ch_host ch \<noteq> []" using assms(1) by (simp_all add: opens_with_hello_def)
  have "blocked = br_isBlocked br (pp_src_ip_raw pk) (sniToAppType host) host"
    using assms(7,8) by (simp add: blocked_def br_isBlocked_def rules_agree_def fields(2))
  from legacy_hello [OF pk(1-3) fields(1) q hello assms(5,6) _ this, of st] obtain st' where
    "legacy_packet le br (raw_packet rj) st = Inr st'" "blocked_in st' (frame_tuple le f) = blocked"
    "ls_output st' = ls_output st @ (if blocked then [] else output_body le [stamped_raw (raw_packet rj)])"
    using assms(9) by (auto simp: pk(4))
  with job e show ?thesis
    by (intro exI [of _ job] exI [of _ "if blocked then DROP else FORWARD"] exI [of _ c] exI [of _ fp'] exI [of _ st']) simp
qed

definition hello_rules :: BlockingRules where
  "hello_rules = no_blocking\<lparr>br_blocked_domains := [''a.io'']\<rparr>"

lemma engine_agrees_with_single_threaded_program_witness:
  "\<exists>job action fp' st'. job_of True hello_job = Inr (Some job) \<and>
     processPacket 9 (blockDomain ''A.io'' no_rules) job (new_fast_path 0) = Inr fp' \<and>
     fp_output fp' = fp_output (new_fast_path 0) @ [(job, action)] \<and>
     legacy_packet True hello_rules (raw_packet hello_job) (legacy_start []) = Inr st' \<and>
     ls_output st' = (if action = DROP then [] else output_body True [stamped_job job])"
proof -
  have "rm_blocked_ips (blockDomain ''A.io'' no_rules) = []" by (simp add: blockDomain_def no_rules_def Let_def)
  note opens = sample_opens_with_hello [OF this]
  have agree: "rules_agree hello_rules (blockDomain ''A.io'' no_rules) ''a.io''"
    using sample_host_blocked
    by (simp add: rules_agree_def hello_rules_def no_blocking_def isAppBlocked_def blockDomain_def no_rules_def Let_def)
  have known: "sniToAppType ''a.io'' \<noteq> UNKNOWN" by code_simp
  have given: "rj_data hello_job = frame_bytes hello_frame" "sg_src_port (tf_segment hello_frame) \<noteq> 80"
    "sg_dst_port (tf_segment hello_frame) = 443" "ft_src_ip (frame_tuple True hello_frame) \<notin> set (br_blocked_ips hello_rules)"
    "ls_flows (legacy_start []) (frame_tuple True hello_frame) = None"
    by (simp_all add: hello_job_def hello_frame_ports hello_rules_def no_blocking_def legacy_start_def)
  obtain job action c fp' st' where j: "job_of True hello_job = Inr (Some job)"
    "processPacket 9 (blockDomain ''A.io'' no_rules) job (new_fast_path 0) = Inr fp'"
    "fp_output fp' = fp_output (new_fast_path 0) @ [(job, action)]"
    "legacy_packet True hello_rules (raw_packet hello_job) (legacy_start []) = Inr st'"
    and o: "ls_output st' = ls_output (legacy_start []) @ (if action = DROP then [] else output_body True [stamped_job job])"
    using engine_agrees_with_single_threaded_program
      [OF opens given(1-3) sample_host [symmetric] known agree given(4,5), of 9] by blast
  have "ls_output st' = (if action = DROP then [] else output_body True [stamped_job job])"
    unfolding o by (simp add: legacy_start_def)
  with j show ?thesis by (intro exI conjI)
qed

end
